(* ===== verification/Prelude.thy ===== *)
theory Prelude
  imports Main "HOL-Library.Word" "HOL-Library.AList"
begin

text \<open>
  What the component theories share.

  \<^item> Rust's fixed-width integers. A signed value is an \<open>int\<close>; where the source wraps
    (\<open>wrapping_add\<close>) or an addition can leave the type's range, the wrap is written out with
    \<open>wrap32\<close> and its kin, which read the low bits as two's complement.
  \<^item> Big-endian byte strings: \<open>i16::from_be_bytes\<close> and its kin, and \<open>to_be_bytes\<close>.
  \<^item> \<open>HashMap\<close>: an association list with distinct keys, in the map's iteration order, which
    Rust leaves unspecified. \<open>hm_get\<close>, \<open>hm_insert\<close> and \<open>hm_remove\<close> are the map's operations;
    no property of the development depends on the order.
  \<^item> Interfaces used by several components: a machine whose steps keep an invariant
    (\<open>step_invariant\<close>) and a store whose writes carry a stamp that no write may lower
    (\<open>fenced_store\<close>).
\<close>

type_synonym byte = "8 word"
type_synonym bytes = "byte list"
type_synonym ('k, 'v) hash_map = "('k \<times> 'v) list"

named_theorems rust_defs "definitions of the Rust primitives, for evaluation on closed terms"

section \<open>Fixed-width integers\<close>

definition wrap16 :: "int \<Rightarrow> int" where
  "wrap16 x = signed_take_bit 15 x"

definition wrap32 :: "int \<Rightarrow> int" where
  "wrap32 x = signed_take_bit 31 x"

definition wrap64 :: "int \<Rightarrow> int" where
  "wrap64 x = signed_take_bit 63 x"

definition i16_MAX :: int where "i16_MAX = 32767"
definition i32_MAX :: int where "i32_MAX = 2147483647"
definition i32_MIN :: int where "i32_MIN = -2147483648"
definition i64_MAX :: int where "i64_MAX = 9223372036854775807"
definition u32_MAX :: int where "u32_MAX = 4294967295"

definition in_i32 :: "int \<Rightarrow> bool" where
  "in_i32 x \<longleftrightarrow> i32_MIN \<le> x \<and> x \<le> i32_MAX"

lemmas int_bounds = i16_MAX_def i32_MAX_def i32_MIN_def i64_MAX_def u32_MAX_def

declare wrap16_def [rust_defs] wrap32_def [rust_defs] wrap64_def [rust_defs]
  i16_MAX_def [rust_defs] i32_MAX_def [rust_defs] i32_MIN_def [rust_defs]
  i64_MAX_def [rust_defs] u32_MAX_def [rust_defs] in_i32_def [rust_defs]

lemma wrap32_id [simp]: "in_i32 x \<Longrightarrow> wrap32 x = x"
  by (simp add: wrap32_def in_i32_def int_bounds signed_take_bit_int_eq_self)

lemma in_i32_wrap32 [simp]: "in_i32 (wrap32 x)"
proof -
  have "- (2 ^ 31) \<le> signed_take_bit 31 x" by (rule signed_take_bit_int_greater_eq_minus_exp)
  moreover have "signed_take_bit 31 x < 2 ^ 31" by (rule signed_take_bit_int_less_exp)
  ultimately show ?thesis by (simp add: wrap32_def in_i32_def int_bounds)
qed

section \<open>Big-endian byte strings\<close>

definition slice :: "nat \<Rightarrow> nat \<Rightarrow> 'a list \<Rightarrow> 'a list" where
  "slice i j xs = take (j - i) (drop i xs)"

fun be_uint :: "bytes \<Rightarrow> int" where
  "be_uint [] = 0"
| "be_uint (b # bs) = uint b * 256 ^ length bs + be_uint bs"

fun be_bytes :: "nat \<Rightarrow> int \<Rightarrow> bytes" where
  "be_bytes 0 x = []"
| "be_bytes (Suc n) x = word_of_int (x div 256 ^ n) # be_bytes n x"

definition be_i16 :: "bytes \<Rightarrow> int" where "be_i16 bs = wrap16 (be_uint bs)"
definition be_i32 :: "bytes \<Rightarrow> int" where "be_i32 bs = wrap32 (be_uint bs)"
definition be_i64 :: "bytes \<Rightarrow> int" where "be_i64 bs = wrap64 (be_uint bs)"

declare slice_def [rust_defs] be_i16_def [rust_defs] be_i32_def [rust_defs] be_i64_def [rust_defs]

lemma length_slice [simp]: "j \<le> length xs \<Longrightarrow> length (slice i j xs) = j - i"
  by (simp add: slice_def)

lemma slice_append_left [simp]: "j \<le> length xs \<Longrightarrow> slice i j (xs @ ys) = slice i j xs"
  by (simp add: slice_def)

lemma slice_append_right [simp]:
  "length xs \<le> i \<Longrightarrow> slice i j (xs @ ys) = slice (i - length xs) (j - length xs) ys"
  by (simp add: slice_def)

lemma slice_take [simp]: "j \<le> n \<Longrightarrow> slice i j (take n xs) = slice i j xs"
  by (simp add: slice_def drop_take min_def)

lemma slice_drop [simp]: "slice i j (drop n xs) = slice (n + i) (n + j) xs"
  by (simp add: slice_def add.commute)

lemma slice_all [simp]: "length xs = n \<Longrightarrow> slice 0 n xs = xs"
  by (simp add: slice_def)

lemma length_be_bytes [simp]: "length (be_bytes n x) = n"
  by (induction n) auto

lemma be_uint_append: "be_uint (xs @ ys) = be_uint xs * 256 ^ length ys + be_uint ys"
  by (induction xs) (simp_all add: algebra_simps power_add)

lemma be_uint_bounds: "0 \<le> be_uint bs \<and> be_uint bs < 256 ^ length bs"
proof (induction bs)
  case Nil
  show ?case by simp
next
  case (Cons b bs)
  have b: "0 \<le> uint b" "uint b \<le> 255"
    using uint_lt2p [of b] by simp_all
  have le: "uint b * 256 ^ length bs \<le> 255 * 256 ^ length bs"
    by (rule mult_right_mono) (use b in simp_all)
  have ge: "0 \<le> uint b * 256 ^ length bs" using b by simp
  have "uint b * 256 ^ length bs + be_uint bs < 256 * 256 ^ length bs"
    using le Cons.IH by linarith
  with ge Cons.IH show ?case by simp
qed

lemma be_uint_be_bytes: "be_uint (be_bytes n x) = x mod 256 ^ n"
proof (induction n)
  case 0
  show ?case by simp
next
  case (Suc n)
  have "uint (word_of_int (x div 256 ^ n) :: byte) = (x div 256 ^ n) mod 256"
    by (simp add: uint_word_of_int)
  moreover have "x mod 256 ^ Suc n = 256 ^ n * (x div 256 ^ n mod 256) + x mod 256 ^ n"
    using zmod_zmult2_eq [of 256 x "256 ^ n"] by (simp only: power_Suc2)
  ultimately show ?case
    using Suc by (simp add: mult.commute del: power_Suc)
qed

lemma signed_take_bit_mod_self:
  assumes "- (2 ^ n) \<le> x" and "x < 2 ^ n"
  shows "signed_take_bit n (x mod 2 ^ Suc n) = (x :: int)"
proof -
  have "signed_take_bit n (take_bit (Suc n) x) = signed_take_bit n x"
    by (simp add: signed_take_bit_take_bit)
  with assms show ?thesis
    by (simp add: take_bit_eq_mod signed_take_bit_int_eq_self)
qed

lemma be_i64_be_bytes [simp]:
  "- (2 ^ 63) \<le> x \<Longrightarrow> x < 2 ^ 63 \<Longrightarrow> be_i64 (be_bytes 8 x) = x"
  using signed_take_bit_mod_self [of 63 x]
  by (simp add: be_i64_def wrap64_def be_uint_be_bytes)

lemma be_i32_be_bytes [simp]: "in_i32 x \<Longrightarrow> be_i32 (be_bytes 4 x) = x"
  using signed_take_bit_mod_self [of 31 x]
  by (simp add: be_i32_def wrap32_def be_uint_be_bytes in_i32_def int_bounds)

lemma be_uint_u32_be_bytes [simp]: "0 \<le> x \<Longrightarrow> x \<le> u32_MAX \<Longrightarrow> be_uint (be_bytes 4 x) = x"
  by (simp add: be_uint_be_bytes int_bounds)

lemma in_i32_be_i32 [simp]: "in_i32 (be_i32 bs)"
  by (simp add: be_i32_def)

section \<open>Lists\<close>

definition last_opt :: "'a list \<Rightarrow> 'a option" where
  "last_opt xs = (if xs = [] then None else Some (last xs))"

lemma last_opt_simps [simp]:
  "last_opt [] = None" "last_opt (xs @ [x]) = Some x" "last_opt [x] = Some x"
  by (simp_all add: last_opt_def)

section \<open>Hash maps\<close>

abbreviation hm_get :: "('k, 'v) hash_map \<Rightarrow> 'k \<Rightarrow> 'v option" where
  "hm_get \<equiv> map_of"

abbreviation hm_insert :: "'k \<Rightarrow> 'v \<Rightarrow> ('k, 'v) hash_map \<Rightarrow> ('k, 'v) hash_map" where
  "hm_insert \<equiv> AList.update"

abbreviation hm_remove :: "'k \<Rightarrow> ('k, 'v) hash_map \<Rightarrow> ('k, 'v) hash_map" where
  "hm_remove \<equiv> AList.delete"

abbreviation hm_wf :: "('k, 'v) hash_map \<Rightarrow> bool" where
  "hm_wf m \<equiv> distinct (map fst m)"

declare AList.update_conv' [simp] AList.delete_conv' [simp]
  AList.distinct_update [simp] AList.distinct_delete [simp]

lemma hm_get_iff_mem: "hm_wf m \<Longrightarrow> hm_get m k = Some v \<longleftrightarrow> (k, v) \<in> set m"
  by (rule map_of_eq_Some_iff)

lemma hm_insert_new: "k \<notin> fst ` set m \<Longrightarrow> hm_insert k v m = m @ [(k, v)]"
  by (induction m) auto

lemma foldl_hm_insert:
  "hm_wf (m @ es) \<Longrightarrow> foldl (\<lambda>m (k, v). hm_insert k v m) m es = m @ es"
proof (induction es arbitrary: m)
  case (Cons x es)
  obtain k v where x: "x = (k, v)" by (cases x)
  then have "hm_insert k v m = m @ [(k, v)]"
    using Cons.prems by (intro hm_insert_new) auto
  with Cons.IH [of "m @ [(k, v)]"] Cons.prems x show ?case by simp
qed simp

lemma foldl_hm_insert_Nil: "hm_wf es \<Longrightarrow> foldl (\<lambda>m (k, v). hm_insert k v m) [] es = es"
  using foldl_hm_insert [of "[]" es] by simp

section \<open>Interfaces shared by components\<close>

text \<open>A component whose every operation keeps its invariant keeps it along every run.\<close>

locale step_invariant =
  fixes step :: "'s \<Rightarrow> 'e \<Rightarrow> 's" and inv :: "'s \<Rightarrow> bool"
  assumes step_keeps: "inv s \<Longrightarrow> inv (step s e)"
begin

lemma run_keeps: "inv s \<Longrightarrow> inv (foldl step s es)"
  by (induction es arbitrary: s) (auto intro: step_keeps)

end

text \<open>
  A store on the shared volume that several brokers write, each write carrying a stamp (an
  epoch). A write goes through only when the stamp on disk is not higher.
\<close>

locale fenced_store =
  fixes stamp :: "'s \<Rightarrow> 't :: linorder" and put :: "'t \<Rightarrow> 'v \<Rightarrow> 's \<Rightarrow> 's"
  assumes put_stale: "t < stamp s \<Longrightarrow> put t v s = s"
    and put_fresh: "stamp s \<le> t \<Longrightarrow> stamp (put t v s) = t"
begin

lemma stamp_put: "stamp (put t v s) = max (stamp s) t"
proof (cases "t < stamp s")
  case True
  then show ?thesis by (simp add: put_stale max.absorb1)
next
  case False
  then show ?thesis by (simp add: put_fresh max.absorb2 not_less)
qed

lemma stamp_put_mono: "stamp s \<le> stamp (put t v s)"
  by (simp add: stamp_put)

lemma stamp_run_mono: "stamp s \<le> stamp (foldl (\<lambda>s (t, v). put t v s) s ws)"
proof (induction ws arbitrary: s)
  case Nil
  show ?case by simp
next
  case (Cons w ws)
  obtain t v where w: "w = (t, v)" by (cases w)
  have "stamp s \<le> stamp (put t v s)" by (rule stamp_put_mono)
  also have "\<dots> \<le> stamp (foldl (\<lambda>s (t, v). put t v s) (put t v s) ws)" by (rule Cons.IH)
  finally show ?case by (simp add: w)
qed

text \<open>Once a writer at stamp \<open>t\<close> has got through, no later write at a lower stamp changes the
  store, however the writes interleave.\<close>

lemma stale_run_no_effect:
  "\<forall>w \<in> set ws. fst w < stamp s \<Longrightarrow> foldl (\<lambda>s (t, v). put t v s) s ws = s"
  by (induction ws) (auto simp: put_stale split: prod.splits)

end

end
