(* ===== verification/FileStore.thy ===== *)
theory FileStore
  imports Prelude
begin

text \<open>
  The file-system interface of the storage engine (\<open>crates/kaas-storage/src/fs.rs\<close>, trait
  \<open>Fs\<close> and its production implementation \<open>RealFs\<close>): a partition directory is a finite map from
  file names to contents. Which calls fail, how much of a failing write reaches the disk, the
  clock and the modification times are the environment \<open>io_env\<close> of an operation, so that every
  I/O error branch of the callers is a branch of the model.
\<close>

type_synonym file_store = "(string, bytes) hash_map"

datatype io_call =
    Mkdir | Create_log | Create_index | Open_log | Open_index | Open_read
  | Write_log | Write_index | Sync_log | Truncate_log | Truncate_unsupported | Remove_file
  | Write_snapshot | Write_txn_snapshot | Write_manifest | Write_checkpoint
  | Read_manifest | Read_snapshot | Read_txn_snapshot | Readdir | Probe_write
  | Stat_manifest | Read_topic_config | Write_topic_config | Read_topic_identity
  | Write_topic_identity | Remove_dir | Copy_dir

record io_env =
  io_fails :: "io_call \<Rightarrow> bool"
  io_torn :: nat
  io_now :: int
  io_mtime :: "string \<Rightarrow> int option"

text \<open>The environment in which every call succeeds.\<close>

definition healthy_io :: io_env where
  "healthy_io = \<lparr>io_fails = (\<lambda>_. False), io_torn = 0, io_now = 0, io_mtime = (\<lambda>_. None)\<rparr>"

datatype io_error = Io_failed | Handle_closed | Invalid_data

text \<open>\<open>write_all_at\<close>: a write past the end of the file fills the gap with zeros.\<close>

definition file_write_at :: "bytes \<Rightarrow> nat \<Rightarrow> bytes \<Rightarrow> bytes" where
  "file_write_at f off raw =
     take off (f @ replicate (off - length f) 0) @ raw @ drop (off + length raw) f"

text \<open>\<open>read_exact\<close> at a cursor position: all \<open>n\<close> bytes or an error.\<close>

definition read_exact :: "bytes \<Rightarrow> nat \<Rightarrow> nat \<Rightarrow> bytes option" where
  "read_exact f pos n = (if pos + n \<le> length f then Some (slice pos (pos + n) f) else None)"

text \<open>\<open>open_write\<close> with \<open>create(true).truncate(false)\<close>, and \<open>create\<close> with \<open>truncate(true)\<close>.\<close>

definition fs_open_write :: "file_store \<Rightarrow> string \<Rightarrow> file_store" where
  "fs_open_write fs p = (case hm_get fs p of None \<Rightarrow> hm_insert p [] fs | Some _ \<Rightarrow> fs)"

definition fs_create :: "file_store \<Rightarrow> string \<Rightarrow> file_store" where
  "fs_create fs p = hm_insert p [] fs"

definition fs_stat :: "file_store \<Rightarrow> string \<Rightarrow> nat option" where
  "fs_stat fs p = map_option length (hm_get fs p)"

definition fs_contents :: "file_store \<Rightarrow> string \<Rightarrow> bytes" where
  "fs_contents fs p = (case hm_get fs p of None \<Rightarrow> [] | Some f \<Rightarrow> f)"

definition fs_write_at :: "file_store \<Rightarrow> string \<Rightarrow> nat \<Rightarrow> bytes \<Rightarrow> file_store" where
  "fs_write_at fs p off raw = hm_insert p (file_write_at (fs_contents fs p) off raw) fs"

text \<open>\<open>set_len\<close>: shrink, or grow with zeros.\<close>

definition fs_truncate :: "file_store \<Rightarrow> string \<Rightarrow> nat \<Rightarrow> file_store" where
  "fs_truncate fs p len =
     (let f = fs_contents fs p
      in hm_insert p (take len (f @ replicate (len - length f) 0)) fs)"

definition fs_readdir :: "file_store \<Rightarrow> (string \<times> nat) list" where
  "fs_readdir fs = map (\<lambda>(name, f). (name, length f)) fs"

section \<open>Reading and writing at a position\<close>

lemma file_write_at_end [simp]: "file_write_at f (length f) raw = f @ raw"
  by (simp add: file_write_at_def)

lemma length_file_write_at:
  "length (file_write_at f off raw) = max (length f) (off + length raw)"
  by (auto simp: file_write_at_def)

lemma slice_file_write_at_same:
  "slice off (off + length raw) (file_write_at f off raw) = raw"
  by (simp add: slice_def file_write_at_def)

lemma slice_file_write_at_before:
  assumes "j \<le> off" "off \<le> length f"
  shows "slice i j (file_write_at f off raw) = slice i j f"
  using assms by (simp add: file_write_at_def)

lemma slice_file_write_at_after:
  assumes "off + length raw \<le> i" "off \<le> length f"
  shows "slice i j (file_write_at f off raw) = slice i j f"
proof -
  have "slice i j (file_write_at f off raw) =
      slice i j ((take off f @ raw) @ drop (off + length raw) f)"
    using assms(2) by (simp add: file_write_at_def)
  also have "\<dots> = take (j - i) (drop (i - (off + length raw)) (drop (off + length raw) f))"
    using assms by (simp add: slice_def)
  also have "\<dots> = slice i j f" using assms(1) by (simp add: slice_def)
  finally show ?thesis .
qed

lemma take_file_write_at:
  assumes "n \<le> off" "off \<le> length f"
  shows "take n (file_write_at f off raw) = take n f"
  using assms by (simp add: file_write_at_def)


lemma read_exact_within:
  assumes "drop pos f = b @ g" "i + n \<le> length b" "0 < length b"
  shows "read_exact f (pos + i) n = Some (slice i (i + n) b)"
proof -
  have len: "length f - pos = length b + length g"
    using assms(1) by (metis length_append length_drop)
  then have "pos + i + n \<le> length f" using assms(2,3) by linarith
  moreover have "slice (pos + i) (pos + i + n) f = slice i (i + n) (drop pos f)"
    by (simp add: add.assoc)
  ultimately show ?thesis using assms(1,2) by (simp add: read_exact_def)
qed

lemma read_exact_SomeD:
  "read_exact f pos n = Some x \<Longrightarrow> pos + n \<le> length f \<and> x = slice pos (pos + n) f \<and> length x = n"
  by (auto simp: read_exact_def split: if_splits)

lemma read_exact_None_iff: "read_exact f pos n = None \<longleftrightarrow> length f < pos + n"
  by (auto simp: read_exact_def)

lemma slice_slice: "j' \<le> j - i \<Longrightarrow> slice i' j' (slice i j xs) = slice (i + i') (i + j') xs"
  by (simp add: slice_def drop_take min_def add.commute)

lemma drop_slice: "drop n (slice i j xs) = slice (i + n) j xs"
  by (simp add: slice_def drop_take add.commute)

lemma slice_to_end: "slice i (length xs) xs = drop i xs"
  by (simp add: slice_def)

lemma slice_append_slice:
  "i \<le> j \<Longrightarrow> j \<le> k \<Longrightarrow> slice i j xs @ slice j k xs = slice i k xs"
proof -
  assume *: "i \<le> j" "j \<le> k"
  have "slice i k xs = take ((j - i) + (k - j)) (drop i xs)" using * by (simp add: slice_def)
  also have "\<dots> = take (j - i) (drop i xs) @ take (k - j) (drop (j - i) (drop i xs))"
    by (rule take_add)
  also have "\<dots> = slice i j xs @ slice j k xs" using * by (simp add: slice_def)
  finally show ?thesis by simp
qed

end
