(* ===== verification/LogFormat.thy ===== *)
theory LogFormat
  imports FileStore
begin

text \<open>
  The log file format (\<open>crates/kaas-storage/src/segment.rs\<close>): a segment's log is a sequence of
  RecordBatches, each a 12-byte prefix (base offset, length) and a body whose header carries the
  checksum and the last offset delta. Here are the routines that walk such a file: the recovery
  scan that finds the end of the last valid batch, the binary search of the sparse index, and the
  read loop of the fetch path. CRC-32C is the third-party crate \<open>crc32c\<close>: its two functions are
  arguments of the scan.
\<close>

section \<open>Batch header\<close>

definition parse_batch_offsets :: "bytes \<Rightarrow> (int \<times> int \<times> int) option" where
  "parse_batch_offsets raw =
     (if length raw < 43 then None
      else Some (be_i64 (slice 0 8 raw), be_i32 (slice 23 27 raw), be_i64 (slice 35 43 raw)))"

section \<open>Recovery scan\<close>

datatype scan_stop = Eof | Torn | CrcMismatch

record scan_result =
  sr_high_watermark :: int
  sr_valid_end :: nat
  sr_stop :: scan_stop

text \<open>One iteration either stops or moves past a batch; the cursor only grows, within the file.\<close>

function scan_loop ::
  "(bytes \<Rightarrow> int) \<Rightarrow> (int \<Rightarrow> bytes \<Rightarrow> int) \<Rightarrow> bytes \<Rightarrow> nat \<Rightarrow> int \<Rightarrow> nat \<Rightarrow> scan_result" where
  "scan_loop crc32c crc32c_append f pos hwm valid_end =
     (let stop = (\<lambda>s. \<lparr>sr_high_watermark = hwm, sr_valid_end = valid_end, sr_stop = s\<rparr>) in
      case read_exact f pos 12 of
        None \<Rightarrow> stop Eof
      | Some header \<Rightarrow>
          let batch_length = be_i32 (slice 8 12 header) in
          if batch_length < 16 then stop Torn
          else case read_exact f (pos + 12) 16 of
            None \<Rightarrow> stop Torn
          | Some body_head \<Rightarrow>
              let rest_us = nat (batch_length - 16) in
              case read_exact f (pos + 28) rest_us of
                None \<Rightarrow> stop Torn
              | Some rest \<Rightarrow>
                  let expected = be_uint (slice 5 9 body_head);
                      digest = crc32c_append (crc32c (drop 9 body_head)) rest in
                  if digest \<noteq> expected then stop CrcMismatch
                  else scan_loop crc32c crc32c_append f (pos + 28 + rest_us)
                         (be_i64 (slice 0 8 header) + be_i32 (slice 11 15 body_head) + 1)
                         (valid_end + nat batch_length + 12))"
  by pat_completeness auto
termination
  by (relation "measure (\<lambda>(_, _, f, pos, _, _). length f - pos)")
    (auto simp: read_exact_def split: if_splits)

declare scan_loop.simps [simp del]

definition scan_high_watermark_from ::
  "(bytes \<Rightarrow> int) \<Rightarrow> (int \<Rightarrow> bytes \<Rightarrow> int) \<Rightarrow> bytes \<Rightarrow> nat \<Rightarrow> int \<Rightarrow> scan_result" where
  "scan_high_watermark_from crc32c crc32c_append f start_byte start_hwm =
     scan_loop crc32c crc32c_append f start_byte start_hwm start_byte"

definition scan_high_watermark ::
  "(bytes \<Rightarrow> int) \<Rightarrow> (int \<Rightarrow> bytes \<Rightarrow> int) \<Rightarrow> bytes \<Rightarrow> int \<Rightarrow> int" where
  "scan_high_watermark crc32c crc32c_append f segment_base_offset =
     sr_high_watermark (scan_high_watermark_from crc32c crc32c_append f 0 segment_base_offset)"

section \<open>Sparse index\<close>

definition INDEX_ENTRY_SIZE :: nat where "INDEX_ENTRY_SIZE = 8"

definition read_index_entry :: "bytes \<Rightarrow> nat \<Rightarrow> int \<times> int" where
  "read_index_entry data i =
     (let off = i * INDEX_ENTRY_SIZE in
      (be_i32 (slice off (off + 4) data), be_uint (slice (off + 4) (off + 8) data)))"

function search_loop :: "bytes \<Rightarrow> int \<Rightarrow> nat \<Rightarrow> nat \<Rightarrow> int \<Rightarrow> int" where
  "search_loop data target_rel lo hi result =
     (if lo \<le> hi then
        let mid = lo + (hi - lo) div 2;
            (rel_offset, pos) = read_index_entry data mid in
        if rel_offset \<le> target_rel then search_loop data target_rel (mid + 1) hi pos
        else if mid = 0 then result
        else search_loop data target_rel lo (mid - 1) result
      else result)"
  by pat_completeness auto
termination
  by (relation "measure (\<lambda>(_, _, lo, hi, _). hi + 1 - lo)") (auto simp: less_Suc_eq_le)

declare search_loop.simps [simp del]

definition search_index_bytes :: "bytes \<Rightarrow> int \<Rightarrow> int \<Rightarrow> int" where
  "search_index_bytes data segment_base_offset target_offset =
     (let n = length data div INDEX_ENTRY_SIZE in
      if n = 0 then 0
      else let target_rel = target_offset - segment_base_offset in
        if \<not> in_i32 target_rel then snd (read_index_entry data (n - 1))
        else if target_rel < 0 then 0
        else search_loop data target_rel 0 (n - 1) 0)"

section \<open>Read loop\<close>

function read_loop :: "bytes \<Rightarrow> nat \<Rightarrow> int \<Rightarrow> nat \<Rightarrow> bytes \<Rightarrow> bytes" where
  "read_loop f pos start_offset max_bytes acc =
     (if \<not> length acc < max_bytes then acc
      else case read_exact f pos 12 of
        None \<Rightarrow> acc
      | Some header \<Rightarrow>
          let batch_length = be_i32 (slice 8 12 header) in
          if batch_length \<le> 0 then acc
          else let body_len = nat batch_length in
            if body_len < 15 then acc
            else case read_exact f (pos + 12) 15 of
              None \<Rightarrow> acc
            | Some body_head \<Rightarrow>
                let batch_last_offset = be_i64 (slice 0 8 header) + be_i32 (slice 11 15 body_head);
                    rest = body_len - 15 in
                if batch_last_offset < start_offset
                then read_loop f (pos + 27 + rest) start_offset max_bytes acc
                else case read_exact f (pos + 27) rest of
                  None \<Rightarrow> acc
                | Some tl_bytes \<Rightarrow>
                    read_loop f (pos + 27 + rest) start_offset max_bytes
                      (acc @ header @ body_head @ tl_bytes))"
  by pat_completeness auto
termination
  by (relation "measure (\<lambda>(f, pos, _, _, _). length f - pos)")
    (auto simp: read_exact_def split: if_splits)

declare read_loop.simps [simp del]

text \<open>\<open>search_index\<close> and \<open>read_batches\<close> on a file of the partition directory; a missing or
  unreadable index starts the read at byte 0, a missing log reads as empty.\<close>

definition search_index :: "io_env \<Rightarrow> file_store \<Rightarrow> string \<Rightarrow> int \<Rightarrow> int \<Rightarrow> int" where
  "search_index io fs index_path segment_base_offset target_offset =
     (case hm_get fs index_path of
        None \<Rightarrow> 0
      | Some data \<Rightarrow>
          if io_fails io Open_index then 0
          else search_index_bytes data segment_base_offset target_offset)"

definition read_batches ::
  "io_env \<Rightarrow> file_store \<Rightarrow> string \<Rightarrow> int \<Rightarrow> int \<Rightarrow> nat \<Rightarrow> io_error + bytes" where
  "read_batches io fs log_path approx_pos start_offset max_bytes =
     (case hm_get fs log_path of
        None \<Rightarrow> Inr []
      | Some f \<Rightarrow>
          if io_fails io Open_read then Inl Io_failed
          else Inr (read_loop f (nat approx_pos) start_offset max_bytes []))"

section \<open>The batches of a file\<close>

text \<open>The header fields as functions of a whole batch, and the two levels of validity: framing
  (the length field covers the batch) and the checksum.\<close>

definition batch_base :: "bytes \<Rightarrow> int" where "batch_base b = be_i64 (slice 0 8 b)"
definition batch_length_field :: "bytes \<Rightarrow> int" where "batch_length_field b = be_i32 (slice 8 12 b)"
definition batch_delta :: "bytes \<Rightarrow> int" where "batch_delta b = be_i32 (slice 23 27 b)"
definition batch_last :: "bytes \<Rightarrow> int" where "batch_last b = batch_base b + batch_delta b"

definition framed :: "bytes \<Rightarrow> bool" where
  "framed b \<longleftrightarrow> 28 \<le> length b \<and> int (length b) = batch_length_field b + 12"

text \<open>What the scan relies on of the \<open>crc32c\<close> crate: continuing a digest over more bytes gives
  the digest of the concatenation.\<close>

definition crc32c_streaming :: "(bytes \<Rightarrow> int) \<Rightarrow> (int \<Rightarrow> bytes \<Rightarrow> int) \<Rightarrow> bool" where
  "crc32c_streaming crc crc_append \<longleftrightarrow> (\<forall>a b. crc_append (crc a) b = crc (a @ b))"

definition checked :: "(bytes \<Rightarrow> int) \<Rightarrow> bytes \<Rightarrow> bool" where
  "checked crc b \<longleftrightarrow> framed b \<and> crc (drop 21 b) = be_uint (slice 17 21 b)"

definition end_offset_of :: "int \<Rightarrow> bytes list \<Rightarrow> int" where
  "end_offset_of o1 bs = (if bs = [] then o1 else batch_last (last bs) + 1)"

lemma framed_length: "framed b \<Longrightarrow> nat (batch_length_field b) + 12 = length b"
  unfolding framed_def by linarith

lemma framed_field: "framed b \<Longrightarrow> 16 \<le> batch_length_field b"
  by (simp add: framed_def)

lemma framed_nonempty: "framed b \<Longrightarrow> 0 < length b"
  unfolding framed_def by linarith

subsection \<open>One scan iteration\<close>

lemma scan_loop_checked:
  assumes crc: "crc32c_streaming crc crc_append"
    and d: "drop pos f = b @ g" and b: "checked crc b"
  shows "scan_loop crc crc_append f pos hwm ve =
    scan_loop crc crc_append f (pos + length b) (batch_last b + 1) (ve + length b)"
proof -
  have fr: "framed b" using b by (simp add: checked_def)
  then have len: "28 \<le> length b" and l: "int (length b) = batch_length_field b + 12"
    by (simp_all add: framed_def)
  note within = read_exact_within [OF d _ framed_nonempty [OF fr]]
  have h: "read_exact f pos 12 = Some (slice 0 12 b)"
    using within [of 0 12] len by simp
  have bh: "read_exact f (pos + 12) 16 = Some (slice 12 28 b)"
    using within [of 12 16] len by simp
  have r: "read_exact f (pos + 28) (nat (batch_length_field b - 16)) = Some (slice 28 (length b) b)"
  proof -
    have "28 + nat (batch_length_field b - 16) = length b" using l len by linarith
    with within [of 28 "nat (batch_length_field b - 16)"] show ?thesis by simp
  qed
  have dig: "crc_append (crc (drop 9 (slice 12 28 b))) (slice 28 (length b) b) = crc (drop 21 b)"
  proof -
    have "drop 9 (slice 12 28 b) @ slice 28 (length b) b = drop 21 b"
      using slice_append_slice [of 21 28 "length b" b] len by (simp add: drop_slice slice_to_end)
    then show ?thesis using crc by (simp add: crc32c_streaming_def)
  qed
  have adv: "pos + 28 + nat (batch_length_field b - 16) = pos + length b"
      "ve + nat (batch_length_field b) + 12 = ve + length b"
    using l len by linarith+
  have fields: "be_i32 (slice 8 12 (slice 0 12 b)) = batch_length_field b"
      "be_i64 (slice 0 8 (slice 0 12 b)) + be_i32 (slice 11 15 (slice 12 28 b)) = batch_last b"
      "be_uint (slice 5 9 (slice 12 28 b)) = be_uint (slice 17 21 b)"
    by (simp_all add: slice_slice batch_length_field_def batch_last_def batch_base_def
        batch_delta_def)
  have crc_ok: "crc (drop 21 b) = be_uint (slice 17 21 b)" using b by (simp add: checked_def)
  have "\<not> batch_length_field b < 16" using framed_field [OF fr] by simp
  then show ?thesis
    by (simp add: scan_loop.simps [of crc crc_append f pos] Let_def h fields bh r dig crc_ok adv)
qed

lemma scan_loop_unchecked:
  assumes crc: "crc32c_streaming crc crc_append"
    and no: "\<And>b g. drop pos f = b @ g \<Longrightarrow> \<not> checked crc b"
  shows "\<exists>s. scan_loop crc crc_append f pos hwm ve =
      \<lparr>sr_high_watermark = hwm, sr_valid_end = ve, sr_stop = s\<rparr> \<and> (s = Eof \<longleftrightarrow> length f < pos + 12)"
proof (cases "read_exact f pos 12")
  case None
  then have "length f < pos + 12" by (simp add: read_exact_None_iff)
  with None show ?thesis by (simp add: scan_loop.simps [of crc crc_append f pos] Let_def)
next
  case (Some header)
  note h = read_exact_SomeD [OF Some]
  let ?bl = "be_i32 (slice 8 12 header)"
  show ?thesis
  proof (cases "?bl < 16 \<or> read_exact f (pos + 12) 16 = None \<or>
      read_exact f (pos + 28) (nat (?bl - 16)) = None")
    case True
    have stop: "\<not> length f < pos + 12" using h by simp
    from True consider "?bl < 16" | "\<not> ?bl < 16" "read_exact f (pos + 12) 16 = None"
      | bh where "\<not> ?bl < 16" "read_exact f (pos + 12) 16 = Some bh"
        "read_exact f (pos + 28) (nat (?bl - 16)) = None"
      by fastforce
    then show ?thesis
      by cases (simp_all add: scan_loop.simps [of crc crc_append f pos] Let_def Some stop)
  next
    case False
    then obtain bh rest where bl: "16 \<le> ?bl" and bh: "read_exact f (pos + 12) 16 = Some bh"
      and r: "read_exact f (pos + 28) (nat (?bl - 16)) = Some rest"
      by auto
    let ?n = "28 + nat (?bl - 16)"
    let ?b = "slice pos (pos + ?n) f"
    have end_f: "pos + ?n \<le> length f" using read_exact_SomeD [OF r] by simp
    then have len: "length ?b = ?n" by simp
    have d: "drop pos f = ?b @ drop (pos + ?n) f"
      using append_take_drop_id [of ?n "drop pos f"] by (simp add: slice_def add.commute)
    have eqs: "header = slice 0 12 ?b" "bh = slice 12 28 ?b" "rest = slice 28 ?n ?b"
      using h read_exact_SomeD [OF bh] read_exact_SomeD [OF r]
      by (simp_all add: slice_slice add.assoc)
    have fr: "framed ?b"
      using bl len eqs(1) by (simp add: framed_def batch_length_field_def slice_slice)
    have dig: "drop 9 bh @ rest = drop 21 ?b"
      using slice_append_slice [of 21 28 ?n ?b] len
      by (simp add: eqs(2,3) drop_slice slice_to_end [of _ ?b, unfolded len])
    have "\<not> checked crc ?b" using no [OF d] .
    with fr have "crc (drop 21 ?b) \<noteq> be_uint (slice 17 21 ?b)" by (simp add: checked_def)
    then have "crc_append (crc (drop 9 bh)) rest \<noteq> be_uint (slice 5 9 bh)"
      using crc by (simp add: crc32c_streaming_def dig) (simp add: eqs(2) slice_slice add.commute)
    moreover have "\<not> ?bl < 16" "\<not> length f < pos + 12" using bl h by simp_all
    ultimately show ?thesis
      by (simp add: scan_loop.simps [of crc crc_append f pos] Let_def Some bh r)
  qed
qed

subsection \<open>The scan as a whole\<close>

lemma scan_loop_batches:
  assumes crc: "crc32c_streaming crc crc_append"
    and "drop pos f = concat bs @ tail" "list_all (checked crc) bs"
    and no: "\<And>b g. tail = b @ g \<Longrightarrow> \<not> checked crc b"
  shows "\<exists>s. scan_loop crc crc_append f pos hwm ve =
      \<lparr>sr_high_watermark = end_offset_of hwm bs, sr_valid_end = ve + length (concat bs),
       sr_stop = s\<rparr> \<and> (s = Eof \<longleftrightarrow> length f < pos + length (concat bs) + 12)"
  using assms(2,3)
proof (induction bs arbitrary: pos hwm ve)
  case Nil
  with scan_loop_unchecked [OF crc, of pos f hwm ve] no show ?case
    by (simp add: end_offset_of_def)
next
  case (Cons b bs)
  have d: "drop pos f = b @ concat bs @ tail" using Cons(2) by simp
  then have "drop (pos + length b) f = concat bs @ tail"
    by (metis append_eq_conv_conj drop_drop add.commute)
  from Cons(1) [OF this, of "batch_last b + 1" "ve + length b"] Cons(3)
  obtain s where "scan_loop crc crc_append f (pos + length b) (batch_last b + 1) (ve + length b) =
      \<lparr>sr_high_watermark = end_offset_of (batch_last b + 1) bs,
       sr_valid_end = ve + length b + length (concat bs), sr_stop = s\<rparr>"
      "s = Eof \<longleftrightarrow> length f < pos + length b + length (concat bs) + 12"
    by auto
  moreover have "checked crc b" using Cons(3) by simp
  moreover have "end_offset_of (batch_last b + 1) bs = end_offset_of hwm (b # bs)"
    by (simp add: end_offset_of_def)
  ultimately show ?case
    using scan_loop_checked [OF crc d] by (simp add: add.assoc)
qed

text \<open>Every file splits into the longest run of checked batches and an unchecked rest.\<close>

lemma longest_checked_prefix:
  "\<exists>bs tail. f = concat bs @ tail \<and> list_all (checked crc) bs \<and>
     (\<forall>b g. tail = b @ g \<longrightarrow> \<not> checked crc b)"
proof (induction "length f" arbitrary: f rule: less_induct)
  case less
  show ?case
  proof (cases "\<exists>b g. f = b @ g \<and> checked crc b")
    case True
    then obtain b g where f: "f = b @ g" and b: "checked crc b" by blast
    then have "0 < length b" by (simp add: checked_def framed_nonempty del: length_greater_0_conv)
    with f have "length g < length f" by simp
    from less [OF this] obtain bs tail where "g = concat bs @ tail" "list_all (checked crc) bs"
      "\<forall>b g. tail = b @ g \<longrightarrow> \<not> checked crc b" by blast
    with f b show ?thesis by (intro exI [of _ "b # bs"] exI [of _ tail]) simp
  next
    case False
    then show ?thesis by (intro exI [of _ "[]"] exI [of _ f]) auto
  qed
qed

lemmas scan_defs = scan_high_watermark_from_def scan_high_watermark_def

section \<open>Index search\<close>

definition index_entries :: "bytes \<Rightarrow> (int \<times> int) list" where
  "index_entries data = map (read_index_entry data) [0..<length data div INDEX_ENTRY_SIZE]"

text \<open>The reference: the position of the last entry at or below the target, 0 if there is none.\<close>

definition index_floor :: "(int \<times> int) list \<Rightarrow> int \<Rightarrow> int" where
  "index_floor es t = (case filter (\<lambda>e. fst e \<le> t) es of [] \<Rightarrow> 0 | x # xs \<Rightarrow> snd (last (x # xs)))"

lemma index_floor_split:
  assumes "\<forall>e \<in> set xs. fst e \<le> t" "\<forall>e \<in> set ys. \<not> fst e \<le> t"
  shows "index_floor (xs @ ys) t = (if xs = [] then 0 else snd (last xs))"
  using assms by (auto simp: index_floor_def split: list.splits)

lemma index_entries_nth:
  "i < length data div INDEX_ENTRY_SIZE \<Longrightarrow> index_entries data ! i = read_index_entry data i"
  by (simp add: index_entries_def)

lemma length_index_entries [simp]:
  "length (index_entries data) = length data div INDEX_ENTRY_SIZE"
  by (simp add: index_entries_def)

text \<open>Without any order on the entries, the search still ends on an entry at or below the target.\<close>

lemma search_loop_step:
  assumes "lo \<le> hi" "mid = lo + (hi - lo) div 2" "read_index_entry data mid = (rel, pos)"
  shows "search_loop data t lo hi r =
    (if rel \<le> t then search_loop data t (mid + 1) hi pos
     else if mid = 0 then r else search_loop data t lo (mid - 1) r)"
  using assms(1,3) unfolding assms(2)
  by (subst search_loop.simps) (simp only: Let_def split if_True)

lemma search_loop_done: "hi < lo \<Longrightarrow> search_loop data t lo hi r = r"
  by (simp add: search_loop.simps [of data t lo hi r])

lemma search_loop_sound:
  "search_loop data t lo hi r = r \<or>
   (\<exists>i \<le> hi. fst (read_index_entry data i) \<le> t \<and>
      search_loop data t lo hi r = snd (read_index_entry data i))"
proof (induction data t lo hi r rule: search_loop.induct)
  case (1 data t lo hi r)
  obtain mid where mid: "mid = lo + (hi - lo) div 2" by simp
  obtain rel pos where e: "read_index_entry data mid = (rel, pos)" by fastforce
  show ?case
  proof (cases "lo \<le> hi")
    case lo: True
    note step = search_loop_step [OF lo mid e, of t r]
    from lo mid have mid_hi: "mid \<le> hi" by simp
    consider "rel \<le> t" | "\<not> rel \<le> t" "mid = 0" | "\<not> rel \<le> t" "mid \<noteq> 0" by blast
    then show ?thesis
    proof cases
      case c: 1
      with 1(1) [OF lo mid e [symmetric] refl c] e mid_hi step show ?thesis
        by (metis fst_conv snd_conv)
    next
      case c: 2
      with step show ?thesis by simp
    next
      case c: 3
      with 1(2) [OF lo mid e [symmetric] refl c] mid_hi step show ?thesis
        by (metis diff_le_self order_trans)
    qed
  qed (simp add: search_loop_done)
qed

lemma search_index_sound:
  assumes "- (2 ^ 31) \<le> target - base"
  shows "search_index_bytes data base target = 0 \<or>
    (\<exists>i < length data div INDEX_ENTRY_SIZE. fst (read_index_entry data i) \<le> target - base \<and>
       search_index_bytes data base target = snd (read_index_entry data i))"
proof (cases "length data div INDEX_ENTRY_SIZE = 0 \<or> in_i32 (target - base) \<and> target < base")
  case True
  then show ?thesis by (auto simp: search_index_bytes_def Let_def)
next
  case False
  then have n: "0 < length data div INDEX_ENTRY_SIZE" by simp
  show ?thesis
  proof (cases "in_i32 (target - base)")
    case True
    with False have "search_index_bytes data base target =
        search_loop data (target - base) 0 (length data div INDEX_ENTRY_SIZE - 1) 0"
      by (simp add: search_index_bytes_def Let_def)
    with search_loop_sound [of data "target - base" 0 "length data div INDEX_ENTRY_SIZE - 1" 0] n
    show ?thesis by (metis Suc_pred' less_Suc_eq_le)
  next
    case big: False
    have in32: "in_i32 (fst (read_index_entry data i))" for i
      by (simp add: read_index_entry_def Let_def)
    have "fst (read_index_entry data i) \<le> target - base" for i
      using in32 [of i] big assms by (simp add: in_i32_def int_bounds)
    with big n show ?thesis
      by (intro disjI2 exI [of _ "length data div INDEX_ENTRY_SIZE - 1"])
        (simp add: search_index_bytes_def Let_def)
  qed
qed

lemma search_loop_floor:
  assumes "\<And>i j. i \<le> j \<Longrightarrow> j < n \<Longrightarrow> fst (read_index_entry data i) \<le> fst (read_index_entry data j)"
    and "hi < n" "lo \<le> hi + 1"
    and "\<And>i. i < lo \<Longrightarrow> fst (read_index_entry data i) \<le> t"
    and "\<And>i. hi < i \<Longrightarrow> i < n \<Longrightarrow> \<not> fst (read_index_entry data i) \<le> t"
    and "r = (if lo = 0 then 0 else snd (read_index_entry data (lo - 1)))"
  shows "\<exists>k \<le> n. (\<forall>i < k. fst (read_index_entry data i) \<le> t) \<and>
    (\<forall>i. k \<le> i \<and> i < n \<longrightarrow> \<not> fst (read_index_entry data i) \<le> t) \<and>
    search_loop data t lo hi r = (if k = 0 then 0 else snd (read_index_entry data (k - 1)))"
  using assms
proof (induction data t lo hi r rule: search_loop.induct)
  case (1 data t lo hi r)
  note IH = 1(1,2) and srt = 1(3) and hi = 1(4) and lo_hi = 1(5) and below = 1(6) and above = 1(7)
    and res = 1(8)
  obtain mid where mid: "mid = lo + (hi - lo) div 2" by simp
  obtain rel pos where e: "read_index_entry data mid = (rel, pos)" by fastforce
  show ?case
  proof (cases "lo \<le> hi")
    case lo: True
    note step = search_loop_step [OF lo mid e, of t r]
    from lo mid hi have mid_n: "mid < n" "mid \<le> hi" "lo \<le> mid" by simp_all
    consider "rel \<le> t" | "\<not> rel \<le> t" "mid = 0" | "\<not> rel \<le> t" "mid \<noteq> 0" by blast
    then show ?thesis
    proof cases
      case c: 1
      have "fst (read_index_entry data i) \<le> t" if "i < mid + 1" for i
        using srt [of i mid] that mid_n e c by simp
      from IH(1) [OF lo mid e [symmetric] refl c srt hi _ this above] e mid_n c step
      show ?thesis by simp
    next
      case c: 2
      have "\<not> fst (read_index_entry data i) \<le> t" if "i < n" for i
        using srt [of 0 i] that e c by simp
      with c step res mid_n show ?thesis by (intro exI [of _ 0]) simp
    next
      case c: 3
      have "\<not> fst (read_index_entry data i) \<le> t" if "mid - 1 < i" "i < n" for i
      proof -
        have "mid \<le> i" using that(1) by linarith
        with srt [of mid i] that(2) e c show ?thesis by simp
      qed
      from IH(2) [OF lo mid e [symmetric] refl c srt _ _ below this res] mid_n c step
      show ?thesis by simp
    qed
  next
    case False
    with lo_hi have "lo = hi + 1" by simp
    with hi below above res show ?thesis
      by (intro exI [of _ lo]) (simp add: search_loop_done)
  qed
qed

section \<open>Reading\<close>

text \<open>The batches a read keeps: from the front while the budget lasts, the last one whole.\<close>

fun within_budget :: "nat \<Rightarrow> bytes list \<Rightarrow> bytes list" where
  "within_budget m [] = []"
| "within_budget m (b # bs) = (if m = 0 then [] else b # within_budget (m - length b) bs)"

lemma within_budget_0 [simp]: "within_budget 0 bs = []"
  by (cases bs) simp_all

lemma take_within_budget: "take m (concat (within_budget m bs)) = take m (concat bs)"
proof (induction bs arbitrary: m)
  case (Cons b bs)
  then show ?case by (cases "m = 0") simp_all
qed simp

lemma within_budget_append:
  "within_budget m (xs @ ys) =
     within_budget m xs @ within_budget (m - length (concat (within_budget m xs))) ys"
  by (induction xs arbitrary: m) simp_all

lemma read_loop_skip:
  assumes d: "drop pos f = b @ g" and b: "framed b"
  shows "read_loop f pos start m acc =
    (if length acc < m
     then read_loop f (pos + length b) start m (if batch_last b < start then acc else acc @ b)
     else acc)"
proof -
  have len: "28 \<le> length b" and l: "int (length b) = batch_length_field b + 12"
    using b by (simp_all add: framed_def)
  note within = read_exact_within [OF d _ framed_nonempty [OF b]]
  have h: "read_exact f pos 12 = Some (slice 0 12 b)"
    using within [of 0 12] len by simp
  have bh: "read_exact f (pos + 12) 15 = Some (slice 12 27 b)"
    using within [of 12 15] len by simp
  have rl: "27 + (nat (batch_length_field b) - 15) = length b" using l len by linarith
  have r: "read_exact f (pos + 27) (nat (batch_length_field b) - 15) = Some (slice 27 (length b) b)"
    using within [of 27 "nat (batch_length_field b) - 15"] rl by simp
  have adv: "pos + 27 + (nat (batch_length_field b) - 15) = pos + length b"
    using rl by linarith
  have fields: "be_i32 (slice 8 12 (slice 0 12 b)) = batch_length_field b"
      "be_i64 (slice 0 8 (slice 0 12 b)) + be_i32 (slice 11 15 (slice 12 27 b)) = batch_last b"
    by (simp_all add: slice_slice batch_length_field_def batch_last_def batch_base_def
        batch_delta_def)
  have whole: "slice 0 12 b @ slice 12 27 b @ slice 27 (length b) b = b"
  proof -
    have "slice 12 27 b @ slice 27 (length b) b = slice 12 (length b) b"
      by (rule slice_append_slice) (use len in simp_all)
    moreover have "slice 0 12 b @ slice 12 (length b) b = slice 0 (length b) b"
      by (rule slice_append_slice) (use len in simp_all)
    ultimately show ?thesis by simp
  qed
  have big: "\<not> batch_length_field b \<le> 0" "\<not> nat (batch_length_field b) < 15"
    using framed_field [OF b] by linarith+
  show ?thesis
    by (simp add: read_loop.simps [of f pos] Let_def h fields bh r adv big whole)
qed

lemma read_loop_batches:
  assumes "drop pos f = concat bs" "list_all framed bs"
  shows "read_loop f pos start m acc =
    acc @ concat (within_budget (m - length acc) (filter (\<lambda>b. start \<le> batch_last b) bs))"
  using assms
proof (induction bs arbitrary: pos acc)
  case Nil
  then have "read_exact f pos 12 = None" by (simp add: read_exact_None_iff)
  then show ?case by (simp add: read_loop.simps [of f pos])
next
  case (Cons b bs)
  have d: "drop pos f = b @ concat bs" and b: "framed b" using Cons(2,3) by simp_all
  then have d': "drop (pos + length b) f = concat bs"
    by (metis append_eq_conv_conj drop_drop add.commute)
  have "m - length (acc @ b) = m - length acc - length b" by simp
  then show ?case
    using Cons(1) [OF d', of acc] Cons(1) [OF d', of "acc @ b"] Cons(3)
    by (simp add: read_loop_skip [OF d b] not_less)
qed

section \<open>Consecutive batches\<close>

text \<open>The batches of a segment cover consecutive offsets from its base.\<close>

fun consecutive :: "int \<Rightarrow> bytes list \<Rightarrow> bool" where
  "consecutive o1 [] = True"
| "consecutive o1 (b # bs) \<longleftrightarrow>
     framed b \<and> batch_base b = o1 \<and> 0 \<le> batch_delta b \<and> consecutive (batch_last b + 1) bs"

lemma consecutive_framed: "consecutive o1 bs \<Longrightarrow> list_all framed bs"
  by (induction bs arbitrary: o1) auto

lemma end_offset_Cons: "end_offset_of o1 (b # bs) = end_offset_of (batch_last b + 1) bs"
  by (simp add: end_offset_of_def)

lemma end_offset_Nil [simp]: "end_offset_of o1 [] = o1"
  by (simp add: end_offset_of_def)

lemma end_offset_append: "end_offset_of o1 (xs @ ys) = end_offset_of (end_offset_of o1 xs) ys"
  by (simp add: end_offset_of_def)

lemma consecutive_append:
  "consecutive o1 (xs @ ys) \<longleftrightarrow> consecutive o1 xs \<and> consecutive (end_offset_of o1 xs) ys"
  by (induction xs arbitrary: o1) (auto simp: end_offset_Cons)

lemma consecutive_bounds:
  "consecutive o1 bs \<Longrightarrow> b \<in> set bs \<Longrightarrow> o1 \<le> batch_base b \<and> batch_base b \<le> batch_last b \<and>
     batch_last b < end_offset_of o1 bs"
proof (induction bs arbitrary: o1)
  case (Cons x bs)
  have le: "p \<le> end_offset_of p cs" if "consecutive p cs" for p cs
    using that by (induction cs arbitrary: p) (auto simp: end_offset_Cons batch_last_def, force)
  from Cons show ?case
    using le [of "batch_last x + 1" bs] by (auto simp: end_offset_Cons batch_last_def, force+)
qed simp

lemma end_offset_ge: "consecutive o1 bs \<Longrightarrow> o1 \<le> end_offset_of o1 bs"
  by (cases bs) (use consecutive_bounds [of o1 bs "hd bs"] in auto)

lemma end_offset_gt: "consecutive o1 bs \<Longrightarrow> bs \<noteq> [] \<Longrightarrow> o1 < end_offset_of o1 bs"
  by (cases bs) (use consecutive_bounds [of o1 bs "hd bs"] in auto)

section \<open>Sound indexes\<close>

text \<open>Every entry of the sparse index is the file position and the relative base offset of a
  batch of the segment. Nothing is asked of the order of the entries.\<close>

definition index_ok :: "int \<Rightarrow> bytes list \<Rightarrow> bytes \<Rightarrow> bool" where
  "index_ok base bs data \<longleftrightarrow>
     (\<forall>i < length data div INDEX_ENTRY_SIZE. \<exists>k < length bs.
        snd (read_index_entry data i) = int (length (concat (take k bs))) \<and>
        base + fst (read_index_entry data i) = batch_base (bs ! k))"

lemma read_from_boundary:
  assumes c: "consecutive base bs" and k: "k < length bs" "batch_base (bs ! k) \<le> start"
  shows "read_loop (concat bs) (length (concat (take k bs))) start m [] =
    concat (within_budget m (filter (\<lambda>b. start \<le> batch_last b) bs))"
proof -
  have bs: "bs = take k bs @ drop k bs" by simp
  then have c1: "consecutive base (take k bs)" "consecutive (end_offset_of base (take k bs)) (drop k bs)"
    using c consecutive_append by metis+
  have "batch_base (bs ! k) = end_offset_of base (take k bs)"
    using c1(2) Cons_nth_drop_Suc [OF k(1)] by (metis consecutive.simps(2))
  with k(2) consecutive_bounds [OF c1(1)]
  have none: "filter (\<lambda>b. start \<le> batch_last b) (take k bs) = []"
    by (fastforce simp: filter_empty_conv)
  have "concat bs = concat (take k bs) @ concat (drop k bs)"
    by (metis append_take_drop_id concat_append)
  then have d: "drop (length (concat (take k bs))) (concat bs) = concat (drop k bs)"
    by simp
  have "filter (\<lambda>b. start \<le> batch_last b) bs = filter (\<lambda>b. start \<le> batch_last b) (drop k bs)"
    by (subst bs) (simp only: filter_append none append_Nil)
  with read_loop_batches [OF d consecutive_framed [OF c1(2)], of start m "[]"] show ?thesis by simp
qed

lemma read_from_start:
  "consecutive base bs \<Longrightarrow> read_loop (concat bs) 0 start m [] =
    concat (within_budget m (filter (\<lambda>b. start \<le> batch_last b) bs))"
  using read_loop_batches [of 0 "concat bs" bs start m "[]"] consecutive_framed by simp

lemma indexed_read:
  assumes c: "consecutive base bs" and ix: "index_ok base bs data"
    and far: "- (2 ^ 31) \<le> start - base"
  shows "read_loop (concat bs) (nat (search_index_bytes data base start)) start m [] =
    concat (within_budget m (filter (\<lambda>b. start \<le> batch_last b) bs))"
  using search_index_sound [OF far, of data]
proof
  assume "search_index_bytes data base start = 0"
  with read_from_start [OF c] show ?thesis by simp
next
  assume "\<exists>i < length data div INDEX_ENTRY_SIZE. fst (read_index_entry data i) \<le> start - base \<and>
    search_index_bytes data base start = snd (read_index_entry data i)"
  then obtain i where i: "i < length data div INDEX_ENTRY_SIZE"
    and le: "fst (read_index_entry data i) \<le> start - base"
    and pos: "search_index_bytes data base start = snd (read_index_entry data i)" by blast
  from ix i obtain k where k: "k < length bs"
    and p: "snd (read_index_entry data i) = int (length (concat (take k bs)))"
    and b: "base + fst (read_index_entry data i) = batch_base (bs ! k)"
    unfolding index_ok_def by blast
  from le b have "batch_base (bs ! k) \<le> start" by simp
  from read_from_boundary [OF c k this] pos p show ?thesis by simp
qed

section \<open>Properties\<close>

text \<open>the recovery scan is exact on every file, whatever a crash left in it. It ends just
  past the longest run of framed, checksum-correct batches; the high watermark is one past the
  last record of that run (the segment base when it is empty); no valid batch starts where it
  stops; and it reports a clean end exactly when fewer than 12 bytes are left.\<close>

theorem scan_exact:
  assumes "crc32c_streaming crc32c crc32c_append"
  shows "\<exists>bs tail. f = concat bs @ tail \<and> list_all (checked crc32c) bs \<and>
      (\<forall>b g. tail = b @ g \<longrightarrow> \<not> checked crc32c b) \<and>
      sr_valid_end (scan_high_watermark_from crc32c crc32c_append f 0 base) = length (concat bs) \<and>
      sr_high_watermark (scan_high_watermark_from crc32c crc32c_append f 0 base) =
        end_offset_of base bs \<and>
      (sr_stop (scan_high_watermark_from crc32c crc32c_append f 0 base) = Eof \<longleftrightarrow> length tail < 12)"
proof -
  obtain bs tail where f: "f = concat bs @ tail" and bs: "list_all (checked crc32c) bs"
    and tail: "\<forall>b g. tail = b @ g \<longrightarrow> \<not> checked crc32c b"
    using longest_checked_prefix [of f crc32c] by blast
  have "drop 0 f = concat bs @ tail" using f by simp
  from scan_loop_batches [OF assms this bs, of base 0] tail f
  have "\<exists>s. scan_high_watermark_from crc32c crc32c_append f 0 base =
      \<lparr>sr_high_watermark = end_offset_of base bs, sr_valid_end = length (concat bs), sr_stop = s\<rparr> \<and>
      (s = Eof \<longleftrightarrow> length tail < 12)"
    by (simp add: scan_high_watermark_from_def)
  then show ?thesis using f bs tail by (intro exI [of _ bs] exI [of _ tail]) auto
qed

text \<open>recovery is stable. Truncating a log to the end the scan found and scanning it again
  gives the same high watermark and the same end, now with a clean stop.\<close>

theorem scan_after_truncate:
  assumes "crc32c_streaming crc32c crc32c_append"
  shows "let r = scan_high_watermark_from crc32c crc32c_append f 0 base in
    scan_high_watermark_from crc32c crc32c_append (take (sr_valid_end r) f) 0 base =
      r\<lparr>sr_stop := Eof\<rparr>"
proof -
  obtain bs tail where f: "f = concat bs @ tail" and bs: "list_all (checked crc32c) bs"
    and tail: "\<forall>b g. tail = b @ g \<longrightarrow> \<not> checked crc32c b"
    using longest_checked_prefix [of f crc32c] by blast
  have "drop 0 f = concat bs @ tail" using f by simp
  from scan_loop_batches [OF assms this bs, of base 0] tail
  obtain s where r: "scan_high_watermark_from crc32c crc32c_append f 0 base =
      \<lparr>sr_high_watermark = end_offset_of base bs, sr_valid_end = length (concat bs), sr_stop = s\<rparr>"
    by (auto simp: scan_high_watermark_from_def)
  have "\<not> checked crc32c b" if "[] = b @ g" for b g
    using that framed_nonempty [of b] by (auto simp: checked_def)
  from scan_loop_batches [OF assms, of 0 "concat bs" bs "[]" base 0, OF _ bs this]
  have "scan_high_watermark_from crc32c crc32c_append (concat bs) 0 base =
      \<lparr>sr_high_watermark = end_offset_of base bs, sr_valid_end = length (concat bs), sr_stop = Eof\<rparr>"
    by (auto simp: scan_high_watermark_from_def)
  with r f show ?thesis by simp
qed

text \<open>the binary search of the sparse index equals the linear reference: on entries sorted
  by relative offset it returns the position of the last entry at or below the target, and 0 when
  there is none, for every target no more than 2 \<open>^\<close> 31 below the segment base.\<close>

theorem search_index_is_floor:
  assumes "sorted (map fst (index_entries data))" "\<forall>e \<in> set (index_entries data). 0 \<le> fst e"
    and "- (2 ^ 31) \<le> target - base"
  shows "search_index_bytes data base target = index_floor (index_entries data) (target - base)"
proof -
  let ?n = "length data div INDEX_ENTRY_SIZE" and ?es = "index_entries data"
  have le: "fst (read_index_entry data i) \<le> fst (read_index_entry data j)"
    if "i \<le> j" "j < ?n" for i j
    using sorted_nth_mono [OF assms(1), of i j] that by (simp add: index_entries_nth)
  have floor: "index_floor ?es t = (if k = 0 then 0 else snd (read_index_entry data (k - 1)))"
    if k: "k \<le> ?n" "\<forall>i < k. fst (read_index_entry data i) \<le> t"
      "\<forall>i. k \<le> i \<and> i < ?n \<longrightarrow> \<not> fst (read_index_entry data i) \<le> t" for k t
  proof -
    have es: "?es = map (read_index_entry data) [0..<k] @ map (read_index_entry data) [k..<?n]"
      using k(1) upt_add_eq_append [of 0 k "?n - k"] by (simp add: index_entries_def)
    have "index_floor ?es t = (if map (read_index_entry data) [0..<k] = [] then 0
        else snd (last (map (read_index_entry data) [0..<k])))"
      unfolding es using k(2,3) by (intro index_floor_split) auto
    then show ?thesis by (cases k) (simp_all add: last_map)
  qed
  have in32: "in_i32 (fst (read_index_entry data i))" for i
    by (simp add: read_index_entry_def Let_def)
  consider "?n = 0" | "0 < ?n" "\<not> in_i32 (target - base)" | "0 < ?n" "in_i32 (target - base)" "target < base"
    | "0 < ?n" "in_i32 (target - base)" "\<not> target < base" by blast
  then show ?thesis
  proof cases
    case 1
    with floor [of 0] show ?thesis by (simp add: search_index_bytes_def)
  next
    case 2
    then have "fst (read_index_entry data i) \<le> target - base" for i
      using in32 [of i] assms(3) by (simp add: in_i32_def int_bounds)
    with 2 floor [of ?n "target - base"] show ?thesis by (simp add: search_index_bytes_def Let_def)
  next
    case 3
    have "\<not> fst (read_index_entry data i) \<le> target - base" if "i < ?n" for i
      using assms(2) nth_mem [of i ?es] that 3 by (fastforce simp: index_entries_nth)
    with 3 floor [of 0 "target - base"] show ?thesis by (simp add: search_index_bytes_def Let_def)
  next
    case 4
    have last: "False" if "?n - 1 < i" "i < ?n" for i using that by linarith
    from 4 obtain k where "k \<le> ?n" "\<forall>i < k. fst (read_index_entry data i) \<le> target - base"
      "\<forall>i. k \<le> i \<and> i < ?n \<longrightarrow> \<not> fst (read_index_entry data i) \<le> target - base"
      "search_loop data (target - base) 0 (?n - 1) 0 =
        (if k = 0 then 0 else snd (read_index_entry data (k - 1)))"
      using search_loop_floor [of ?n data "?n - 1" 0 "target - base" 0, OF le] last by fastforce
    with 4 floor [of k "target - base"] show ?thesis by (simp add: search_index_bytes_def Let_def)
  qed
qed

section \<open>Witnesses\<close>

text \<open>A checksum with the streaming law (the sum of the bytes) and 61-byte batches under it.\<close>

definition sum_crc :: "bytes \<Rightarrow> int" where
  "sum_crc bs = sum_list (map uint bs) mod 2 ^ 32"

definition sum_crc_append :: "int \<Rightarrow> bytes \<Rightarrow> int" where
  "sum_crc_append c bs = (c + sum_list (map uint bs)) mod 2 ^ 32"

definition demo_batch :: "int \<Rightarrow> int \<Rightarrow> bytes" where
  "demo_batch base delta =
     (let body = be_bytes 2 0 @ be_bytes 4 delta @ replicate 34 0
      in be_bytes 8 base @ be_bytes 4 49 @ be_bytes 4 0 @ [2] @ be_bytes 4 (sum_crc body) @ body)"

lemma sum_crc_streaming: "crc32c_streaming sum_crc sum_crc_append"
  by (simp add: crc32c_streaming_def sum_crc_def sum_crc_append_def mod_simps)

theorem scan_exact_witness:
  "sr_valid_end (scan_high_watermark_from sum_crc sum_crc_append
     (demo_batch 0 2 @ demo_batch 3 0 @ take 40 (demo_batch 4 0)) 0 0) = 122 \<and>
   (\<exists>bs tail. demo_batch 0 2 @ demo_batch 3 0 @ take 40 (demo_batch 4 0) = concat bs @ tail \<and>
      length (concat bs) = 122 \<and> list_all (checked sum_crc) bs)"
proof -
  let ?f = "demo_batch 0 2 @ demo_batch 3 0 @ take 40 (demo_batch 4 0)"
  have "sr_valid_end (scan_high_watermark_from sum_crc sum_crc_append ?f 0 0) = 122"
    by code_simp
  with scan_exact [OF sum_crc_streaming, of ?f 0] show ?thesis by metis
qed

theorem scan_after_truncate_witness:
  "scan_high_watermark_from sum_crc sum_crc_append
     (take 61 (demo_batch 7 1 @ replicate 20 0)) 0 7 =
   \<lparr>sr_high_watermark = 9, sr_valid_end = 61, sr_stop = Eof\<rparr>"
proof -
  have "scan_high_watermark_from sum_crc sum_crc_append (demo_batch 7 1 @ replicate 20 0) 0 7 =
      \<lparr>sr_high_watermark = 9, sr_valid_end = 61, sr_stop = Torn\<rparr>"
    by code_simp
  with scan_after_truncate [OF sum_crc_streaming, of "demo_batch 7 1 @ replicate 20 0" 7]
  show ?thesis by (simp add: Let_def)
qed

definition demo_index :: bytes where
  "demo_index = concat (map (\<lambda>(r, p). be_bytes 4 r @ be_bytes 4 p) [(0, 0), (40, 4100), (90, 8300)])"

lemma demo_index_entries: "index_entries demo_index = [(0, 0), (40, 4100), (90, 8300)]"
  by code_simp

theorem search_index_is_floor_witness:
  "index_floor (index_entries demo_index) (1060 - 1000) = 4100 \<and>
   search_index_bytes demo_index 1000 1060 = 4100"
proof -
  have "index_floor (index_entries demo_index) (1060 - 1000) = 4100" by code_simp
  with search_index_is_floor [of demo_index 1060 1000] show ?thesis
    by (simp add: demo_index_entries)
qed

end
