(* ===== verification/SegmentNames.thy ===== *)
theory SegmentNames
  imports Prelude "HOL-Library.Product_Lexorder"
begin

text \<open>
  Segment file names and the directory listing (\<open>crates/kaas-storage/src/segment.rs\<close>, lines 32 to
  193): the epoch-prefixed stem \<open>00000005-00000000000000000123\<close>, its parser, which also accepts
  the legacy stem without an epoch, and \<open>list_segments\<close>, which turns a directory listing into the
  partition's segments. The integer formatting and parsing of the Rust standard library
  (\<open>{:08x}\<close>, \<open>{:020}\<close>, \<open>from_str_radix\<close>, \<open>parse::<i64>\<close>) is written out.
\<close>

section \<open>Formatting and parsing of integers\<close>

fun nat_digits :: "nat \<Rightarrow> nat \<Rightarrow> nat list" where
  "nat_digits radix n =
     (if radix < 2 \<or> n < radix then [n] else nat_digits radix (n div radix) @ [n mod radix])"

declare nat_digits.simps [simp del]

definition digit_char :: "nat \<Rightarrow> char" where
  "digit_char d = (if d < 10 then char_of (48 + d) else char_of (87 + d))"

definition zero_pad :: "nat \<Rightarrow> string \<Rightarrow> string" where
  "zero_pad w s = replicate (w - length s) CHR ''0'' @ s"

definition fmt_hex8 :: "nat \<Rightarrow> string" where
  "fmt_hex8 n = zero_pad 8 (map digit_char (nat_digits 16 n))"

definition fmt_dec20 :: "int \<Rightarrow> string" where
  "fmt_dec20 v =
     (if v < 0 then CHR ''-'' # zero_pad 19 (map digit_char (nat_digits 10 (nat (- v))))
      else zero_pad 20 (map digit_char (nat_digits 10 (nat v))))"

definition to_digit :: "nat \<Rightarrow> char \<Rightarrow> nat option" where
  "to_digit radix c =
     (let n = (of_char c :: nat);
          d = if 48 \<le> n \<and> n \<le> 57 then Some (n - 48)
              else if 97 \<le> n \<and> n \<le> 122 then Some (n - 87)
              else if 65 \<le> n \<and> n \<le> 90 then Some (n - 55) else None
      in case d of Some v \<Rightarrow> if v < radix then Some v else None | None \<Rightarrow> None)"

fun parse_digits :: "nat \<Rightarrow> nat \<Rightarrow> string \<Rightarrow> nat option" where
  "parse_digits radix acc [] = Some acc"
| "parse_digits radix acc (c # cs) =
     (case to_digit radix c of None \<Rightarrow> None | Some d \<Rightarrow> parse_digits radix (acc * radix + d) cs)"

definition nonempty_digits :: "nat \<Rightarrow> string \<Rightarrow> nat option" where
  "nonempty_digits radix s = (if s = [] then None else parse_digits radix 0 s)"

definition u32_from_hex :: "string \<Rightarrow> int option" where
  "u32_from_hex s =
     (case nonempty_digits 16 (if s \<noteq> [] \<and> hd s = CHR ''+'' then tl s else s) of
        None \<Rightarrow> None | Some v \<Rightarrow> if int v \<le> u32_MAX then Some (int v) else None)"

definition i64_from_dec :: "string \<Rightarrow> int option" where
  "i64_from_dec s =
     (if s \<noteq> [] \<and> hd s = CHR ''-'' then
        (case nonempty_digits 10 (tl s) of
           None \<Rightarrow> None | Some v \<Rightarrow> if - int v \<ge> - (2 ^ 63) then Some (- int v) else None)
      else
        (case nonempty_digits 10 (if s \<noteq> [] \<and> hd s = CHR ''+'' then tl s else s) of
           None \<Rightarrow> None | Some v \<Rightarrow> if int v \<le> i64_MAX then Some (int v) else None))"

section \<open>Segment stems\<close>

definition LOG_EXT :: string where "LOG_EXT = ''.log''"
definition INDEX_EXT :: string where "INDEX_EXT = ''.index''"
definition SEALED_EXT :: string where "SEALED_EXT = ''.log.sealed''"

definition split_once :: "char \<Rightarrow> string \<Rightarrow> (string \<times> string) option" where
  "split_once c s =
     (if c \<in> set s then Some (takeWhile (\<lambda>x. x \<noteq> c) s, tl (dropWhile (\<lambda>x. x \<noteq> c) s)) else None)"

definition i64_low_u32 :: "int \<Rightarrow> int" where
  "i64_low_u32 v = v mod 2 ^ 32"

definition epoch_prefixed_stem :: "int \<Rightarrow> int \<Rightarrow> string" where
  "epoch_prefixed_stem base_offset epoch =
     fmt_hex8 (nat (i64_low_u32 epoch)) @ ''-'' @ fmt_dec20 base_offset"

definition parse_segment_stem :: "string \<Rightarrow> (int \<times> int) option" where
  "parse_segment_stem stem =
     (case split_once CHR ''-'' stem of
        Some (epoch_part, base_part) \<Rightarrow>
          (case u32_from_hex epoch_part of
             None \<Rightarrow> None
           | Some epoch \<Rightarrow>
               (case i64_from_dec base_part of None \<Rightarrow> None | Some base \<Rightarrow> Some (base, epoch)))
      | None \<Rightarrow> (case i64_from_dec stem of None \<Rightarrow> None | Some base \<Rightarrow> Some (base, 0)))"

definition segment_log_path :: "int \<Rightarrow> int \<Rightarrow> string" where
  "segment_log_path base_offset epoch = epoch_prefixed_stem base_offset epoch @ LOG_EXT"

definition segment_index_path :: "int \<Rightarrow> int \<Rightarrow> string" where
  "segment_index_path base_offset epoch = epoch_prefixed_stem base_offset epoch @ INDEX_EXT"

section \<open>Listing a directory\<close>

record segment_meta =
  sm_base_offset :: int
  sm_epoch :: int
  sm_size :: nat
  sm_log_path :: string
  sm_index_path :: string
  sm_max_timestamp :: int

definition UNKNOWN_MAX_TIMESTAMP :: int where "UNKNOWN_MAX_TIMESTAMP = -1"

definition ends_with :: "string \<Rightarrow> string \<Rightarrow> bool" where
  "ends_with s suf \<longleftrightarrow> length suf \<le> length s \<and> drop (length s - length suf) s = suf"

text \<open>One directory entry: its file name and the length \<open>stat\<close> reports (0 when it fails).\<close>

definition segment_of_entry :: "string \<times> nat \<Rightarrow> segment_meta option" where
  "segment_of_entry entry =
     (let name = fst entry in
      if \<not> ends_with name LOG_EXT \<or> ends_with name SEALED_EXT then None
      else let stem = take (length name - length LOG_EXT) name in
        case parse_segment_stem stem of
          None \<Rightarrow> None
        | Some (base_offset, epoch) \<Rightarrow>
            Some \<lparr>sm_base_offset = base_offset, sm_epoch = epoch, sm_size = snd entry,
              sm_log_path = name, sm_index_path = stem @ INDEX_EXT,
              sm_max_timestamp = UNKNOWN_MAX_TIMESTAMP\<rparr>)"

fun dedup_by_key :: "('a \<Rightarrow> 'k) \<Rightarrow> 'a list \<Rightarrow> 'a list" where
  "dedup_by_key key (x # y # xs) =
     (if key x = key y then dedup_by_key key (x # xs) else x # dedup_by_key key (y # xs))"
| "dedup_by_key key xs = xs"

definition list_segments :: "(string \<times> nat) list \<Rightarrow> segment_meta list" where
  "list_segments entries =
     dedup_by_key sm_base_offset
       (sort_key (\<lambda>m. (sm_base_offset m, - sm_epoch m)) (List.map_filter segment_of_entry entries))"

section \<open>Digits\<close>

lemma nat_digits_bound: "2 \<le> radix \<Longrightarrow> d \<in> set (nat_digits radix n) \<Longrightarrow> d < radix"
proof (induction radix n rule: nat_digits.induct)
  case (1 radix n)
  then show ?case
    by (cases "n < radix") (auto simp: nat_digits.simps [of radix n] not_less)
qed

lemma nat_digits_nonempty [simp]: "nat_digits radix n \<noteq> []"
  by (subst nat_digits.simps) simp

lemma to_digit_char: "d < radix \<Longrightarrow> radix \<le> 16 \<Longrightarrow> to_digit radix (digit_char d) = Some d"
  by (auto simp: to_digit_def digit_char_def Let_def)

lemma digit_char_not_sign: "d < 16 \<Longrightarrow> digit_char d \<noteq> CHR ''-'' \<and> digit_char d \<noteq> CHR ''+''"
proof -
  assume "d < 16"
  then have "to_digit 16 (digit_char d) = Some d" by (simp add: to_digit_char)
  moreover have "to_digit 16 CHR ''-'' = None" "to_digit 16 CHR ''+'' = None"
    by code_simp+
  ultimately show ?thesis by auto
qed

lemma parse_digits_append:
  "parse_digits radix acc (xs @ ys) =
     (case parse_digits radix acc xs of None \<Rightarrow> None | Some a \<Rightarrow> parse_digits radix a ys)"
  by (induction xs arbitrary: acc) (auto split: option.splits)

lemma parse_nat_digits:
  assumes "2 \<le> radix" "radix \<le> 16"
  shows "parse_digits radix 0 (map digit_char (nat_digits radix n)) = Some n"
  using assms
proof (induction radix n rule: nat_digits.induct)
  case (1 radix n)
  then show ?case
    by (cases "n < radix")
      (simp_all add: nat_digits.simps [of radix n] parse_digits_append to_digit_char)
qed

lemma parse_zero_pad: "2 \<le> radix \<Longrightarrow> parse_digits radix 0 (zero_pad w s) = parse_digits radix 0 s"
proof -
  assume "2 \<le> radix"
  then have "to_digit radix CHR ''0'' = Some 0"
    by (simp add: to_digit_def)
  then have "parse_digits radix 0 (replicate k CHR ''0'') = Some 0" for k
    by (induction k) simp_all
  then show ?thesis by (simp add: zero_pad_def parse_digits_append)
qed

lemma nonempty_padded:
  assumes "2 \<le> radix" "radix \<le> 16"
  shows "nonempty_digits radix (zero_pad w (map digit_char (nat_digits radix n))) = Some n"
  using assms by (simp add: nonempty_digits_def parse_zero_pad parse_nat_digits)
    (simp add: zero_pad_def)

lemma padded_no_sign:
  assumes "2 \<le> radix" "radix \<le> 16" "c \<in> set (zero_pad w (map digit_char (nat_digits radix n)))"
  shows "c \<noteq> CHR ''-'' \<and> c \<noteq> CHR ''+''"
proof -
  from assms(3) consider "c = CHR ''0''" | d where "c = digit_char d" "d \<in> set (nat_digits radix n)"
    by (auto simp: zero_pad_def)
  then show ?thesis
  proof cases
    case 2
    with nat_digits_bound [OF assms(1), of d n] assms(2) show ?thesis
      using digit_char_not_sign [of d] by simp
  qed simp
qed

lemma padded_hd:
  assumes "2 \<le> radix" "radix \<le> 16"
  shows "zero_pad w (map digit_char (nat_digits radix n)) \<noteq> []" (is "?s \<noteq> []")
    "hd (zero_pad w (map digit_char (nat_digits radix n))) \<noteq> CHR ''-''"
    "hd (zero_pad w (map digit_char (nat_digits radix n))) \<noteq> CHR ''+''"
proof -
  show "?s \<noteq> []" by (simp add: zero_pad_def)
  then have "hd ?s \<in> set ?s" by simp
  with padded_no_sign [OF assms] show "hd ?s \<noteq> CHR ''-''" "hd ?s \<noteq> CHR ''+''"
    by blast+
qed

lemma u32_from_hex_fmt: "int n \<le> u32_MAX \<Longrightarrow> u32_from_hex (fmt_hex8 n) = Some (int n)"
  using padded_hd [of 16 8 n] by (simp add: u32_from_hex_def fmt_hex8_def nonempty_padded)

lemma i64_from_dec_fmt:
  assumes "- (2 ^ 63) \<le> v" "v \<le> i64_MAX"
  shows "i64_from_dec (fmt_dec20 v) = Some v"
proof (cases "v < 0")
  case True
  with assms show ?thesis by (simp add: i64_from_dec_def fmt_dec20_def nonempty_padded)
next
  case False
  with assms padded_hd [of 10 20 "nat v"] show ?thesis
    by (simp add: i64_from_dec_def fmt_dec20_def nonempty_padded)
qed

lemma split_once_at: "c \<notin> set a \<Longrightarrow> split_once c (a @ c # b) = Some (a, b)"
  by (induction a) (auto simp: split_once_def)

lemma parse_stem_roundtrip:
  assumes "- (2 ^ 63) \<le> base" "base \<le> i64_MAX" "0 \<le> epoch" "epoch \<le> u32_MAX"
  shows "parse_segment_stem (epoch_prefixed_stem base epoch) = Some (base, epoch)"
proof -
  have "CHR ''-'' \<notin> set (fmt_hex8 n)" for n
    using padded_no_sign [of 16 "CHR ''-''" 8 n] by (auto simp: fmt_hex8_def)
  moreover have "i64_low_u32 epoch = epoch"
    using assms(3,4) by (simp add: i64_low_u32_def int_bounds)
  ultimately show ?thesis
    using assms by (simp add: parse_segment_stem_def epoch_prefixed_stem_def split_once_at
        u32_from_hex_fmt i64_from_dec_fmt)
qed

section \<open>The listing\<close>

lemma dedup_Cons_ex: "\<exists>ys. dedup_by_key key (x # xs) = x # ys"
  by (induction xs arbitrary: x) auto

lemma set_dedup: "set (dedup_by_key key xs) \<subseteq> set xs"
  by (induction key xs rule: dedup_by_key.induct) auto

text \<open>On a list sorted by the key, every element's key is kept, by the first element with it.\<close>

lemma dedup_strict:
  fixes key :: "'a \<Rightarrow> 'k::linorder"
  shows "sorted (map key xs) \<Longrightarrow> sorted_wrt (<) (map key (dedup_by_key key xs))"
proof (induction key xs rule: dedup_by_key.induct)
  case (1 key x y xs)
  show ?case
  proof (cases "key x = key y")
    case False
    have "key x < key z" if "z \<in> set (dedup_by_key key (y # xs))" for z
    proof -
      from that set_dedup [of key "y # xs"] have "z = y \<or> z \<in> set xs" by auto
      with 1(3) have "key x \<le> key y" "key y \<le> key z" by auto
      with False show ?thesis by order
    qed
    with 1 False show ?thesis by simp
  qed (use 1 in auto)
qed auto

lemma dedup_keeps_first:
  fixes key :: "'a \<Rightarrow> 'k::linorder" and tie :: "'a \<Rightarrow> 'b::linorder"
  assumes "sorted (map (\<lambda>x. (key x, tie x)) xs)" "m \<in> set xs"
  shows "\<exists>m' \<in> set (dedup_by_key key xs). key m' = key m \<and> tie m' \<le> tie m"
  using assms
proof (induction key xs arbitrary: m rule: dedup_by_key.induct)
  case (1 key x y xs)
  show ?case
  proof (cases "key x = key y")
    case True
    have s: "sorted (map (\<lambda>x. (key x, tie x)) (x # xs))" using 1(3) by auto
    consider "m \<in> set (x # xs)" | "m = y" using 1(4) by auto
    then show ?thesis
    proof cases
      case 1
      with "1.IH"(1) [OF True s] True show ?thesis by simp
    next
      case 2
      have "tie x \<le> tie y" using \<open>sorted (map (\<lambda>x. (key x, tie x)) (x # y # xs))\<close> True
        by simp
      with "1.IH"(1) [OF True s, of x] 2 True show ?thesis
        by (metis dedup_by_key.simps(1) list.set_intros(1) order_trans)
    qed
  next
    case False
    have s: "sorted (map (\<lambda>x. (key x, tie x)) (y # xs))" using 1(3) by simp
    show ?thesis
    proof (cases "m = x")
      case True
      with False show ?thesis by simp
    next
      case m: False
      with 1(4) have "m \<in> set (y # xs)" by simp
      with "1.IH"(2) [OF False s] False show ?thesis by simp
    qed
  qed
qed simp_all

lemma dedup_in: "m \<in> set (dedup_by_key key xs) \<Longrightarrow> m \<in> set xs"
  using set_dedup [of key xs] by blast

lemma set_map_filter_iff: "m \<in> set (List.map_filter f xs) \<longleftrightarrow> (\<exists>x \<in> set xs. f x = Some m)"
proof (induction xs)
  case (Cons x xs)
  then show ?case by (cases "f x") (auto simp: List.map_filter_def)
qed (simp add: List.map_filter_def)

lemma sorted_by_base: "sorted (map sm_base_offset
    (sort_key (\<lambda>m. (sm_base_offset m, - sm_epoch m)) ms))"
proof -
  have *: "sorted (map sm_base_offset xs)"
    if "sorted (map (\<lambda>m. (sm_base_offset m, - sm_epoch m)) xs)" for xs
    using that by (induction xs) (simp_all, metis order.refl order_less_imp_le)
  show ?thesis by (rule *) (rule sorted_sort_key)
qed

section \<open>Properties\<close>

text \<open>segment names round-trip. For every i64 base offset and every u32 leader epoch, parsing
  the stem that names the segment gives the base offset and the epoch back.\<close>

theorem segment_stem_roundtrip:
  assumes "- (2 ^ 63) \<le> base" "base \<le> i64_MAX" "0 \<le> epoch" "epoch \<le> u32_MAX"
  shows "parse_segment_stem (epoch_prefixed_stem base epoch) = Some (base, epoch)"
  using assms by (rule parse_stem_roundtrip)

text \<open>listing a directory yields segments with strictly increasing base offsets, each read
  off an entry of the directory; every entry that names a segment is represented by a segment
  with its base offset and an epoch at least its own, so the newest leader's file wins.\<close>

theorem list_segments_newest_leader:
  "sorted_wrt (<) (map sm_base_offset (list_segments entries)) \<and>
   (\<forall>m \<in> set (list_segments entries). \<exists>e \<in> set entries. segment_of_entry e = Some m) \<and>
   (\<forall>e \<in> set entries. \<forall>m. segment_of_entry e = Some m \<longrightarrow>
      (\<exists>m' \<in> set (list_segments entries).
         sm_base_offset m' = sm_base_offset m \<and> sm_epoch m \<le> sm_epoch m'))"
proof (intro conjI ballI allI impI)
  let ?ms = "sort_key (\<lambda>m. (sm_base_offset m, - sm_epoch m)) (List.map_filter segment_of_entry entries)"
  show "sorted_wrt (<) (map sm_base_offset (list_segments entries))"
    unfolding list_segments_def by (intro dedup_strict sorted_by_base)
  show "\<exists>e \<in> set entries. segment_of_entry e = Some m" if "m \<in> set (list_segments entries)" for m
    using dedup_in [OF that [unfolded list_segments_def]] by (simp add: set_map_filter_iff)
  fix e m assume "e \<in> set entries" "segment_of_entry e = Some m"
  then have "m \<in> set ?ms" by (auto simp: set_map_filter_iff)
  from dedup_keeps_first [OF _ this, of sm_base_offset "\<lambda>m. - sm_epoch m"]
  show "\<exists>m' \<in> set (list_segments entries).
      sm_base_offset m' = sm_base_offset m \<and> sm_epoch m \<le> sm_epoch m'"
    by (auto simp: list_segments_def)
qed

section \<open>Witnesses\<close>

theorem segment_stem_roundtrip_witness:
  "epoch_prefixed_stem 123 5 = ''00000005-00000000000000000123'' \<and>
   parse_segment_stem (epoch_prefixed_stem 123 5) = Some (123, 5)"
proof -
  have "epoch_prefixed_stem 123 5 = ''00000005-00000000000000000123''" by code_simp
  with segment_stem_roundtrip [of 123 5] show ?thesis by (simp add: int_bounds)
qed

theorem list_segments_newest_leader_witness:
  "\<exists>m' \<in> set (list_segments [(''00000000000000000040.log'', 9),
      (''00000002-00000000000000000040.log'', 0)]). sm_base_offset m' = 40 \<and> 2 \<le> sm_epoch m'"
  (is "\<exists>m' \<in> set (list_segments [?old, ?new]). _")
proof -
  have "segment_of_entry ?new =
      Some \<lparr>sm_base_offset = 40, sm_epoch = 2, sm_size = 0,
        sm_log_path = ''00000002-00000000000000000040.log'',
        sm_index_path = ''00000002-00000000000000000040.index'', sm_max_timestamp = -1\<rparr>"
    (is "_ = Some ?m")
    by code_simp
  from list_segments_newest_leader [THEN conjunct2, THEN conjunct2, rule_format, OF _ this,
      of "[?old, ?new]"]
  show ?thesis by (simp only: segment_meta.simps list.set_intros simp_thms)
qed

end
