(* ===== verification/Segment.thy ===== *)
theory Segment
  imports LogFormat SegmentNames
begin

text \<open>
  The active segment of a partition (\<open>crates/kaas-storage/src/segment.rs\<close>, \<open>ActiveSegment\<close>): its
  accounting state, the file handles it holds, and the operations that create, adopt, append to,
  truncate, roll and close it. A log handle is written by position, so only its presence is
  state; the index handle is written at its own cursor, which starts at 0 both for a created and
  for an adopted file.
\<close>

section \<open>State and operations\<close>

record active_segment =
  as_meta :: segment_meta
  as_log :: bool
  as_index :: "nat option"
  as_log_size :: nat
  as_last_offset :: int
  as_last_indexed_log_pos :: nat
  as_max_timestamp :: int
  as_created_at_ms :: "int option"

definition u64_MAX :: int where "u64_MAX = 18446744073709551615"

definition sat_u64 :: "nat \<Rightarrow> nat" where
  "sat_u64 n = nat (min (int n) u64_MAX)"

lemma sat_u64_id [simp]: "int n \<le> u64_MAX \<Longrightarrow> sat_u64 n = n"
  by (simp add: sat_u64_def)

definition create_segment ::
  "io_env \<Rightarrow> file_store \<Rightarrow> int \<Rightarrow> int \<Rightarrow> (io_error + active_segment) \<times> file_store" where
  "create_segment io fs base_offset epoch =
     (let log_path = segment_log_path base_offset epoch;
          index_path = segment_index_path base_offset epoch in
      if io_fails io Mkdir \<or> io_fails io Create_log then (Inl Io_failed, fs)
      else let fs1 = fs_create fs log_path in
        if io_fails io Create_index then (Inl Io_failed, hm_remove log_path fs1)
        else
          (Inr \<lparr>as_meta = \<lparr>sm_base_offset = base_offset, sm_epoch = epoch, sm_size = 0,
                  sm_log_path = log_path, sm_index_path = index_path,
                  sm_max_timestamp = UNKNOWN_MAX_TIMESTAMP\<rparr>,
                as_log = True, as_index = Some 0, as_log_size = 0,
                as_last_offset = base_offset - 1, as_last_indexed_log_pos = 0,
                as_max_timestamp = UNKNOWN_MAX_TIMESTAMP,
                as_created_at_ms = Some (io_now io)\<rparr>,
           fs_create fs1 index_path))"

definition open_meta_only :: "segment_meta \<Rightarrow> active_segment" where
  "open_meta_only meta =
     \<lparr>as_meta = meta, as_log = False, as_index = None, as_log_size = sm_size meta,
      as_last_offset = 0, as_last_indexed_log_pos = 0, as_max_timestamp = UNKNOWN_MAX_TIMESTAMP,
      as_created_at_ms = None\<rparr>"

definition age_ms :: "io_env \<Rightarrow> active_segment \<Rightarrow> active_segment \<times> nat" where
  "age_ms io seg =
     (case as_created_at_ms seg of
        Some started \<Rightarrow> (seg, nat (io_now io - started))
      | None \<Rightarrow>
          (case io_mtime io (sm_log_path (as_meta seg)) of
             Some ms \<Rightarrow> (seg\<lparr>as_created_at_ms := Some ms\<rparr>, nat (io_now io - ms))
           | None \<Rightarrow> (seg\<lparr>as_created_at_ms := Some (io_now io)\<rparr>, 0)))"

definition open_handles ::
  "io_env \<Rightarrow> file_store \<Rightarrow> active_segment \<Rightarrow> (io_error + unit) \<times> active_segment \<times> file_store" where
  "open_handles io fs seg =
     (let log_path = sm_log_path (as_meta seg); index_path = sm_index_path (as_meta seg) in
      if as_log seg \<and> as_index seg \<noteq> None then (Inr (), seg, fs)
      else if \<not> as_log seg \<and> io_fails io Open_log then (Inl Io_failed, seg, fs)
      else
        let fs1 = (if as_log seg then fs else fs_open_write fs log_path);
            seg1 = seg\<lparr>as_log := True\<rparr> in
        if as_index seg = None \<and> io_fails io Open_index
        then (Inl Io_failed, seg1\<lparr>as_log := False\<rparr>, fs1)
        else
          let fs2 = (if as_index seg = None then fs_open_write fs1 index_path else fs1);
              seg2 = (if as_index seg = None then seg1\<lparr>as_index := Some 0\<rparr> else seg1);
              seg3 = (case fs_stat fs2 log_path of
                        Some len \<Rightarrow> seg2\<lparr>as_log_size := len, as_meta := (as_meta seg2)\<lparr>sm_size := len\<rparr>\<rparr>
                      | None \<Rightarrow> seg2);
              seg4 = (case fs_stat fs2 index_path of
                        Some len \<Rightarrow> seg3\<lparr>as_last_indexed_log_pos := len div 8 * 4096\<rparr>
                      | None \<Rightarrow> seg3)
          in (Inr (), seg4, fs2))"

definition truncate_to ::
  "io_env \<Rightarrow> file_store \<Rightarrow> active_segment \<Rightarrow> nat \<Rightarrow> (io_error + active_segment) \<times> file_store" where
  "truncate_to io fs seg valid_end =
     (if as_log_size seg \<le> valid_end then (Inr seg, fs)
      else if io_fails io Truncate_log then (Inl Io_failed, fs)
      else
        (Inr (seg\<lparr>as_log_size := valid_end, as_meta := (as_meta seg)\<lparr>sm_size := valid_end\<rparr>\<rparr>),
         if io_fails io Truncate_unsupported then fs
         else fs_truncate fs (sm_log_path (as_meta seg)) valid_end))"

definition close_handles :: "active_segment \<Rightarrow> active_segment" where
  "close_handles seg = seg\<lparr>as_log := False, as_index := None\<rparr>"

text \<open>\<open>u64\<close> subtraction wraps: an adopted segment's estimate of the last indexed position may lie
  past the end of the log.\<close>

definition index_due :: "active_segment \<Rightarrow> nat \<Rightarrow> bool" where
  "index_due seg index_interval_bytes \<longleftrightarrow>
     int index_interval_bytes \<le>
       (int (as_log_size seg) - int (as_last_indexed_log_pos seg)) mod 2 ^ 64"

definition index_entry :: "int \<Rightarrow> nat \<Rightarrow> bytes" where
  "index_entry rel_offset pos = be_bytes 4 rel_offset @ be_bytes 4 (int pos)"

definition append_batch ::
  "io_env \<Rightarrow> file_store \<Rightarrow> active_segment \<Rightarrow> bytes \<Rightarrow> nat \<Rightarrow>
   (io_error + active_segment) \<times> file_store" where
  "append_batch io fs seg raw index_interval_bytes =
     (case parse_batch_offsets raw of
        None \<Rightarrow> (Inl Invalid_data, fs)
      | Some (base_offset, last_offset_delta, max_timestamp) \<Rightarrow>
          let log_path = sm_log_path (as_meta seg); index_path = sm_index_path (as_meta seg) in
          if \<not> as_log seg then (Inl Handle_closed, fs)
          else if io_fails io Write_log
          then (Inl Io_failed, fs_write_at fs log_path (as_log_size seg) (take (io_torn io) raw))
          else
            let fs1 = fs_write_at fs log_path (as_log_size seg) raw;
                new_size = sat_u64 (as_log_size seg + length raw);
                account = (\<lambda>s. s\<lparr>as_log_size := new_size,
                  as_meta := (as_meta s)\<lparr>sm_size := new_size\<rparr>,
                  as_last_offset := base_offset + last_offset_delta,
                  as_max_timestamp := max max_timestamp (as_max_timestamp s)\<rparr>) in
            if index_due seg index_interval_bytes then
              (case as_index seg of
                 None \<Rightarrow> (Inl Handle_closed, fs1)
               | Some cursor \<Rightarrow>
                   let rel_offset = base_offset - sm_base_offset (as_meta seg) in
                   if \<not> in_i32 rel_offset then (Inl Invalid_data, fs1)
                   else if u32_MAX < int (as_log_size seg) then (Inl Invalid_data, fs1)
                   else if io_fails io Write_index then (Inl Io_failed, fs1)
                   else
                     (Inr (account (seg\<lparr>as_index := Some (cursor + 8),
                                        as_last_indexed_log_pos := as_log_size seg\<rparr>)),
                      fs_write_at fs1 index_path cursor (index_entry rel_offset (as_log_size seg))))
            else (Inr (account seg), fs1))"

text \<open>\<open>roll_fast\<close>: fsync the outgoing log, create the next segment, describe the closed one.\<close>

definition closed_meta_of :: "active_segment \<Rightarrow> segment_meta" where
  "closed_meta_of seg =
     (as_meta seg)\<lparr>sm_size := as_log_size seg, sm_max_timestamp := as_max_timestamp seg\<rparr>"

definition roll_fast ::
  "io_env \<Rightarrow> file_store \<Rightarrow> active_segment \<Rightarrow> int \<Rightarrow> int \<Rightarrow>
   (io_error + active_segment \<times> segment_meta) \<times> file_store" where
  "roll_fast io fs seg new_base_offset epoch =
     (if as_log seg \<and> io_fails io Sync_log then (Inl Io_failed, fs)
      else case create_segment io fs new_base_offset epoch of
        (Inl e, fs1) \<Rightarrow> (Inl e, fs1)
      | (Inr new_active, fs1) \<Rightarrow> (Inr (new_active, closed_meta_of seg), fs1))"

definition sync_log :: "io_env \<Rightarrow> active_segment \<Rightarrow> io_error + unit" where
  "sync_log io seg =
     (if \<not> as_log seg then Inl Handle_closed
      else if io_fails io Sync_log then Inl Io_failed else Inr ())"

section \<open>What a segment holds\<close>

definition seg_holds :: "file_store \<Rightarrow> segment_meta \<Rightarrow> bytes list \<Rightarrow> bool" where
  "seg_holds fs meta bs \<longleftrightarrow>
     hm_get fs (sm_log_path meta) = Some (concat bs) \<and> consecutive (sm_base_offset meta) bs \<and>
     (case hm_get fs (sm_index_path meta) of
        None \<Rightarrow> True
      | Some data \<Rightarrow> index_ok (sm_base_offset meta) bs data \<and> length data mod 8 = 0)"

definition active_holds :: "file_store \<Rightarrow> active_segment \<Rightarrow> bytes list \<Rightarrow> bool" where
  "active_holds fs seg bs \<longleftrightarrow>
     seg_holds fs (as_meta seg) bs \<and> as_log_size seg = length (concat bs) \<and>
     sm_size (as_meta seg) = length (concat bs) \<and> as_log seg \<and>
     sm_log_path (as_meta seg) \<noteq> sm_index_path (as_meta seg) \<and>
     (case (as_index seg, hm_get fs (sm_index_path (as_meta seg))) of
        (Some cursor, Some data) \<Rightarrow> cursor mod 8 = 0 \<and> cursor \<le> length data
      | _ \<Rightarrow> False)"

lemma seg_holds_cong:
  assumes "hm_get fs' (sm_log_path meta) = hm_get fs (sm_log_path meta)"
    and "hm_get fs' (sm_index_path meta) = hm_get fs (sm_index_path meta)"
  shows "seg_holds fs' meta bs = seg_holds fs meta bs"
  using assms by (simp add: seg_holds_def)

lemma seg_holds_meta:
  assumes "sm_log_path meta' = sm_log_path meta" "sm_index_path meta' = sm_index_path meta"
    and "sm_base_offset meta' = sm_base_offset meta"
  shows "seg_holds fs meta' bs = seg_holds fs meta bs"
  unfolding seg_holds_def assms by (rule refl)

lemma seg_holds_read:
  assumes "seg_holds fs meta bs" "- (2 ^ 31) \<le> start - sm_base_offset meta" "\<not> io_fails io Open_read"
  shows "read_batches io fs (sm_log_path meta)
      (search_index io fs (sm_index_path meta) (sm_base_offset meta) start) start m =
    Inr (concat (within_budget m (filter (\<lambda>b. start \<le> batch_last b) bs)))"
  using assms indexed_read [of "sm_base_offset meta" bs _ start m]
    read_from_start [of "sm_base_offset meta" bs start m]
  by (auto simp: seg_holds_def read_batches_def search_index_def split: option.splits)

section \<open>Creating a segment\<close>

lemma log_path_neq_index_path: "segment_log_path b e \<noteq> segment_index_path b' e'"
proof
  assume "segment_log_path b e = segment_index_path b' e'"
  then have "last (segment_log_path b e) = last (segment_index_path b' e')" by simp
  then show False
    by (simp add: segment_log_path_def segment_index_path_def LOG_EXT_def INDEX_EXT_def)
qed

lemma index_ok_empty [simp]: "index_ok base bs []"
  by (simp add: index_ok_def)

lemma create_segment_holds:
  assumes "create_segment io fs base epoch = (Inr seg, fs')"
  shows "active_holds fs' seg [] \<and> as_meta seg = \<lparr>sm_base_offset = base, sm_epoch = epoch,
      sm_size = 0, sm_log_path = segment_log_path base epoch,
      sm_index_path = segment_index_path base epoch, sm_max_timestamp = UNKNOWN_MAX_TIMESTAMP\<rparr>"
  using assms log_path_neq_index_path [of base epoch base epoch]
  by (auto simp: create_segment_def Let_def active_holds_def seg_holds_def fs_create_def
      split: if_splits)

lemma create_segment_frame:
  assumes "create_segment io fs base epoch = (r, fs')"
    and "p \<noteq> segment_log_path base epoch" "p \<noteq> segment_index_path base epoch"
  shows "hm_get fs' p = hm_get fs p"
  using assms by (auto simp: create_segment_def Let_def fs_create_def split: if_splits)

section \<open>Appending to a segment\<close>

lemma index_ok_extend: "index_ok base bs data \<Longrightarrow> index_ok base (bs @ cs) data"
  unfolding index_ok_def
  by (metis (no_types, lifting) length_append nth_append take_append trans_less_add1
      diff_is_0_eq' less_imp_le take0 append_Nil2)

lemma length_index_entry [simp]: "length (index_entry rel pos) = 8"
  by (simp add: index_entry_def)

lemma read_index_entry_written:
  assumes "in_i32 rel" "int pos \<le> u32_MAX" "j * 8 \<le> length data"
  shows "read_index_entry (file_write_at data (j * 8) (index_entry rel pos)) i =
    (if i = j then (rel, int pos) else read_index_entry data i)"
proof (cases "i = j")
  case True
  let ?d = "file_write_at data (j * 8) (index_entry rel pos)"
  have whole: "slice (j * 8) (j * 8 + 8) ?d = index_entry rel pos"
    using slice_file_write_at_same [of "j * 8" "index_entry rel pos" data] by simp
  have "slice (j * 8) (j * 8 + 4) ?d = slice 0 4 (slice (j * 8) (j * 8 + 8) ?d)"
    "slice (j * 8 + 4) (j * 8 + 8) ?d = slice 4 8 (slice (j * 8) (j * 8 + 8) ?d)"
    by (simp_all add: slice_slice)
  with whole have "slice (j * 8) (j * 8 + 4) ?d = be_bytes 4 rel"
    "slice (j * 8 + 4) (j * 8 + 8) ?d = be_bytes 4 (int pos)"
    by (simp_all add: index_entry_def)
  with True assms(1,2) show ?thesis
    by (simp add: read_index_entry_def Let_def INDEX_ENTRY_SIZE_def)
next
  case False
  then consider "i * 8 + 8 \<le> j * 8" | "j * 8 + 8 \<le> i * 8" by linarith
  then show ?thesis
    using assms(3) False
    by cases (simp_all add: read_index_entry_def Let_def INDEX_ENTRY_SIZE_def
        slice_file_write_at_before slice_file_write_at_after)
qed

lemma index_ok_written:
  assumes ix: "index_ok base bs data" and al: "c mod 8 = 0" "c \<le> length data"
    and ent: "in_i32 rel" "int pos \<le> u32_MAX" "pos = length (concat bs)" "base + rel = batch_base b"
  shows "index_ok base (bs @ [b]) (file_write_at data c (index_entry rel pos))"
  unfolding index_ok_def
proof (intro allI impI)
  fix i assume i: "i < length (file_write_at data c (index_entry rel pos)) div INDEX_ENTRY_SIZE"
  obtain j where c: "c = j * 8" using al(1) by (metis mod_eq_0_iff_dvd dvd_def mult.commute)
  let ?e = "read_index_entry (file_write_at data c (index_entry rel pos)) i"
  have e: "?e = (if i = j then (rel, int pos) else read_index_entry data i)"
    unfolding c by (rule read_index_entry_written) (use ent al c in simp_all)
  show "\<exists>k < length (bs @ [b]). snd ?e = int (length (concat (take k (bs @ [b])))) \<and>
      base + fst ?e = batch_base ((bs @ [b]) ! k)"
  proof (cases "i = j")
    case True
    with e ent show ?thesis by (intro exI [of _ "length bs"]) simp
  next
    case False
    have "i < length data div INDEX_ENTRY_SIZE"
      using i False c al by (auto simp: length_file_write_at INDEX_ENTRY_SIZE_def max_def split: if_splits)
    with index_ok_extend [OF ix, of "[b]"] e False show ?thesis by (simp add: index_ok_def)
  qed
qed

text \<open>The two ways an append succeeds: without and with an index entry.\<close>

lemma append_batch_cases:
  assumes "append_batch io fs seg raw interval = (Inr seg', fs')"
    and "int (as_log_size seg + length raw) \<le> u64_MAX"
  obtains
    (plain) "fs' = fs_write_at fs (sm_log_path (as_meta seg)) (as_log_size seg) raw"
      "as_index seg' = as_index seg"
  | (indexed) cursor where "as_index seg = Some cursor"
      "in_i32 (batch_base raw - sm_base_offset (as_meta seg))" "int (as_log_size seg) \<le> u32_MAX"
      "fs' = fs_write_at (fs_write_at fs (sm_log_path (as_meta seg)) (as_log_size seg) raw)
         (sm_index_path (as_meta seg)) cursor
         (index_entry (batch_base raw - sm_base_offset (as_meta seg)) (as_log_size seg))"
      "as_index seg' = Some (cursor + 8)"
  using assms
  by (auto simp: append_batch_def parse_batch_offsets_def Let_def batch_base_def
      split: if_splits option.splits)

lemma append_batch_account:
  assumes "append_batch io fs seg raw interval = (Inr seg', fs')"
    and "int (as_log_size seg + length raw) \<le> u64_MAX"
  shows "as_meta seg' = (as_meta seg)\<lparr>sm_size := as_log_size seg + length raw\<rparr>"
    "as_log_size seg' = as_log_size seg + length raw" "as_log seg'" "43 \<le> length raw"
    "as_last_offset seg' = batch_last raw" "as_max_timestamp seg \<le> as_max_timestamp seg'"
  using assms
  by (auto simp: append_batch_def parse_batch_offsets_def Let_def batch_last_def batch_base_def
      batch_delta_def split: if_splits option.splits)

lemma append_batch_holds:
  assumes ok: "append_batch io fs seg raw interval = (Inr seg', fs')"
    and h: "active_holds fs seg bs" and fits: "int (as_log_size seg + length raw) \<le> u64_MAX"
    and raw: "framed raw" "0 \<le> batch_delta raw"
      "batch_base raw = end_offset_of (sm_base_offset (as_meta seg)) bs"
  shows "active_holds fs' seg' (bs @ [raw])"
proof -
  let ?m = "as_meta seg"
  note acc = append_batch_account [OF ok fits]
  have log: "hm_get fs (sm_log_path ?m) = Some (concat bs)" and c: "consecutive (sm_base_offset ?m) bs"
    and size: "as_log_size seg = length (concat bs)" and neq: "sm_log_path ?m \<noteq> sm_index_path ?m"
    using h by (simp_all add: active_holds_def seg_holds_def)
  obtain c0 data where cur: "as_index seg = Some c0" "c0 mod 8 = 0" "c0 \<le> length data"
    and data: "hm_get fs (sm_index_path ?m) = Some data"
      "index_ok (sm_base_offset ?m) bs data" "length data mod 8 = 0"
    using h by (auto simp: active_holds_def seg_holds_def split: option.splits)
  have c': "consecutive (sm_base_offset ?m) (bs @ [raw])"
    using c raw by (simp add: consecutive_append)
  have log': "file_write_at (fs_contents fs (sm_log_path ?m)) (as_log_size seg) raw = concat bs @ raw"
    unfolding size by (simp add: fs_contents_def log)
  from ok fits show ?thesis
  proof (cases rule: append_batch_cases)
    case plain
    with acc log' neq c' cur data index_ok_extend [OF data(2), of "[raw]"] size show ?thesis
      by (simp add: active_holds_def seg_holds_def fs_write_at_def)
  next
    case (indexed cursor)
    have len: "length (file_write_at data cursor (index_entry rel pos)) mod 8 = 0 \<and>
        cursor + 8 \<le> length (file_write_at data cursor (index_entry rel pos)) \<and>
        (cursor + 8) mod 8 = 0" for rel pos
      using cur data(3) indexed(1) by (auto simp: length_file_write_at max_def)
    have "index_ok (sm_base_offset ?m) (bs @ [raw]) (file_write_at data cursor
        (index_entry (batch_base raw - sm_base_offset ?m) (as_log_size seg)))"
      by (rule index_ok_written) (use indexed cur data size in simp_all)
    with indexed acc log' neq c' data(1) len size show ?thesis
      by (simp add: active_holds_def seg_holds_def fs_write_at_def fs_contents_def)
  qed
qed

lemma append_batch_frame:
  assumes "append_batch io fs seg raw interval = (r, fs')"
    and "p \<noteq> sm_log_path (as_meta seg)" "p \<noteq> sm_index_path (as_meta seg)"
  shows "hm_get fs' p = hm_get fs p"
  using assms
  by (auto simp: append_batch_def Let_def fs_write_at_def split: if_splits option.splits prod.splits)

text \<open>A failed append leaves the committed bytes of the log, below the recorded size, as they
  were, however much of the batch reached the file.\<close>

lemma append_batch_failed:
  assumes "append_batch io fs seg raw interval = (Inl e, fs')" "active_holds fs seg bs"
  shows "take (as_log_size seg) (fs_contents fs' (sm_log_path (as_meta seg))) = concat bs"
  using assms
  by (auto simp: append_batch_def Let_def fs_write_at_def fs_contents_def active_holds_def
      seg_holds_def take_file_write_at split: if_splits option.splits prod.splits)

end
