(* ===== verification/Idempotence.thy ===== *)
theory Idempotence
  imports Prelude
begin

text \<open>
  The idempotent-producer window of a partition (\<open>crates/kaas-storage/src/idempotence.rs\<close> and
  \<open>producer_snapshot.rs\<close>): the header fields a batch carries, the classifier that decides what
  an append does with a batch, the window update after an accepted append, the epoch fence, and
  the snapshot a restart restores.

  \<open>first_seq\<close> and \<open>last_seq\<close> are Rust \<open>i32\<close>: \<open>last_seq + 1\<close> wraps (\<open>wrap32\<close>).
\<close>

section \<open>Data\<close>

definition RING_SIZE :: nat where "RING_SIZE = 5"

record recent_batch =
  rb_first_seq :: int
  rb_last_seq :: int
  rb_base_offset :: int

record producer_entry =
  pe_epoch :: int
  pe_recent :: "recent_batch list"

type_synonym producer_states = "(int, producer_entry) hash_map"

record batch_producer_info =
  bp_producer_id :: int
  bp_epoch :: int
  bp_first_seq :: int
  bp_last_seq :: int

datatype outcome = NotIdempotent | Accept | Duplicate int | OutOfOrder | InvalidEpoch

datatype idempotence_parse_error = BatchTooShort nat

record batch_txn_info =
  bt_is_transactional :: bool
  bt_is_control :: bool
  bt_producer_id :: int
  bt_control_commit :: "bool option"

text \<open>\<open>ProducerEntry::default()\<close>\<close>

definition default_entry :: producer_entry where
  "default_entry = \<lparr>pe_epoch = 0, pe_recent = []\<rparr>"

section \<open>Header parsing\<close>

definition parse_batch_producer_info :: "bytes \<Rightarrow> idempotence_parse_error + batch_producer_info"
  where
  "parse_batch_producer_info raw =
     (if length raw < 57 then Inl (BatchTooShort (length raw))
      else
        let last_offset_delta = be_i32 (slice 23 27 raw);
            producer_id = be_i64 (slice 43 51 raw);
            epoch = be_i16 (slice 51 53 raw);
            base_seq = be_i32 (slice 53 57 raw)
        in Inr \<lparr>bp_producer_id = producer_id, bp_epoch = epoch, bp_first_seq = base_seq,
                bp_last_seq = wrap32 (base_seq + last_offset_delta)\<rparr>)"

definition parse_batch_txn_info :: "bytes \<Rightarrow> batch_txn_info option" where
  "parse_batch_txn_info raw =
     (if length raw < 57 then None
      else
        let attrs = be_i16 (slice 21 23 raw);
            is_control = bit attrs 5;
            control_commit =
              (if is_control then
                 if length raw \<le> 69 then None else Some (be_i16 (slice 68 70 raw) = 1)
               else None)
        in Some \<lparr>bt_is_transactional = bit attrs 4, bt_is_control = is_control,
                 bt_producer_id = be_i64 (slice 43 51 raw),
                 bt_control_commit = control_commit\<rparr>)"

section \<open>The classifier and the window\<close>

text \<open>\<open>for rb in &entry.recent\<close>: the first slot with the same sequence range.\<close>

definition find_duplicate :: "recent_batch list \<Rightarrow> batch_producer_info \<Rightarrow> recent_batch option" where
  "find_duplicate recent info =
     find (\<lambda>rb. rb_first_seq rb = bp_first_seq info \<and> rb_last_seq rb = bp_last_seq info) recent"

definition classify :: "producer_states \<Rightarrow> batch_producer_info \<Rightarrow> outcome" where
  "classify states info =
     (if bp_producer_id info < 0 then NotIdempotent
      else if bp_first_seq info < 0 then NotIdempotent
      else case hm_get states (bp_producer_id info) of
        None \<Rightarrow> if bp_first_seq info = 0 then Accept else OutOfOrder
      | Some entry \<Rightarrow>
          if bp_epoch info > pe_epoch entry then
            (if bp_first_seq info = 0 then Accept else OutOfOrder)
          else if bp_epoch info < pe_epoch entry then InvalidEpoch
          else case find_duplicate (pe_recent entry) info of
            Some rb \<Rightarrow> Duplicate (rb_base_offset rb)
          | None \<Rightarrow>
              if pe_recent entry = [] then
                (if bp_first_seq info = 0 then Accept else OutOfOrder)
              else if bp_first_seq info = wrap32 (rb_last_seq (last (pe_recent entry)) + 1)
                   then Accept else OutOfOrder)"

definition entry_or_default :: "producer_states \<Rightarrow> int \<Rightarrow> producer_entry" where
  "entry_or_default states pid = (case hm_get states pid of None \<Rightarrow> default_entry | Some e \<Rightarrow> e)"

text \<open>Keep the newest \<open>RING_SIZE\<close> slots (\<open>recent.drain(..overflow)\<close>).\<close>

definition trim_ring :: "recent_batch list \<Rightarrow> recent_batch list" where
  "trim_ring recent = drop (length recent - RING_SIZE) recent"

definition record_accepted :: "producer_states \<Rightarrow> batch_producer_info \<Rightarrow> int \<Rightarrow> producer_states"
  where
  "record_accepted states info base_offset =
     (let entry = entry_or_default states (bp_producer_id info);
          entry = (if bp_epoch info > pe_epoch entry
                   then entry\<lparr>pe_epoch := bp_epoch info, pe_recent := []\<rparr> else entry);
          rb = \<lparr>rb_first_seq = bp_first_seq info, rb_last_seq = bp_last_seq info,
                rb_base_offset = base_offset\<rparr>
      in hm_insert (bp_producer_id info)
           (entry\<lparr>pe_recent := trim_ring (pe_recent entry @ [rb])\<rparr>) states)"

text \<open>\<open>ProducerStates::fence\<close>, and the same update in \<open>Partition::fence_producer\<close>.\<close>

definition fence :: "producer_states \<Rightarrow> int \<Rightarrow> int \<Rightarrow> producer_states" where
  "fence states pid new_epoch =
     (let entry = entry_or_default states pid
      in hm_insert pid
           (if new_epoch > pe_epoch entry
            then entry\<lparr>pe_epoch := new_epoch, pe_recent := []\<rparr> else entry) states)"

section \<open>The snapshot on disk\<close>

text \<open>\<open>ProducerStates::snapshot\<close> and \<open>restore\<close>; \<open>write_producer_snapshot\<close> and
  \<open>read_producer_snapshot\<close> up to the JSON text, which \<open>serde_json\<close> prints and parses.\<close>

record producer_snapshot =
  ps_version :: int
  ps_entries :: "(int \<times> int \<times> (int \<times> int \<times> int) list) list"

definition PRODUCER_SNAPSHOT_VERSION :: int where "PRODUCER_SNAPSHOT_VERSION = 1"

definition write_producer_snapshot :: "producer_states \<Rightarrow> producer_snapshot" where
  "write_producer_snapshot states =
     \<lparr>ps_version = PRODUCER_SNAPSHOT_VERSION,
      ps_entries = map (\<lambda>(pid, e). (pid, pe_epoch e,
        map (\<lambda>rb. (rb_first_seq rb, rb_last_seq rb, rb_base_offset rb)) (pe_recent e))) states\<rparr>"

definition read_producer_snapshot :: "producer_snapshot \<Rightarrow> (int \<times> producer_entry) list option" where
  "read_producer_snapshot snap =
     (if ps_version snap \<noteq> PRODUCER_SNAPSHOT_VERSION then None
      else Some (map (\<lambda>(pid, epoch, recent). (pid, \<lparr>pe_epoch = epoch, pe_recent =
        map (\<lambda>(f, l, b). \<lparr>rb_first_seq = f, rb_last_seq = l, rb_base_offset = b\<rparr>) recent\<rparr>))
        (ps_entries snap)))"

definition restore :: "(int \<times> producer_entry) list \<Rightarrow> producer_states" where
  "restore entries = foldl (\<lambda>m (pid, e). hm_insert pid e m) [] entries"

section \<open>Runs\<close>

text \<open>
  What an append does with the window (\<open>Partition::append\<close>): classify first, record only on
  \<open>Accept\<close>. A partition sees appends and fences in some order.
\<close>

definition admit :: "producer_states \<Rightarrow> batch_producer_info \<Rightarrow> int \<Rightarrow> producer_states" where
  "admit states info off =
     (if classify states info = Accept then record_accepted states info off else states)"

datatype prod_event = Batch batch_producer_info int | Fence int int

fun prod_step :: "producer_states \<Rightarrow> prod_event \<Rightarrow> producer_states" where
  "prod_step states (Batch info off) = admit states info off"
| "prod_step states (Fence pid e) = fence states pid e"

text \<open>The batches a run accepts, oldest first.\<close>

fun accepted :: "producer_states \<Rightarrow> prod_event list \<Rightarrow> batch_producer_info list" where
  "accepted states [] = []"
| "accepted states (Batch info off # evs) =
     (if classify states info = Accept then [info] else []) @ accepted (admit states info off) evs"
| "accepted states (Fence pid e # evs) = accepted (fence states pid e) evs"

text \<open>Each batch starts where the one before it ended.\<close>

fun chained :: "(int \<times> int) list \<Rightarrow> bool" where
  "chained [] = True"
| "chained [r] = True"
| "chained (a # b # rs) = (fst b = wrap32 (snd a + 1) \<and> chained (b # rs))"

abbreviation info_range :: "batch_producer_info \<Rightarrow> int \<times> int" where
  "info_range info \<equiv> (bp_first_seq info, bp_last_seq info)"

abbreviation rb_range :: "recent_batch \<Rightarrow> int \<times> int" where
  "rb_range rb \<equiv> (rb_first_seq rb, rb_last_seq rb)"

lemma chained_snoc:
  "chained (rs @ [r]) \<longleftrightarrow> chained rs \<and> (rs \<noteq> [] \<longrightarrow> fst r = wrap32 (snd (last rs) + 1))"
  by (induction rs rule: chained.induct) auto

lemma chained_drop: "chained rs \<Longrightarrow> chained (drop n rs)"
proof (induction rs arbitrary: n rule: chained.induct)
  case (3 a b rs)
  then show ?case by (cases n) auto
qed (auto simp: drop_Cons split: nat.splits)

lemma trim_ring_length [simp]: "length (trim_ring rs) \<le> RING_SIZE"
  by (simp add: trim_ring_def)

lemma trim_ring_snoc: "trim_ring (rs @ [r]) = drop (Suc (length rs) - RING_SIZE) rs @ [r]"
  by (simp add: trim_ring_def RING_SIZE_def)

section \<open>The entry of a producer after a step\<close>

lemma hm_get_fence:
  "hm_get (fence st pid e) p =
     (if p = pid then Some (if e > pe_epoch (entry_or_default st pid)
                            then (entry_or_default st pid)\<lparr>pe_epoch := e, pe_recent := []\<rparr>
                            else entry_or_default st pid)
      else hm_get st p)"
  by (simp add: fence_def Let_def)

lemma hm_get_record_accepted_other [simp]:
  "p \<noteq> bp_producer_id info \<Longrightarrow> hm_get (record_accepted st info off) p = hm_get st p"
  by (simp add: record_accepted_def Let_def)

definition window_before :: "producer_states \<Rightarrow> batch_producer_info \<Rightarrow> recent_batch list" where
  "window_before st info =
     (if bp_epoch info > pe_epoch (entry_or_default st (bp_producer_id info)) then []
      else pe_recent (entry_or_default st (bp_producer_id info)))"

lemma hm_get_record_accepted:
  "hm_get (record_accepted st info off) (bp_producer_id info) =
     Some \<lparr>pe_epoch = max (pe_epoch (entry_or_default st (bp_producer_id info))) (bp_epoch info),
           pe_recent = trim_ring (window_before st info @
             [\<lparr>rb_first_seq = bp_first_seq info, rb_last_seq = bp_last_seq info,
               rb_base_offset = off\<rparr>])\<rparr>"
  by (auto simp: record_accepted_def Let_def window_before_def max_def)

lemma hm_wf_fence [simp]: "hm_wf st \<Longrightarrow> hm_wf (fence st pid e)"
  by (simp add: fence_def Let_def)

lemma hm_wf_record_accepted [simp]: "hm_wf st \<Longrightarrow> hm_wf (record_accepted st info off)"
  by (simp add: record_accepted_def Let_def)

text \<open>What an \<open>Accept\<close> says of the window the batch is appended to.\<close>

lemma classify_Accept:
  assumes "classify st info = Accept" and "0 \<le> bp_epoch info"
  shows "0 \<le> bp_producer_id info" and "0 \<le> bp_first_seq info"
    and "pe_epoch (entry_or_default st (bp_producer_id info)) \<le> bp_epoch info"
    and "find_duplicate (window_before st info) info = None"
    and "window_before st info = [] \<Longrightarrow> bp_first_seq info = 0"
    and "window_before st info \<noteq> [] \<Longrightarrow>
      bp_first_seq info = wrap32 (rb_last_seq (last (window_before st info)) + 1)"
  using assms
  by (auto simp: classify_def entry_or_default_def default_entry_def window_before_def
      find_duplicate_def not_less split: if_splits option.splits)

section \<open>The window invariant\<close>

definition entry_ok :: "producer_entry \<Rightarrow> bool" where
  "entry_ok e \<longleftrightarrow> 0 \<le> pe_epoch e \<and> length (pe_recent e) \<le> RING_SIZE \<and>
     chained (map rb_range (pe_recent e))"

definition states_ok :: "producer_states \<Rightarrow> bool" where
  "states_ok st \<longleftrightarrow> hm_wf st \<and> (\<forall>pid e. hm_get st pid = Some e \<longrightarrow> entry_ok e)"

lemma entry_ok_default [simp]: "entry_ok default_entry"
  by (simp add: entry_ok_def default_entry_def)

lemma states_ok_Nil [simp]: "states_ok []"
  by (simp add: states_ok_def)

lemma states_ok_entry: "states_ok st \<Longrightarrow> entry_ok (entry_or_default st pid)"
  by (auto simp: states_ok_def entry_or_default_def split: option.splits)

lemma states_ok_fence: "states_ok st \<Longrightarrow> states_ok (fence st pid e)"
  using states_ok_entry [of st pid]
  by (auto simp: states_ok_def hm_get_fence entry_ok_def)

lemma window_before_chained: "states_ok st \<Longrightarrow> chained (map rb_range (window_before st info))"
  using states_ok_entry [of st "bp_producer_id info"]
  by (simp add: window_before_def entry_ok_def)

lemma entry_ok_recorded:
  assumes ok: "states_ok st" and acc: "classify st info = Accept"
  shows "entry_ok (the (hm_get (record_accepted st info off) (bp_producer_id info)))"
proof -
  let ?w = "window_before st info"
  let ?rb = "\<lparr>rb_first_seq = bp_first_seq info, rb_last_seq = bp_last_seq info,
    rb_base_offset = off\<rparr>"
  have e: "entry_ok (entry_or_default st (bp_producer_id info))"
    using ok by (rule states_ok_entry)
  have "chained (map rb_range (?w @ [?rb]))"
  proof (cases "?w = []")
    case False
    have "bp_first_seq info = wrap32 (rb_last_seq (last ?w) + 1)"
      using acc False e
      by (auto simp: classify_def window_before_def entry_or_default_def default_entry_def
          find_duplicate_def split: if_splits option.splits)
    with False window_before_chained [OF ok, of info] show ?thesis
      by (simp add: chained_snoc last_map)
  qed simp
  then have "chained (drop (length (?w @ [?rb]) - RING_SIZE) (map rb_range (?w @ [?rb])))"
    by (rule chained_drop)
  then have "chained (map rb_range (trim_ring (?w @ [?rb])))"
    by (simp only: trim_ring_def drop_map)
  with e show ?thesis by (simp add: hm_get_record_accepted entry_ok_def le_max_iff_disj)
qed

lemma states_ok_admit:
  assumes ok: "states_ok st"
  shows "states_ok (admit st info off)"
proof (cases "classify st info = Accept")
  case True
  have "entry_ok e" if "hm_get (record_accepted st info off) pid = Some e" for pid e
  proof (cases "pid = bp_producer_id info")
    case True
    with that entry_ok_recorded [OF ok \<open>classify st info = Accept\<close>, of off] show ?thesis by simp
  next
    case False
    with that ok show ?thesis by (simp add: states_ok_def)
  qed
  with True ok show ?thesis by (simp add: admit_def states_ok_def)
qed (simp add: admit_def ok)

lemma states_ok_step: "states_ok st \<Longrightarrow> states_ok (prod_step st ev)"
  by (cases ev) (simp_all add: states_ok_admit states_ok_fence)

interpretation window: step_invariant prod_step states_ok
  by unfold_locales (rule states_ok_step)

section \<open>The history of accepted batches\<close>

text \<open>
  The window only holds the last five batches. \<open>history_ok st h\<close> relates it to everything the
  run has accepted: per producer and epoch the accepted ranges form one gap-free chain from
  sequence 0, and the newest window slot is the end of the chain of the current epoch.
\<close>

definition ranges_of :: "batch_producer_info list \<Rightarrow> int \<Rightarrow> int \<Rightarrow> (int \<times> int) list" where
  "ranges_of h pid ep =
     map info_range (filter (\<lambda>i. bp_producer_id i = pid \<and> bp_epoch i = ep) h)"

definition gap_free :: "(int \<times> int) list \<Rightarrow> bool" where
  "gap_free rs \<longleftrightarrow> chained rs \<and> (rs \<noteq> [] \<longrightarrow> fst (hd rs) = 0)"

definition history_ok :: "producer_states \<Rightarrow> batch_producer_info list \<Rightarrow> bool" where
  "history_ok st h \<longleftrightarrow>
     (\<forall>i \<in> set h. \<exists>e. hm_get st (bp_producer_id i) = Some e \<and> bp_epoch i \<le> pe_epoch e) \<and>
     (\<forall>pid ep. gap_free (ranges_of h pid ep)) \<and>
     (\<forall>pid e. hm_get st pid = Some e \<longrightarrow>
        map_option rb_range (last_opt (pe_recent e)) = last_opt (ranges_of h pid (pe_epoch e)))"

lemma ranges_of_append: "ranges_of (h @ h') pid ep = ranges_of h pid ep @ ranges_of h' pid ep"
  by (simp add: ranges_of_def)

lemma ranges_of_single:
  "ranges_of [i] pid ep =
     (if bp_producer_id i = pid \<and> bp_epoch i = ep then [info_range i] else [])"
  by (simp add: ranges_of_def)

lemma ranges_of_empty:
  "(\<And>i. i \<in> set h \<Longrightarrow> bp_producer_id i = pid \<Longrightarrow> bp_epoch i \<noteq> ep) \<Longrightarrow> ranges_of h pid ep = []"
  by (auto simp: ranges_of_def filter_empty_conv)

lemma gap_free_snoc:
  "gap_free rs \<Longrightarrow> (if rs = [] then fst r = 0 else fst r = wrap32 (snd (last rs) + 1)) \<Longrightarrow>
   gap_free (rs @ [r])"
  using chained_snoc [of rs r] by (cases rs) (auto simp: gap_free_def)

text \<open>The window a batch is measured against ends where the history of its epoch ends.\<close>

lemma history_window:
  assumes h: "history_ok st h"
    and ep: "pe_epoch (entry_or_default st (bp_producer_id info)) \<le> bp_epoch info"
  shows "map_option rb_range (last_opt (window_before st info)) =
    last_opt (ranges_of h (bp_producer_id info) (bp_epoch info))"
proof (cases "hm_get st (bp_producer_id info)")
  case None
  then have "ranges_of h (bp_producer_id info) (bp_epoch info) = []"
    using h by (intro ranges_of_empty) (auto simp: history_ok_def)
  with None show ?thesis
    by (simp add: window_before_def entry_or_default_def default_entry_def)
next
  case (Some e)
  show ?thesis
  proof (cases "bp_epoch info = pe_epoch e")
    case True
    with Some h show ?thesis
      by (simp add: window_before_def entry_or_default_def history_ok_def)
  next
    case False
    with Some ep have gt: "pe_epoch e < bp_epoch info" by (simp add: entry_or_default_def)
    have "ranges_of h (bp_producer_id info) (bp_epoch info) = []"
    proof (rule ranges_of_empty)
      fix i assume "i \<in> set h" "bp_producer_id i = bp_producer_id info"
      with h Some have "bp_epoch i \<le> pe_epoch e" by (fastforce simp: history_ok_def)
      with gt show "bp_epoch i \<noteq> bp_epoch info" by simp
    qed
    with Some gt show ?thesis by (simp add: window_before_def entry_or_default_def)
  qed
qed

lemma history_gap_free_accept:
  assumes h: "history_ok st h" and acc: "classify st info = Accept" and ep: "0 \<le> bp_epoch info"
  shows "gap_free (ranges_of (h @ [info]) pid e)"
proof (cases "bp_producer_id info = pid \<and> bp_epoch info = e")
  case True
  note A = classify_Accept [OF acc ep]
  have w: "map_option rb_range (last_opt (window_before st info)) = last_opt (ranges_of h pid e)"
    using history_window [OF h A(3)] True by simp
  have "gap_free (ranges_of h pid e @ [info_range info])"
  proof (rule gap_free_snoc)
    show "gap_free (ranges_of h pid e)" using h by (simp add: history_ok_def)
    show "if ranges_of h pid e = [] then fst (info_range info) = 0
      else fst (info_range info) = wrap32 (snd (last (ranges_of h pid e)) + 1)"
      using w A(5,6) by (auto simp: last_opt_def split: if_splits) (metis snd_conv)
  qed
  with True show ?thesis by (simp add: ranges_of_append ranges_of_single)
next
  case False
  with h show ?thesis by (auto simp: ranges_of_append ranges_of_single history_ok_def)
qed

lemma history_accept:
  assumes h: "history_ok st h" and acc: "classify st info = Accept" and ep: "0 \<le> bp_epoch info"
  shows "history_ok (record_accepted st info off) (h @ [info])"
proof -
  let ?st' = "record_accepted st info off"
  note A = classify_Accept [OF acc ep]
  have cov: "\<exists>e. hm_get ?st' (bp_producer_id i) = Some e \<and> bp_epoch i \<le> pe_epoch e"
    if i: "i \<in> set (h @ [info])" for i
  proof (cases "bp_producer_id i = bp_producer_id info")
    case True
    have "bp_epoch i \<le> max (pe_epoch (entry_or_default st (bp_producer_id info))) (bp_epoch info)"
      if "i \<in> set h"
      using h that True by (fastforce simp: history_ok_def entry_or_default_def le_max_iff_disj)
    with True i show ?thesis by (auto simp: hm_get_record_accepted)
  next
    case False
    with h i show ?thesis by (auto simp: history_ok_def)
  qed
  have last: "map_option rb_range (last_opt (pe_recent e)) =
    last_opt (ranges_of (h @ [info]) pid (pe_epoch e))"
    if g: "hm_get ?st' pid = Some e" for pid e
  proof (cases "pid = bp_producer_id info")
    case True
    with g A(3) have "pe_epoch e = bp_epoch info" by (auto simp: hm_get_record_accepted)
    with True g show ?thesis
      by (auto simp: hm_get_record_accepted trim_ring_snoc ranges_of_append ranges_of_single)
  next
    case False
    with g h show ?thesis by (simp add: history_ok_def ranges_of_append ranges_of_single)
  qed
  show ?thesis
    using cov last history_gap_free_accept [OF assms] by (simp add: history_ok_def)
qed

lemma history_fence:
  assumes h: "history_ok st h"
  shows "history_ok (fence st pid e) h"
proof -
  have empty: "ranges_of h pid ep = []" if "pe_epoch (entry_or_default st pid) < ep" for ep
  proof (rule ranges_of_empty)
    fix i assume "i \<in> set h" "bp_producer_id i = pid"
    with h that show "bp_epoch i \<noteq> ep" by (fastforce simp: history_ok_def entry_or_default_def)
  qed
  have none: "ranges_of h pid ep = []" if "hm_get st pid = None" for ep
    using h that by (intro ranges_of_empty) (fastforce simp: history_ok_def)
  show ?thesis
    using h empty none
    unfolding history_ok_def hm_get_fence
    by (fastforce simp: entry_or_default_def default_entry_def split: option.splits if_splits)
qed

lemma accepted_history:
  "history_ok st h \<Longrightarrow> (\<forall>info off. Batch info off \<in> set evs \<longrightarrow> 0 \<le> bp_epoch info) \<Longrightarrow>
   history_ok (foldl prod_step st evs) (h @ accepted st evs)"
proof (induction st evs arbitrary: h rule: accepted.induct)
  case (1 st)
  then show ?case by simp
next
  case (2 st info off evs)
  have rest: "\<forall>info off. Batch info off \<in> set evs \<longrightarrow> 0 \<le> bp_epoch info"
    using 2(3) by auto
  show ?case
  proof (cases "classify st info = Accept")
    case True
    have "history_ok (admit st info off) (h @ [info])"
      using history_accept [OF 2(2) True] 2(3) True by (simp add: admit_def)
    then have "history_ok (foldl prod_step (admit st info off) evs)
      ((h @ [info]) @ accepted (admit st info off) evs)"
      using rest by (rule 2(1))
    with True show ?thesis by simp
  next
    case False
    then have "history_ok (foldl prod_step (admit st info off) evs)
      (h @ accepted (admit st info off) evs)"
      using 2(2) rest by (intro 2(1)) (simp add: admit_def)
    with False show ?thesis by simp
  qed
next
  case (3 st pid e evs)
  with history_fence [of st h pid e] show ?case by simp
qed

section \<open>Epochs never go back\<close>

definition recorded_epoch :: "producer_states \<Rightarrow> int \<Rightarrow> int" where
  "recorded_epoch st pid = pe_epoch (entry_or_default st pid)"

lemma recorded_epoch_step: "recorded_epoch st pid \<le> recorded_epoch (prod_step st ev) pid"
proof (cases ev)
  case (Batch info off)
  then show ?thesis
    by (cases "pid = bp_producer_id info")
       (auto simp: admit_def recorded_epoch_def entry_or_default_def hm_get_record_accepted)
next
  case (Fence p e)
  then show ?thesis by (auto simp: recorded_epoch_def entry_or_default_def hm_get_fence)
qed

lemma dom_step: "hm_get st pid \<noteq> None \<Longrightarrow> hm_get (prod_step st ev) pid \<noteq> None"
  by (cases ev)
     (auto simp: admit_def hm_get_fence record_accepted_def Let_def)

definition fenced_at :: "int \<Rightarrow> int \<Rightarrow> producer_states \<Rightarrow> bool" where
  "fenced_at pid e st \<longleftrightarrow> hm_get st pid \<noteq> None \<and> e \<le> recorded_epoch st pid"

interpretation fenced: step_invariant prod_step "fenced_at pid e" for pid e
  by unfold_locales
     (meson dom_step fenced_at_def order_trans recorded_epoch_step)

lemma fenced_at_fence: "fenced_at pid e (fence st pid e)"
  by (auto simp: fenced_at_def recorded_epoch_def entry_or_default_def hm_get_fence)

lemma fenced_at_classify:
  "fenced_at (bp_producer_id info) e st \<Longrightarrow> 0 \<le> bp_producer_id info \<Longrightarrow> 0 \<le> bp_first_seq info \<Longrightarrow>
   bp_epoch info < e \<Longrightarrow> classify st info = InvalidEpoch"
  by (auto simp: fenced_at_def recorded_epoch_def entry_or_default_def classify_def
      split: option.splits)

section \<open>Retries inside the window\<close>

text \<open>
  \<open>remembers st info off k\<close>: the window of the batch's producer still holds the slot of \<open>info\<close>,
  at most \<open>k\<close> slots are newer, and no older slot has the same sequence range.
\<close>

definition remembers :: "producer_states \<Rightarrow> batch_producer_info \<Rightarrow> int \<Rightarrow> nat \<Rightarrow> bool" where
  "remembers st info off k \<longleftrightarrow> (\<exists>e pre rb post.
     hm_get st (bp_producer_id info) = Some e \<and> pe_epoch e = bp_epoch info \<and>
     pe_recent e = pre @ [rb] @ post \<and> rb_range rb = info_range info \<and> rb_base_offset rb = off \<and>
     find_duplicate pre info = None \<and> length post \<le> k)"

lemma find_duplicate_append:
  "find_duplicate (xs @ ys) info =
     (case find_duplicate xs info of Some rb \<Rightarrow> Some rb | None \<Rightarrow> find_duplicate ys info)"
  by (induction xs) (auto simp: find_duplicate_def)

lemma find_duplicate_Cons [simp]:
  "find_duplicate (rb # rbs) info =
     (if rb_range rb = info_range info then Some rb else find_duplicate rbs info)"
  by (simp add: find_duplicate_def)

lemma find_duplicate_drop: "find_duplicate xs info = None \<Longrightarrow> find_duplicate (drop n xs) info = None"
  by (auto simp: find_duplicate_def find_None_iff dest: in_set_dropD)

lemma remembers_classify:
  "remembers st info off k \<Longrightarrow> 0 \<le> bp_producer_id info \<Longrightarrow> 0 \<le> bp_first_seq info \<Longrightarrow>
   classify st info = Duplicate off"
  by (auto simp: remembers_def classify_def find_duplicate_append)

lemma remembers_accepted:
  assumes acc: "classify st info = Accept" and ep: "0 \<le> bp_epoch info"
  shows "remembers (record_accepted st info off) info off 0"
proof -
  note A = classify_Accept [OF acc ep]
  let ?rb = "\<lparr>rb_first_seq = bp_first_seq info, rb_last_seq = bp_last_seq info,
    rb_base_offset = off\<rparr>"
  have "trim_ring (window_before st info @ [?rb]) =
      drop (Suc (length (window_before st info)) - RING_SIZE) (window_before st info) @ [?rb] @ []"
    by (simp add: trim_ring_snoc)
  with A(3,4) show ?thesis
    unfolding remembers_def hm_get_record_accepted
    by (fastforce intro: find_duplicate_drop)
qed

lemma remembers_newer:
  assumes rem: "remembers st info off k" and k: "k < RING_SIZE - 1"
    and acc: "classify st i = Accept" and ep: "0 \<le> bp_epoch i"
    and pid: "bp_producer_id i = bp_producer_id info" and same: "bp_epoch i = bp_epoch info"
  shows "remembers (record_accepted st i o2) info off (Suc k)"
proof -
  obtain e pre rb post where R: "hm_get st (bp_producer_id info) = Some e"
    "pe_epoch e = bp_epoch info" "pe_recent e = pre @ [rb] @ post" "rb_range rb = info_range info"
    "rb_base_offset rb = off" "find_duplicate pre info = None" "length post \<le> k"
    using rem by (auto simp: remembers_def)
  let ?n = "Suc (length (pe_recent e)) - RING_SIZE"
  let ?rb2 = "\<lparr>rb_first_seq = bp_first_seq i, rb_last_seq = bp_last_seq i, rb_base_offset = o2\<rparr>"
  have w: "window_before st i = pe_recent e"
    using R pid same by (simp add: window_before_def entry_or_default_def)
  have "?n \<le> length pre" using R(3,7) k by (simp add: RING_SIZE_def)
  then have "trim_ring (window_before st i @ [?rb2]) = drop ?n pre @ [rb] @ (post @ [?rb2])"
    by (simp only: w trim_ring_snoc) (simp add: R(3))
  moreover have "hm_get (record_accepted st i o2) (bp_producer_id info) =
      Some \<lparr>pe_epoch = bp_epoch info, pe_recent = trim_ring (window_before st i @ [?rb2])\<rparr>"
    using hm_get_record_accepted [of st i o2] R(1,2) pid same
    by (simp add: entry_or_default_def)
  moreover have "find_duplicate (drop ?n pre) info = None" by (rule find_duplicate_drop) (rule R(6))
  ultimately show ?thesis using R(4,5,7) unfolding remembers_def by fastforce
qed

lemma remembers_other:
  "bp_producer_id i \<noteq> bp_producer_id info \<Longrightarrow>
   remembers (record_accepted st i o2) info off k = remembers st info off k"
  by (simp add: remembers_def)

lemma remembers_fence:
  "remembers st info off k \<Longrightarrow> (pid = bp_producer_id info \<longrightarrow> e \<le> bp_epoch info) \<Longrightarrow>
   remembers (fence st pid e) info off k"
proof -
  assume rem: "remembers st info off k" and e: "pid = bp_producer_id info \<longrightarrow> e \<le> bp_epoch info"
  then have "hm_get (fence st pid e) (bp_producer_id info) = hm_get st (bp_producer_id info)"
    by (auto simp: remembers_def hm_get_fence entry_or_default_def)
  with rem show ?thesis by (simp add: remembers_def)
qed

definition quiet_for :: "batch_producer_info \<Rightarrow> prod_event \<Rightarrow> bool" where
  "quiet_for info ev = (case ev of
     Batch i _ \<Rightarrow> bp_producer_id i = bp_producer_id info \<longrightarrow> bp_epoch i = bp_epoch info
   | Fence pid e \<Rightarrow> pid = bp_producer_id info \<longrightarrow> e \<le> bp_epoch info)"

definition accepted_of :: "int \<Rightarrow> producer_states \<Rightarrow> prod_event list \<Rightarrow> nat" where
  "accepted_of pid st evs = length (filter (\<lambda>i. bp_producer_id i = pid) (accepted st evs))"

lemma remembers_run:
  "remembers st info off k \<Longrightarrow> 0 \<le> bp_epoch info \<Longrightarrow> list_all (quiet_for info) evs \<Longrightarrow>
   k + accepted_of (bp_producer_id info) st evs < RING_SIZE \<Longrightarrow>
   \<exists>k'. remembers (foldl prod_step st evs) info off k'"
proof (induction st evs arbitrary: k rule: accepted.induct)
  case (1 st)
  then show ?case by auto
next
  case (2 st i o2 evs)
  show ?case
  proof (cases "classify st i = Accept \<and> bp_producer_id i = bp_producer_id info")
    case True
    with 2(4) have same: "bp_epoch i = bp_epoch info" by (simp add: quiet_for_def)
    have k: "Suc k + accepted_of (bp_producer_id info) (admit st i o2) evs < RING_SIZE"
      using 2(5) True by (simp add: accepted_of_def)
    have "remembers (admit st i o2) info off (Suc k)"
      using remembers_newer [OF 2(2)] k True same 2(3) by (simp add: admit_def)
    with 2(1) [of "Suc k"] 2(3,4) k show ?thesis by simp
  next
    case False
    have "accepted_of (bp_producer_id info) st (Batch i o2 # evs) =
        accepted_of (bp_producer_id info) (admit st i o2) evs"
      using False by (auto simp: accepted_of_def)
    moreover have "remembers (admit st i o2) info off k"
      using 2(2) False by (auto simp: admit_def remembers_other)
    ultimately show ?thesis using 2(1) [of k] 2(3-5) by simp
  qed
next
  case (3 st pid e evs)
  then have "remembers (fence st pid e) info off k"
    by (intro remembers_fence) (simp_all add: quiet_for_def)
  with 3 show ?case by (simp add: accepted_of_def)
qed

section \<open>The snapshot\<close>

lemma read_write_snapshot: "read_producer_snapshot (write_producer_snapshot st) = Some st"
proof -
  have "map (\<lambda>(f, l, b). \<lparr>rb_first_seq = f, rb_last_seq = l, rb_base_offset = b\<rparr>)
      (map (\<lambda>rb. (rb_first_seq rb, rb_last_seq rb, rb_base_offset rb)) rs) = rs" for rs
    by (induction rs) simp_all
  then show ?thesis
    by (auto simp: read_producer_snapshot_def write_producer_snapshot_def split_def comp_def
        intro!: map_idI)
qed

lemma restore_hm: "hm_wf st \<Longrightarrow> restore st = st"
  unfolding restore_def by (rule foldl_hm_insert_Nil)

section \<open>Properties\<close>

text \<open>C1: Across any interleaving of appends and fences on a fresh partition, the batches the
  classifier accepts from one producer at one epoch form a gap-free chain of sequence ranges that
  starts at sequence 0 (the 32-bit wrap included): an idempotent producer's records are neither
  lost in the middle nor reordered.\<close>

theorem accepted_batches_gap_free:
  assumes "\<forall>info off. Batch info off \<in> set evs \<longrightarrow> 0 \<le> bp_epoch info"
  shows "gap_free (ranges_of (accepted [] evs) pid ep)"
proof -
  have "history_ok [] []" by (simp add: history_ok_def ranges_of_def gap_free_def)
  then have "history_ok (foldl prod_step [] evs) ([] @ accepted [] evs)"
    using assms by (rule accepted_history)
  then show ?thesis by (simp add: history_ok_def)
qed

text \<open>C2: An accepted batch stays deduplicated while at most four newer batches of its producer
  are accepted at the same epoch and nothing bumps the epoch, whatever the other producers do: a
  retry is answered with the base offset of the first append and is not written again.\<close>

theorem retry_answers_first_offset:
  assumes acc: "classify st info = Accept" and ep: "0 \<le> bp_epoch info"
    and quiet: "list_all (quiet_for info) evs"
    and few: "accepted_of (bp_producer_id info) (admit st info off) evs < RING_SIZE"
  shows "classify (foldl prod_step (admit st info off) evs) info = Duplicate off"
proof -
  have "remembers (admit st info off) info off 0"
    using remembers_accepted [OF acc ep] acc by (simp add: admit_def)
  then obtain k where "remembers (foldl prod_step (admit st info off) evs) info off k"
    using remembers_run [of _ info off 0 evs] ep quiet few by auto
  then show ?thesis
    using classify_Accept(1,2) [OF acc ep] by (rule remembers_classify)
qed

text \<open>C3: Once a partition has been told of epoch \<open>e\<close> for a producer, no later batch of that
  producer at a lower epoch is accepted, in any order of appends and fences: it is answered with
  \<open>InvalidEpoch\<close> and the window does not change.\<close>

theorem fenced_producer_rejected:
  assumes "0 \<le> bp_producer_id info" and "0 \<le> bp_first_seq info" and "bp_epoch info < e"
  shows "let st' = foldl prod_step (fence st (bp_producer_id info) e) evs
    in classify st' info = InvalidEpoch \<and> admit st' info off = st'"
proof -
  have "fenced_at (bp_producer_id info) e (foldl prod_step (fence st (bp_producer_id info) e) evs)"
    by (rule fenced.run_keeps) (rule fenced_at_fence)
  then have "classify (foldl prod_step (fence st (bp_producer_id info) e) evs) info = InvalidEpoch"
    using assms by (rule fenced_at_classify)
  then show ?thesis by (simp add: admit_def Let_def)
qed

text \<open>In every state a fresh partition can reach, each producer has one entry, its window
  holds at most five batches and they are consecutive, and the snapshot written to disk and read
  back restores exactly this state.\<close>

theorem window_bounded_and_restored:
  "states_ok (foldl prod_step [] evs) \<and>
   map_option restore (read_producer_snapshot (write_producer_snapshot (foldl prod_step [] evs))) =
     Some (foldl prod_step [] evs)"
proof -
  have ok: "states_ok (foldl prod_step [] evs)" by (rule window.run_keeps) simp
  then show ?thesis by (simp add: read_write_snapshot restore_hm states_ok_def)
qed

subsection \<open>Witnesses\<close>

definition demo_info :: "int \<Rightarrow> int \<Rightarrow> int \<Rightarrow> int \<Rightarrow> batch_producer_info" where
  "demo_info pid ep f l = \<lparr>bp_producer_id = pid, bp_epoch = ep, bp_first_seq = f, bp_last_seq = l\<rparr>"

theorem accepted_batches_gap_free_witness:
  "let evs = [Batch (demo_info 7 0 0 4) 0, Batch (demo_info 7 0 7 9) 5, Batch (demo_info 7 0 5 6) 5,
              Fence 7 1, Batch (demo_info 7 1 0 0) 7]
   in ranges_of (accepted [] evs) 7 0 = [(0, 4), (5, 6)] \<and>
      gap_free (ranges_of (accepted [] evs) 7 0)"
proof -
  have "gap_free (ranges_of (accepted [] [Batch (demo_info 7 0 0 4) 0, Batch (demo_info 7 0 7 9) 5,
      Batch (demo_info 7 0 5 6) 5, Fence 7 1, Batch (demo_info 7 1 0 0) 7]) 7 0)"
    by (rule accepted_batches_gap_free) (auto simp: demo_info_def)
  moreover have "ranges_of (accepted [] [Batch (demo_info 7 0 0 4) 0, Batch (demo_info 7 0 7 9) 5,
      Batch (demo_info 7 0 5 6) 5, Fence 7 1, Batch (demo_info 7 1 0 0) 7]) 7 0 = [(0, 4), (5, 6)]"
    by code_simp
  ultimately show ?thesis by simp
qed

theorem retry_answers_first_offset_witness:
  "classify (foldl prod_step (admit [] (demo_info 7 0 0 4) 42)
     [Batch (demo_info 7 0 5 6) 47, Batch (demo_info 9 0 0 0) 49, Batch (demo_info 7 0 7 7) 50,
      Batch (demo_info 7 0 8 8) 51, Batch (demo_info 7 0 9 9) 52]) (demo_info 7 0 0 4) = Duplicate 42"
proof (rule retry_answers_first_offset)
  show "classify [] (demo_info 7 0 0 4) = Accept" by code_simp
  show "0 \<le> bp_epoch (demo_info 7 0 0 4)" by code_simp
  show "list_all (quiet_for (demo_info 7 0 0 4)) [Batch (demo_info 7 0 5 6) 47, Batch (demo_info 9 0 0 0) 49,
      Batch (demo_info 7 0 7 7) 50, Batch (demo_info 7 0 8 8) 51, Batch (demo_info 7 0 9 9) 52]"
    by code_simp
  show "accepted_of (bp_producer_id (demo_info 7 0 0 4)) (admit [] (demo_info 7 0 0 4) 42)
      [Batch (demo_info 7 0 5 6) 47, Batch (demo_info 9 0 0 0) 49, Batch (demo_info 7 0 7 7) 50,
       Batch (demo_info 7 0 8 8) 51, Batch (demo_info 7 0 9 9) 52] < RING_SIZE"
    by code_simp
qed

theorem fenced_producer_rejected_witness:
  "let st' = foldl prod_step (fence [] 7 2) [Batch (demo_info 7 2 0 3) 0]
   in classify st' (demo_info 7 1 0 0) = InvalidEpoch \<and> admit st' (demo_info 7 1 0 0) 4 = st'"
  using fenced_producer_rejected [of "demo_info 7 1 0 0" 2 "[]" "[Batch (demo_info 7 2 0 3) 0]" 4]
  by (simp add: demo_info_def)

end
