(* ===== verification/TxnIndex.thy ===== *)
theory TxnIndex
  imports Idempotence "HOL-Library.Multiset"
begin

text \<open>
  The per-partition transaction indexes that serve \<open>read_committed\<close> fetches
  (\<open>crates/kaas-storage/src/txn_index.rs\<close>): the first offset of every open transaction, whose
  minimum is the last stable offset, and the aborted transactions still in the log. The update an
  append makes to both (\<open>partition.rs\<close>, the gh \#176 block) is \<open>txn_index_update\<close>.

  The abstract view is the list of transactional batches the partition has appended, oldest
  first; \<open>open_since\<close> and \<open>aborted_spec\<close> read the open and the aborted transactions off that list.
\<close>

section \<open>Data and operations\<close>

record aborted_txn =
  at_producer_id :: int
  at_first_offset :: int
  at_last_offset :: int

type_synonym open_txn_index = "(int, int) hash_map"
type_synonym aborted_txn_index = "aborted_txn list"

definition record_data_batch :: "open_txn_index \<Rightarrow> int \<Rightarrow> int \<Rightarrow> open_txn_index" where
  "record_data_batch idx pid base_offset =
     (case hm_get idx pid of Some _ \<Rightarrow> idx | None \<Rightarrow> hm_insert pid base_offset idx)"

definition close_txn :: "open_txn_index \<Rightarrow> int \<Rightarrow> open_txn_index \<times> int option" where
  "close_txn idx pid = (hm_remove pid idx, hm_get idx pid)"

definition min_open_offset :: "open_txn_index \<Rightarrow> int option" where
  "min_open_offset idx = (if idx = [] then None else Some (Min (set (map snd idx))))"

definition restore_open :: "(int \<times> int) list \<Rightarrow> open_txn_index" where
  "restore_open entries = foldl (\<lambda>m (k, v). hm_insert k v m) [] entries"

text \<open>\<open>partition_point\<close> on the sorted deque: the number of leading entries below.\<close>

definition record_aborted :: "aborted_txn_index \<Rightarrow> aborted_txn \<Rightarrow> aborted_txn_index" where
  "record_aborted entries entry =
     (let pos = length (takeWhile (\<lambda>e. at_first_offset e < at_first_offset entry) entries)
      in take pos entries @ [entry] @ drop pos entries)"

definition evict_below :: "aborted_txn_index \<Rightarrow> int \<Rightarrow> aborted_txn_index" where
  "evict_below entries log_start = dropWhile (\<lambda>e. at_last_offset e < log_start) entries"

definition in_range :: "aborted_txn_index \<Rightarrow> int \<Rightarrow> int \<Rightarrow> aborted_txn list" where
  "in_range entries start end_offset =
     filter (\<lambda>e. start \<le> at_first_offset e \<and> at_first_offset e < end_offset) entries"

definition restore_aborted :: "aborted_txn list \<Rightarrow> aborted_txn_index" where
  "restore_aborted entries = foldl record_aborted [] entries"

text \<open>The index update of \<open>Partition::append\<close> for a batch written at offset \<open>assigned\<close>.\<close>

definition txn_index_update ::
  "open_txn_index \<times> aborted_txn_index \<Rightarrow> batch_txn_info option \<Rightarrow> int \<Rightarrow>
   open_txn_index \<times> aborted_txn_index" where
  "txn_index_update idx txn_info assigned =
     (case txn_info of
        None \<Rightarrow> idx
      | Some info \<Rightarrow>
          if bt_is_transactional info then
            if bt_is_control info then
              (case close_txn (fst idx) (bt_producer_id info) of
                 (open', None) \<Rightarrow> (open', snd idx)
               | (open', Some first_offset) \<Rightarrow>
                   (open', if bt_control_commit info = Some False
                           then record_aborted (snd idx)
                                  \<lparr>at_producer_id = bt_producer_id info,
                                   at_first_offset = first_offset, at_last_offset = assigned\<rparr>
                           else snd idx))
            else (record_data_batch (fst idx) (bt_producer_id info) assigned, snd idx)
          else idx)"

section \<open>The abstract history\<close>

type_synonym txn_history = "(batch_txn_info option \<times> int) list"

definition is_data :: "int \<Rightarrow> batch_txn_info option \<times> int \<Rightarrow> bool" where
  "is_data pid ev = (case fst ev of None \<Rightarrow> False | Some info \<Rightarrow>
     bt_is_transactional info \<and> \<not> bt_is_control info \<and> bt_producer_id info = pid)"

definition is_marker :: "int \<Rightarrow> batch_txn_info option \<times> int \<Rightarrow> bool" where
  "is_marker pid ev = (case fst ev of None \<Rightarrow> False | Some info \<Rightarrow>
     bt_is_transactional info \<and> bt_is_control info \<and> bt_producer_id info = pid)"

definition is_abort :: "batch_txn_info option \<times> int \<Rightarrow> bool" where
  "is_abort ev = (case fst ev of None \<Rightarrow> False | Some info \<Rightarrow> bt_control_commit info = Some False)"

text \<open>The first data batch of \<open>pid\<close> with no marker of \<open>pid\<close> after it.\<close>

definition open_since :: "txn_history \<Rightarrow> int \<Rightarrow> int option" where
  "open_since h pid =
     map_option snd (find (is_data pid) (rev (takeWhile (\<lambda>ev. \<not> is_marker pid ev) (rev h))))"

definition run_index :: "txn_history \<Rightarrow> open_txn_index \<times> aborted_txn_index" where
  "run_index h = foldl (\<lambda>idx (info, off). txn_index_update idx info off) ([], []) h"

text \<open>The transactions the history aborted: an abort marker that ends an open transaction.\<close>

definition aborted_spec :: "txn_history \<Rightarrow> aborted_txn set" where
  "aborted_spec h = {t. \<exists>h1 ev h2. h = h1 @ [ev] @ h2 \<and> is_marker (at_producer_id t) ev \<and>
     is_abort ev \<and> open_since h1 (at_producer_id t) = Some (at_first_offset t) \<and>
     at_last_offset t = snd ev}"

lemma run_index_snoc: "run_index (h @ [(info, off)]) = txn_index_update (run_index h) info off"
  by (simp add: run_index_def)

lemma run_index_Nil [simp]: "run_index [] = ([], [])"
  by (simp add: run_index_def)

lemma open_since_Nil [simp]: "open_since [] pid = None"
  by (simp add: open_since_def)

lemma find_snoc: "find P (xs @ [x]) = (case find P xs of Some y \<Rightarrow> Some y
   | None \<Rightarrow> if P x then Some x else None)"
  by (induction xs) auto

lemma open_since_snoc:
  "open_since (h @ [ev]) pid =
     (if is_marker pid ev then None
      else case open_since h pid of Some off \<Rightarrow> Some off
        | None \<Rightarrow> if is_data pid ev then Some (snd ev) else None)"
  by (auto simp: open_since_def find_snoc split: option.splits)

lemma marker_not_data: "is_marker pid ev \<Longrightarrow> \<not> is_data pid' ev"
  by (auto simp: is_marker_def is_data_def split: option.splits)

section \<open>The open index refines the history\<close>

lemma open_wf: "hm_wf (fst (run_index h))"
proof (induction h rule: rev_induct)
  case (snoc ev h)
  obtain info off where ev: "ev = (info, off)" by (cases ev)
  from snoc show ?case
    by (auto simp: ev run_index_snoc txn_index_update_def record_data_batch_def close_txn_def
        split: option.splits)
qed simp

lemma open_index_refines: "hm_get (fst (run_index h)) pid = open_since h pid"
proof (induction h arbitrary: pid rule: rev_induct)
  case (snoc ev h)
  obtain info off where ev: "ev = (info, off)" by (cases ev)
  show ?case
    by (auto simp: ev run_index_snoc txn_index_update_def record_data_batch_def close_txn_def
        open_since_snoc snoc is_data_def is_marker_def split: option.splits)
qed simp

lemma min_open_offset_Some:
  assumes "hm_wf idx"
  shows "min_open_offset idx = Some m \<longleftrightarrow>
    (\<exists>pid. hm_get idx pid = Some m) \<and> (\<forall>pid off. hm_get idx pid = Some off \<longrightarrow> m \<le> off)"
proof -
  have mem: "off \<in> set (map snd idx) \<longleftrightarrow> (\<exists>pid. hm_get idx pid = Some off)" for off
    using hm_get_iff_mem [OF assms] by force
  have "min_open_offset idx = Some m \<longleftrightarrow> idx \<noteq> [] \<and> Min (set (map snd idx)) = m"
    by (simp add: min_open_offset_def)
  also have "\<dots> \<longleftrightarrow> m \<in> set (map snd idx) \<and> (\<forall>off \<in> set (map snd idx). m \<le> off)"
  proof (cases "idx = []")
    case False
    then have "set (map snd idx) \<noteq> {}" by simp
    with False show ?thesis using Min_eq_iff [OF List.finite_set] by metis
  qed simp
  also have "\<dots> \<longleftrightarrow>
      (\<exists>pid. hm_get idx pid = Some m) \<and> (\<forall>pid off. hm_get idx pid = Some off \<longrightarrow> m \<le> off)"
    unfolding Ball_def mem by blast
  finally show ?thesis .
qed

lemma min_open_offset_None: "min_open_offset idx = None \<longleftrightarrow> (\<forall>pid. hm_get idx pid = None)"
  by (cases idx) (auto simp: min_open_offset_def)

section \<open>The aborted index refines the history\<close>

lemma set_record_aborted: "set (record_aborted es e) = insert e (set es)"
proof -
  have "set es = set (take n es) \<union> set (drop n es)" for n
    by (metis append_take_drop_id set_append)
  then show ?thesis by (auto simp: record_aborted_def Let_def)
qed

lemma sorted_record_aborted:
  assumes "sorted (map at_first_offset es)"
  shows "sorted (map at_first_offset (record_aborted es e))"
proof -
  let ?P = "\<lambda>x. at_first_offset x < at_first_offset e"
  let ?t = "takeWhile ?P es" and ?d = "dropWhile ?P es"
  have split: "take (length ?t) es = ?t" "drop (length ?t) es = ?d"
    by (metis takeWhile_eq_take) (metis dropWhile_eq_drop)
  have s: "sorted (map at_first_offset ?t)" "sorted (map at_first_offset ?d)"
      "\<forall>x \<in> set ?t. \<forall>y \<in> set ?d. at_first_offset x \<le> at_first_offset y"
    using assms takeWhile_dropWhile_id [of ?P es]
    by (metis map_append sorted_append, metis map_append sorted_append)
      (metis (mono_tags, lifting) assms image_eqI list.set_map map_append sorted_append
        takeWhile_dropWhile_id)
  have lo: "at_first_offset x \<le> at_first_offset e" if "x \<in> set ?t" for x
    using that by (auto dest: set_takeWhileD)
  have hi: "at_first_offset e \<le> at_first_offset x" if "x \<in> set ?d" for x
  proof -
    from that obtain y ys where d: "?d = y # ys" by (cases ?d) auto
    then have "\<not> ?P y" by (metis hd_dropWhile list.distinct(1) list.sel(1))
    moreover have "at_first_offset y \<le> at_first_offset x"
      using s(2) that d by auto
    ultimately show ?thesis by simp
  qed
  show ?thesis
    using s lo hi by (auto simp: record_aborted_def Let_def split sorted_append)
qed

lemma aborted_index_sorted: "sorted (map at_first_offset (snd (run_index h)))"
proof (induction h rule: rev_induct)
  case (snoc ev h)
  obtain info off where ev: "ev = (info, off)" by (cases ev)
  from snoc show ?case
    by (auto simp: ev run_index_snoc txn_index_update_def close_txn_def sorted_record_aborted
        split: option.splits)
qed simp

lemma aborted_spec_snoc:
  "aborted_spec (h @ [ev]) = aborted_spec h \<union>
     {t. is_marker (at_producer_id t) ev \<and> is_abort ev \<and>
         open_since h (at_producer_id t) = Some (at_first_offset t) \<and> at_last_offset t = snd ev}"
proof -
  have "h @ [ev] = h1 @ [e] @ h2 \<longleftrightarrow> (h2 = [] \<and> h1 = h \<and> e = ev) \<or>
      (\<exists>h2'. h2 = h2' @ [ev] \<and> h = h1 @ [e] @ h2')" for h1 e h2
    by (cases h2 rule: rev_cases) auto
  then show ?thesis unfolding aborted_spec_def by (simp only:) blast
qed

lemma aborted_spec_Nil [simp]: "aborted_spec [] = {}"
  by (simp add: aborted_spec_def)

lemma aborted_index_refines: "set (snd (run_index h)) = aborted_spec h"
proof (induction h rule: rev_induct)
  case (snoc ev h)
  obtain info off where ev: "ev = (info, off)" by (cases ev)
  show ?case
    by (auto simp: ev run_index_snoc txn_index_update_def close_txn_def snoc aborted_spec_snoc
        set_record_aborted is_marker_def is_abort_def open_index_refines [symmetric]
        split: option.splits)
qed simp

section \<open>The snapshot file\<close>

record txn_index_snapshot =
  ts_version :: int
  ts_open :: "(int \<times> int) list"
  ts_aborted :: "(int \<times> int \<times> int) list"

definition TXN_INDEX_SNAPSHOT_VERSION :: int where
  "TXN_INDEX_SNAPSHOT_VERSION = 1"

definition write_txn_index_snapshot ::
  "open_txn_index \<Rightarrow> aborted_txn_index \<Rightarrow> txn_index_snapshot" where
  "write_txn_index_snapshot open_ents aborted =
     \<lparr>ts_version = TXN_INDEX_SNAPSHOT_VERSION, ts_open = open_ents,
      ts_aborted = map (\<lambda>a. (at_producer_id a, at_first_offset a, at_last_offset a)) aborted\<rparr>"

definition read_txn_index_snapshot ::
  "txn_index_snapshot \<Rightarrow> ((int \<times> int) list \<times> aborted_txn list) option" where
  "read_txn_index_snapshot snap =
     (if ts_version snap \<noteq> TXN_INDEX_SNAPSHOT_VERSION then None
      else Some (ts_open snap,
        map (\<lambda>(p, f, l). \<lparr>at_producer_id = p, at_first_offset = f, at_last_offset = l\<rparr>)
          (ts_aborted snap)))"

lemma read_write_txn_index_snapshot:
  "read_txn_index_snapshot (write_txn_index_snapshot o1 a1) = Some (o1, a1)"
  by (auto simp: read_txn_index_snapshot_def write_txn_index_snapshot_def intro!: map_idI)

lemma mset_record_aborted: "mset (record_aborted es e) = add_mset e (mset es)"
proof -
  have "mset es = mset (take n es) + mset (drop n es)" for n
    by (metis append_take_drop_id mset_append)
  then show ?thesis by (simp add: record_aborted_def Let_def)
qed

lemma mset_restore_aborted: "mset (restore_aborted es) = mset es"
proof -
  have "mset (foldl record_aborted acc es) = mset acc + mset es" for acc
    by (induction es arbitrary: acc) (simp_all add: mset_record_aborted)
  then show ?thesis by (simp add: restore_aborted_def)
qed

lemma sorted_restore_aborted: "sorted (map at_first_offset (restore_aborted es))"
proof -
  have "sorted (map at_first_offset acc) \<Longrightarrow>
      sorted (map at_first_offset (foldl record_aborted acc es))" for acc
    by (induction es arbitrary: acc) (simp_all add: sorted_record_aborted)
  from this [of "[]"] show ?thesis by (simp add: restore_aborted_def)
qed

lemma restore_open_same: "hm_wf es \<Longrightarrow> restore_open es = es"
  by (simp add: restore_open_def foldl_hm_insert_Nil)

section \<open>Undecided batches\<close>

text \<open>A data batch of \<open>pid\<close> that no later marker of \<open>pid\<close> has decided.\<close>

definition undecided :: "txn_history \<Rightarrow> int \<Rightarrow> batch_txn_info option \<times> int \<Rightarrow> bool" where
  "undecided h pid ev \<longleftrightarrow> (\<exists>h1 h2. h = h1 @ [ev] @ h2 \<and> is_data pid ev \<and>
     (\<forall>m \<in> set h2. \<not> is_marker pid m))"

lemma undecided_Nil [simp]: "\<not> undecided [] pid ev"
  by (simp add: undecided_def)

lemma undecided_snoc:
  "undecided (h @ [e]) pid ev \<longleftrightarrow>
     ev = e \<and> is_data pid ev \<or> undecided h pid ev \<and> \<not> is_marker pid e"
proof
  assume "undecided (h @ [e]) pid ev"
  then obtain h1 h2 where h: "h @ [e] = h1 @ [ev] @ h2" and d: "is_data pid ev"
    and m: "\<forall>m \<in> set h2. \<not> is_marker pid m"
    by (auto simp: undecided_def)
  show "ev = e \<and> is_data pid ev \<or> undecided h pid ev \<and> \<not> is_marker pid e"
  proof (cases h2 rule: rev_cases)
    case Nil
    with h d show ?thesis by simp
  next
    case (snoc h2' e')
    with h d m show ?thesis by (auto simp: undecided_def)
  qed
next
  assume "ev = e \<and> is_data pid ev \<or> undecided h pid ev \<and> \<not> is_marker pid e"
  then show "undecided (h @ [e]) pid ev"
  proof
    assume "ev = e \<and> is_data pid ev"
    then have "h @ [e] = h @ [ev] @ []" "is_data pid ev" "\<forall>m \<in> set []. \<not> is_marker pid m"
      by auto
    then show ?thesis unfolding undecided_def by blast
  next
    assume "undecided h pid ev \<and> \<not> is_marker pid e"
    then obtain h1 h2 where "h = h1 @ [ev] @ h2" "is_data pid ev"
      "\<forall>m \<in> set h2. \<not> is_marker pid m" "\<not> is_marker pid e"
      by (auto simp: undecided_def)
    then show ?thesis
      unfolding undecided_def by (intro exI [of _ h1] exI [of _ "h2 @ [e]"]) auto
  qed
qed

lemma open_since_undecided:
  "open_since h pid = Some off \<Longrightarrow> \<exists>ev. undecided h pid ev \<and> snd ev = off"
  by (induction h rule: rev_induct)
    (auto simp: open_since_snoc undecided_snoc dest: marker_not_data
      split: if_splits option.splits)

lemma open_since_none: "open_since h pid = None \<Longrightarrow> \<not> undecided h pid ev"
  by (induction h rule: rev_induct)
    (auto simp: open_since_snoc undecided_snoc dest: marker_not_data
      split: if_splits option.splits)

lemma open_since_le:
  assumes "sorted (map snd h)" "undecided h pid ev" "open_since h pid = Some off"
  shows "off \<le> snd ev"
  using assms
proof (induction h arbitrary: off rule: rev_induct)
  case (snoc e h)
  have mem: "off' \<in> snd ` set h" if "open_since h pid = Some off'" for off'
    using open_since_undecided [OF that] by (auto simp: undecided_def)
  from snoc show ?case
    by (auto simp: open_since_snoc undecided_snoc sorted_append dest: mem open_since_none
        split: if_splits option.splits)
qed simp

lemma aborted_spec_ordered:
  assumes "sorted (map snd h)" "t \<in> aborted_spec h"
  shows "at_first_offset t \<le> at_last_offset t"
proof -
  from assms(2) obtain h1 ev h2 where h: "h = h1 @ [ev] @ h2"
    and o: "open_since h1 (at_producer_id t) = Some (at_first_offset t)"
    and l: "at_last_offset t = snd ev"
    by (auto simp: aborted_spec_def)
  from open_since_undecided [OF o] obtain d where "d \<in> set h1" "snd d = at_first_offset t"
    unfolding undecided_def by (metis append_Cons in_set_conv_decomp)
  with assms(1) h l show ?thesis by (auto simp: sorted_append)
qed

lemma in_range_evict:
  assumes "\<forall>t \<in> set es. at_first_offset t \<le> at_last_offset t" "log_start \<le> start"
  shows "in_range (evict_below es log_start) start e = in_range es start e"
  using assms(1)
proof (induction es)
  case (Cons t es)
  with assms(2) show ?case by (auto simp: in_range_def evict_below_def)
qed (simp add: evict_below_def)

section \<open>Properties\<close>

text \<open>C38: the last stable offset. With the offsets of the appended batches in order, every
  transactional data batch below the minimum of the open index has been decided by a marker of
  its producer appended after it, and the batch at the minimum itself is undecided; with no open
  entry no batch of any producer is undecided.\<close>

theorem last_stable_offset_decides:
  assumes "sorted (map snd h)"
  shows "case min_open_offset (fst (run_index h)) of
      None \<Rightarrow> \<forall>pid ev. \<not> undecided h pid ev
    | Some lso \<Rightarrow> (\<forall>pid ev. snd ev < lso \<longrightarrow> \<not> undecided h pid ev) \<and>
        (\<exists>pid ev. snd ev = lso \<and> undecided h pid ev)"
proof (cases "min_open_offset (fst (run_index h))")
  case None
  then have "\<forall>pid ev. \<not> undecided h pid ev"
    using open_since_none by (simp add: min_open_offset_None open_index_refines)
  then show ?thesis by (simp add: None)
next
  case (Some lso)
  then have lso: "\<exists>pid. open_since h pid = Some lso"
      "\<And>pid off. open_since h pid = Some off \<Longrightarrow> lso \<le> off"
    by (auto simp: min_open_offset_Some [OF open_wf] open_index_refines)
  have "\<not> undecided h pid ev" if "snd ev < lso" for pid ev
    using that lso(2) [of pid] open_since_le [OF assms, of pid ev] open_since_none [of h pid ev]
    by (cases "open_since h pid") fastforce+
  moreover have "\<exists>pid ev. snd ev = lso \<and> undecided h pid ev"
    using lso(1) open_since_undecided by blast
  ultimately show ?thesis by (simp add: Some)
qed

text \<open>C39: the aborted index holds exactly the transactions the log has aborted (an abort marker
  closing an open transaction, from the transaction's first data batch to its marker), sorted by
  first offset.\<close>

theorem aborted_index_exact:
  "set (snd (run_index h)) = aborted_spec h \<and> sorted (map at_first_offset (snd (run_index h)))"
  by (simp add: aborted_index_refines aborted_index_sorted)

text \<open>trimming the aborted index when the log start advances is invisible: a fetch from any
  offset at or past the new log start gets the same aborted transactions as before the trim.\<close>

theorem eviction_invisible_to_fetch:
  assumes "sorted (map snd h)" "log_start \<le> start"
  shows "in_range (evict_below (snd (run_index h)) log_start) start end_offset =
    in_range (snd (run_index h)) start end_offset"
  using assms aborted_spec_ordered [OF assms(1)]
  by (intro in_range_evict) (auto simp: aborted_index_refines)

text \<open>both indexes survive a restart. Reading back the snapshot gives a last stable offset
  and, for every range, the aborted transactions (up to the order of equal first offsets) that
  the indexes gave before it was written; the restored aborted index is sorted.\<close>

theorem txn_indexes_survive_restart:
  "case read_txn_index_snapshot (write_txn_index_snapshot (fst (run_index h)) (snd (run_index h)))
   of None \<Rightarrow> False
    | Some (o1, a1) \<Rightarrow>
        min_open_offset (restore_open o1) = min_open_offset (fst (run_index h)) \<and>
        mset (in_range (restore_aborted a1) start end_offset) =
          mset (in_range (snd (run_index h)) start end_offset) \<and>
        sorted (map at_first_offset (restore_aborted a1))"
  by (simp add: read_write_txn_index_snapshot case_prod_beta restore_open_same open_wf in_range_def
      mset_restore_aborted sorted_restore_aborted)

section \<open>Witnesses\<close>

definition txn_data :: "int \<Rightarrow> batch_txn_info option" where
  "txn_data pid = Some \<lparr>bt_is_transactional = True, bt_is_control = False, bt_producer_id = pid,
     bt_control_commit = None\<rparr>"

definition txn_marker :: "int \<Rightarrow> bool \<Rightarrow> batch_txn_info option" where
  "txn_marker pid commit = Some \<lparr>bt_is_transactional = True, bt_is_control = True,
     bt_producer_id = pid, bt_control_commit = Some commit\<rparr>"

definition demo_history :: txn_history where
  "demo_history = [(txn_data 7, 0), (None, 3), (txn_data 9, 4), (txn_marker 7 False, 6),
     (txn_data 7, 8)]"


lemma demo_sorted: "sorted (map snd demo_history)"
  by code_simp

theorem last_stable_offset_decides_witness:
  "min_open_offset (fst (run_index demo_history)) = Some 4 \<and> \<not> undecided demo_history 7 (txn_data 7, 0)"
proof -
  have m: "min_open_offset (fst (run_index demo_history)) = Some 4" by code_simp
  with last_stable_offset_decides [OF demo_sorted] show ?thesis by simp
qed

theorem eviction_invisible_to_fetch_witness:
  "length (snd (run_index demo_history)) = 1 \<and>
   in_range (evict_below (snd (run_index demo_history)) 7) 8 20 =
   in_range (snd (run_index demo_history)) 8 20"
proof -
  have "length (snd (run_index demo_history)) = 1" by code_simp
  with eviction_invisible_to_fetch [OF demo_sorted, of 7 8 20] show ?thesis by simp
qed

end
