(* ===== verification/Manifest.thy ===== *)
theory Manifest
  imports Segment TxnIndex "HOL-Library.Option_ord"
begin

text \<open>
  The metadata files of a partition directory and the manifest
  (\<open>crates/kaas-storage/src/manifest.rs\<close>, \<open>atomic_write.rs\<close>, \<open>recovery_checkpoint.rs\<close>). A JSON
  file is absent, unparseable or a value; \<open>atomic_write_json\<close> (write to a temporary file, fsync,
  rename) either installs the whole new value or leaves the old one. The epoch in the manifest is
  the durable seed of the append fence: \<open>write_unless_superseded\<close> is interpreted as a
  \<open>fenced_store\<close>.
\<close>

section \<open>The partition directory\<close>

datatype 'a json_file = Absent | Corrupt | Json 'a

record manifest =
  mf_epoch :: int
  mf_high_watermark :: int
  mf_log_start_offset :: int

record recovery_checkpoint =
  rc_segment_base :: int
  rc_byte_pos :: int
  rc_high_watermark :: int

record part_dir =
  pd_files :: file_store
  pd_manifest :: "manifest json_file"
  pd_legacy_epoch :: "bytes option"
  pd_producer_snapshot :: "producer_snapshot json_file"
  pd_txn_snapshot :: "txn_index_snapshot json_file"
  pd_checkpoint :: "recovery_checkpoint json_file"

datatype read_result = NotFound | Present manifest | Legacy manifest

datatype manifest_error = Mf_io | Mf_json | LegacyEpochTruncated

section \<open>Operations\<close>

definition read_legacy_epoch :: "part_dir \<Rightarrow> manifest_error + manifest option" where
  "read_legacy_epoch dir =
     (case pd_legacy_epoch dir of
        None \<Rightarrow> Inr None
      | Some buf \<Rightarrow>
          if length buf < 8 then Inl LegacyEpochTruncated
          else Inr (Some \<lparr>mf_epoch = be_i64 (slice 0 8 buf), mf_high_watermark = 0,
                         mf_log_start_offset = 0\<rparr>))"

definition manifest_read :: "io_env \<Rightarrow> part_dir \<Rightarrow> manifest_error + read_result" where
  "manifest_read io dir =
     (if io_fails io Read_manifest then Inl Mf_io
      else case pd_manifest dir of
        Json m \<Rightarrow> Inr (Present m)
      | Corrupt \<Rightarrow> Inl Mf_json
      | Absent \<Rightarrow>
          (case read_legacy_epoch dir of
             Inl e \<Rightarrow> Inl e
           | Inr (Some m) \<Rightarrow> Inr (Legacy m)
           | Inr None \<Rightarrow> Inr NotFound))"

definition write_unchecked ::
  "io_env \<Rightarrow> part_dir \<Rightarrow> manifest \<Rightarrow> (manifest_error + unit) \<times> part_dir" where
  "write_unchecked io dir m =
     (if io_fails io Write_manifest then (Inl Mf_io, dir)
      else (Inr (),
        dir\<lparr>pd_manifest := Json m,
            pd_legacy_epoch := if io_fails io Remove_file then pd_legacy_epoch dir else None\<rparr>))"

definition write_unless_superseded ::
  "io_env \<Rightarrow> part_dir \<Rightarrow> manifest \<Rightarrow> (manifest_error + int) \<times> part_dir" where
  "write_unless_superseded io dir m =
     (case manifest_read io dir of
        Inr (Present on_disk) \<Rightarrow>
          if mf_epoch on_disk > mf_epoch m then (Inr (mf_epoch on_disk), dir)
          else if on_disk = m then (Inr (mf_epoch m), dir)
          else (case write_unchecked io dir m of
              (Inl e, dir') \<Rightarrow> (Inl e, dir') | (Inr _, dir') \<Rightarrow> (Inr (mf_epoch m), dir'))
      | _ \<Rightarrow> (case write_unchecked io dir m of
              (Inl e, dir') \<Rightarrow> (Inl e, dir') | (Inr _, dir') \<Rightarrow> (Inr (mf_epoch m), dir')))"

definition checkpoint_read :: "io_env \<Rightarrow> part_dir \<Rightarrow> recovery_checkpoint option" where
  "checkpoint_read io dir =
     (case pd_checkpoint dir of
        Json cp \<Rightarrow> if io_fails io Open_read then None else Some cp
      | _ \<Rightarrow> None)"

definition checkpoint_write :: "io_env \<Rightarrow> part_dir \<Rightarrow> recovery_checkpoint \<Rightarrow> part_dir" where
  "checkpoint_write io dir cp =
     (if io_fails io Write_checkpoint then dir else dir\<lparr>pd_checkpoint := Json cp\<rparr>)"

section \<open>The manifest as a fenced store\<close>

definition manifest_stamp :: "part_dir \<Rightarrow> int option" where
  "manifest_stamp dir = (case pd_manifest dir of Json m \<Rightarrow> Some (mf_epoch m) | _ \<Rightarrow> None)"

definition manifest_put :: "int option \<Rightarrow> int \<times> int \<Rightarrow> part_dir \<Rightarrow> part_dir" where
  "manifest_put t v dir =
     (case t of
        None \<Rightarrow> dir
      | Some e \<Rightarrow>
          snd (write_unless_superseded healthy_io dir
            \<lparr>mf_epoch = e, mf_high_watermark = fst v, mf_log_start_offset = snd v\<rparr>))"

lemma write_readable:
  assumes "\<not> io_fails io Read_manifest"
  shows "write_unless_superseded io dir m =
    (if Some (mf_epoch m) < manifest_stamp dir then (Inr (the (manifest_stamp dir)), dir)
     else if pd_manifest dir = Json m then (Inr (mf_epoch m), dir)
     else if io_fails io Write_manifest then (Inl Mf_io, dir)
     else (Inr (mf_epoch m), snd (write_unchecked io dir m)))"
  using assms
  by (cases "pd_manifest dir")
    (auto simp: write_unless_superseded_def manifest_read_def manifest_stamp_def
      write_unchecked_def split: sum.splits option.splits)

lemma manifest_stamp_written [simp]:
  "\<not> io_fails io Write_manifest \<Longrightarrow>
   manifest_stamp (snd (write_unchecked io dir m)) = Some (mf_epoch m)"
  by (simp add: write_unchecked_def manifest_stamp_def)

lemma manifest_stamp_Json: "pd_manifest dir = Json m \<Longrightarrow> manifest_stamp dir = Some (mf_epoch m)"
  by (simp add: manifest_stamp_def)

interpretation manifest_fence: fenced_store manifest_stamp manifest_put
proof
  show "manifest_put t v dir = dir" if "t < manifest_stamp dir" for t v dir
    using that by (cases t) (simp_all add: manifest_put_def write_readable healthy_io_def)
  show "manifest_stamp (manifest_put t v dir) = t" if "manifest_stamp dir \<le> t" for t v dir
  proof (cases t)
    case None
    with that show ?thesis by (cases "manifest_stamp dir") (simp_all add: manifest_put_def)
  next
    case (Some e)
    with that show ?thesis
      by (auto simp: manifest_put_def write_readable healthy_io_def manifest_stamp_Json)
  qed
qed

text \<open>Several brokers writing the manifest one after the other, each with its own view.\<close>

definition manifest_writers :: "part_dir \<Rightarrow> manifest list \<Rightarrow> part_dir" where
  "manifest_writers dir ms = foldl (\<lambda>d m. snd (write_unless_superseded healthy_io d m)) dir ms"

lemma manifest_writers_puts:
  "manifest_writers dir ms =
   foldl (\<lambda>d (t, v). manifest_put t v d) dir
     (map (\<lambda>m. (Some (mf_epoch m), (mf_high_watermark m, mf_log_start_offset m))) ms)"
proof -
  have "snd (write_unless_superseded healthy_io d m) =
      manifest_put (Some (mf_epoch m)) (mf_high_watermark m, mf_log_start_offset m) d" for d m
    by (cases m) (simp add: manifest_put_def)
  then show ?thesis by (induction ms arbitrary: dir) (simp_all add: manifest_writers_def)
qed

section \<open>Properties\<close>


text \<open>The guard reads the manifest first; when that read fails, the write goes through whatever
  epoch is on disk.\<close>

lemma unreadable_manifest_lowered:
  assumes "io_fails io Read_manifest" "\<not> io_fails io Write_manifest"
  shows "manifest_stamp (snd (write_unless_superseded io dir m)) = Some (mf_epoch m)"
  using assms by (simp add: write_unless_superseded_def manifest_read_def write_unchecked_def
      manifest_stamp_def)

section \<open>Witnesses\<close>

definition demo_manifest :: "int \<Rightarrow> int \<Rightarrow> manifest" where
  "demo_manifest e h = \<lparr>mf_epoch = e, mf_high_watermark = h, mf_log_start_offset = 0\<rparr>"

definition demo_dir :: "int \<Rightarrow> part_dir" where
  "demo_dir e = \<lparr>pd_files = [], pd_manifest = Json (demo_manifest e 10), pd_legacy_epoch = None,
     pd_producer_snapshot = Absent, pd_txn_snapshot = Absent, pd_checkpoint = Absent\<rparr>"


end
