(* ===== verification/Partition.thy ===== *)
theory Partition
  imports Manifest
begin

text \<open>
  The partition (\<open>crates/kaas-storage/src/partition.rs\<close>): the state behind the partition mutex, the
  snapshot published for lock-free readers, and the operations that run under the lock: append,
  read, delete-records, take-over, persist, close, open with recovery, the committer cycle, the
  re-arm of a stalled partition and the two retention targets. An operation gets the I/O
  environment of its calls and returns its result with the new directory and the new partition;
  the asynchronous wrapping (locks, tasks, timers) is the interleaving of these steps.
\<close>

section \<open>State\<close>

datatype storage_error =
    EpochMismatch | OutOfOrderSequence | InvalidProducerEpoch | DuplicateSequence | Stalled
  | UnknownTopicOrPartition | OffsetOutOfRange | Closed | Migrating | StaleTopicDir
  | Unsupported | UnknownSchemaVersion int | StorageIo io_error | StorageJson | Panic

record partition_config =
  pc_segment_bytes :: nat
  pc_segment_ms :: "nat option"
  pc_index_interval_bytes :: nat
  pc_flush_interval_messages :: int

record read_snapshot_state =
  rs_high_water :: int
  rs_log_start :: int
  rs_epoch :: int
  rs_closed :: "segment_meta list"
  rs_active_meta :: segment_meta

record partition_inner =
  pi_active :: active_segment
  pi_closed :: "segment_meta list"
  pi_log_start :: int
  pi_high_water :: int
  pi_epoch :: int
  pi_pending_flush_records :: int
  pi_last_checkpoint_byte :: int
  pi_requested_flush_seq :: nat
  pi_completed_flush_seq :: nat
  pi_flush_err :: "storage_error option"
  pi_producer_states :: "(int, producer_entry) hash_map"
  pi_open_txns :: open_txn_index
  pi_aborted_txns :: aborted_txn_index

record partition =
  p_inner :: partition_inner
  p_snapshot :: read_snapshot_state
  p_cfg :: partition_config
  p_committer :: bool

definition snapshot_of :: "partition_inner \<Rightarrow> read_snapshot_state" where
  "snapshot_of g =
     \<lparr>rs_high_water = pi_high_water g, rs_log_start = pi_log_start g, rs_epoch = pi_epoch g,
      rs_closed = pi_closed g, rs_active_meta = as_meta (pi_active g)\<rparr>"

definition publish :: "partition \<Rightarrow> partition_inner \<Rightarrow> partition" where
  "publish p g = p\<lparr>p_inner := g, p_snapshot := snapshot_of g\<rparr>"

section \<open>Reading\<close>

fun read_closed ::
  "io_env \<Rightarrow> file_store \<Rightarrow> int \<Rightarrow> nat \<Rightarrow> int \<Rightarrow> segment_meta list \<Rightarrow> bytes \<Rightarrow> storage_error + bytes"
where
  "read_closed io fs active_base max_bytes start [] acc = Inr acc"
| "read_closed io fs active_base max_bytes start (seg # segs) acc =
     (if max_bytes \<le> length acc then Inr acc
      else
        let next_base = (case segs of [] \<Rightarrow> active_base | n # _ \<Rightarrow> sm_base_offset n) in
        if next_base \<le> start then read_closed io fs active_base max_bytes start segs acc
        else
          let pos = search_index io fs (sm_index_path seg) (sm_base_offset seg) start in
          case read_batches io fs (sm_log_path seg) pos start (max_bytes - length acc) of
            Inl e \<Rightarrow> Inl (StorageIo e)
          | Inr chunk \<Rightarrow> read_closed io fs active_base max_bytes start segs (acc @ chunk))"

definition read_snapshot ::
  "io_env \<Rightarrow> file_store \<Rightarrow> read_snapshot_state \<Rightarrow> int \<Rightarrow> nat \<Rightarrow> storage_error + bytes" where
  "read_snapshot io fs snap start_offset max_bytes =
     (let effective_start = max start_offset (rs_log_start snap);
          active = rs_active_meta snap in
      case read_closed io fs (sm_base_offset active) max_bytes effective_start (rs_closed snap) [] of
        Inl e \<Rightarrow> Inl e
      | Inr acc \<Rightarrow>
          if length acc < max_bytes then
            let pos = search_index io fs (sm_index_path active) (sm_base_offset active) effective_start in
            case read_batches io fs (sm_log_path active) pos effective_start (max_bytes - length acc) of
              Inl e \<Rightarrow> Inl (StorageIo e)
            | Inr chunk \<Rightarrow> Inr (take max_bytes (acc @ chunk))
          else Inr (take max_bytes acc))"

definition partition_read ::
  "io_env \<Rightarrow> part_dir \<Rightarrow> partition \<Rightarrow> int \<Rightarrow> nat \<Rightarrow> storage_error + bytes" where
  "partition_read io dir p start_offset max_bytes =
     read_snapshot io (pd_files dir) (p_snapshot p) start_offset max_bytes"

section \<open>Appending\<close>

text \<open>The placeholder that stands in for the active segment while it is being rolled.\<close>

definition placeholder_segment :: active_segment where
  "placeholder_segment = open_meta_only
     \<lparr>sm_base_offset = 0, sm_epoch = 0, sm_size = 0, sm_log_path = ''_placeholder.log'',
      sm_index_path = ''_placeholder.index'', sm_max_timestamp = UNKNOWN_MAX_TIMESTAMP\<rparr>"

text \<open>The roll decision: the size arm, then (only if it did not decide) the age arm, and only for
  a segment that holds bytes.\<close>

definition roll_due ::
  "io_env \<Rightarrow> partition_config \<Rightarrow> active_segment \<Rightarrow> nat \<Rightarrow> bool \<times> active_segment" where
  "roll_due io cfg active batch_len =
     (let too_big = pc_segment_bytes cfg < sat_u64 (as_log_size active + batch_len) in
      if too_big then (0 < as_log_size active, active)
      else case pc_segment_ms cfg of
        None \<Rightarrow> (False, active)
      | Some ms \<Rightarrow>
          (case age_ms io active of
             (active', age) \<Rightarrow> (ms \<le> age \<and> 0 < as_log_size active', active')))"

definition rebase :: "int \<Rightarrow> bytes \<Rightarrow> bytes" where
  "rebase assigned batch = be_bytes 8 assigned @ drop 8 batch"

text \<open>The write half of an append: roll, rewrite the base offset, append the bytes, advance the
  accounting, the idempotence window and the transaction indexes, decide on a flush.\<close>

definition append_roll ::
  "io_env \<Rightarrow> part_dir \<Rightarrow> partition_config \<Rightarrow> partition_inner \<Rightarrow> nat \<Rightarrow>
   (storage_error + unit) \<times> part_dir \<times> partition_inner" where
  "append_roll io dir cfg g batch_len =
     (case roll_due io cfg (pi_active g) batch_len of
        (False, active) \<Rightarrow> (Inr (), dir, g\<lparr>pi_active := active\<rparr>)
      | (True, active) \<Rightarrow>
          (case roll_fast io (pd_files dir) active (pi_high_water g) (pi_epoch g) of
             (Inl e, fs) \<Rightarrow>
               (Inl (StorageIo e), dir\<lparr>pd_files := fs\<rparr>, g\<lparr>pi_active := placeholder_segment\<rparr>)
           | (Inr (new_active, closed_meta), fs) \<Rightarrow>
               (Inr (), dir\<lparr>pd_files := fs\<rparr>,
                g\<lparr>pi_closed := pi_closed g @ [closed_meta], pi_active := new_active\<rparr>)))"

definition append_commit ::
  "partition_config \<Rightarrow> partition_inner \<Rightarrow> bytes \<Rightarrow> int \<Rightarrow> batch_producer_info option \<Rightarrow>
   partition_inner \<times> nat \<times> bool" where
  "append_commit cfg g owned assigned acc_info =
     (let advanced = be_i32 (slice 23 27 owned) + 1;
          pending = pi_pending_flush_records g + advanced;
          trigger = 0 < pc_flush_interval_messages cfg \<and> pc_flush_interval_messages cfg \<le> pending;
          seq = (if trigger then pi_requested_flush_seq g + 1 else pi_requested_flush_seq g);
          states = (case acc_info of
                      Some info \<Rightarrow> record_accepted (pi_producer_states g) info assigned
                    | None \<Rightarrow> pi_producer_states g);
          idx = txn_index_update (pi_open_txns g, pi_aborted_txns g)
                  (parse_batch_txn_info owned) assigned
      in (g\<lparr>pi_high_water := assigned + advanced,
            pi_pending_flush_records := if trigger then 0 else pending,
            pi_producer_states := states, pi_open_txns := fst idx, pi_aborted_txns := snd idx,
            pi_requested_flush_seq := seq\<rparr>, seq, trigger))"

definition append_write ::
  "io_env \<Rightarrow> part_dir \<Rightarrow> partition \<Rightarrow> bytes \<Rightarrow> batch_producer_info option \<Rightarrow>
   (storage_error + int \<times> nat \<times> bool) \<times> part_dir \<times> partition" where
  "append_write io dir p batch acc_info =
     (let cfg = p_cfg p in
      case append_roll io dir cfg (p_inner p) (length batch) of
        (Inl e, dir1, g1) \<Rightarrow> (Inl e, dir1, p\<lparr>p_inner := g1\<rparr>)
      | (Inr _, dir1, g1) \<Rightarrow>
          let assigned = pi_high_water g1 in
          if length batch < 8 then (Inl Panic, dir1, p\<lparr>p_inner := g1\<rparr>)
          else
            let owned = rebase assigned batch in
            if length owned < 43 then (Inl (StorageIo Invalid_data), dir1, p\<lparr>p_inner := g1\<rparr>)
            else
              case append_batch io (pd_files dir1) (pi_active g1) owned (pc_index_interval_bytes cfg) of
                (Inl e, fs2) \<Rightarrow>
                  (Inl (StorageIo e), dir1\<lparr>pd_files := fs2\<rparr>, p\<lparr>p_inner := g1\<rparr>)
              | (Inr active2, fs2) \<Rightarrow>
                  let r = append_commit cfg (g1\<lparr>pi_active := active2\<rparr>) owned assigned acc_info
                  in (Inr (assigned, snd r), dir1\<lparr>pd_files := fs2\<rparr>, publish p (fst r)))"

text \<open>\<open>append\<close> up to the release of the lock: the sticky stall, the epoch fence, the idempotence
  window, the write. The result carries the flush sequence to wait for and whether this append
  crossed the flush interval; a duplicate answers its first offset and triggers nothing.\<close>

definition append ::
  "io_env \<Rightarrow> part_dir \<Rightarrow> partition \<Rightarrow> int \<Rightarrow> bytes \<Rightarrow>
   (storage_error + int \<times> nat \<times> bool) \<times> part_dir \<times> partition" where
  "append io dir p epoch batch =
     (let g = p_inner p;
          prod_info = (if 57 \<le> length batch then
                         (case parse_batch_producer_info batch of Inr i \<Rightarrow> Some i | Inl _ \<Rightarrow> None)
                       else None) in
      if pi_flush_err g \<noteq> None then (Inl Stalled, dir, p)
      else if epoch < pi_epoch g then (Inl EpochMismatch, dir, p)
      else case prod_info of
        None \<Rightarrow> append_write io dir p batch None
      | Some info \<Rightarrow>
          (case classify (pi_producer_states g) info of
             Duplicate base_offset \<Rightarrow> (Inr (base_offset, 0, False), dir, p)
           | OutOfOrder \<Rightarrow> (Inl OutOfOrderSequence, dir, p)
           | InvalidEpoch \<Rightarrow> (Inl InvalidProducerEpoch, dir, p)
           | Accept \<Rightarrow> append_write io dir p batch (Some info)
           | NotIdempotent \<Rightarrow> append_write io dir p batch None))"

text \<open>One look of \<open>await_flush\<close>: the answer, or \<open>None\<close> while it stays parked.\<close>

definition await_flush :: "partition_inner \<Rightarrow> nat \<Rightarrow> (storage_error + unit) option" where
  "await_flush g target_seq =
     (if pi_flush_err g \<noteq> None then Some (Inl Stalled)
      else if target_seq \<le> pi_completed_flush_seq g then Some (Inr ()) else None)"

section \<open>Deleting records\<close>

fun drop_closed :: "int \<Rightarrow> int \<Rightarrow> segment_meta list \<Rightarrow> segment_meta list \<times> segment_meta list" where
  "drop_closed active_base new_start [] = ([], [])"
| "drop_closed active_base new_start (seg # segs) =
     (let upper = (case segs of [] \<Rightarrow> active_base | n # _ \<Rightarrow> sm_base_offset n);
          (dropped, kept) = drop_closed active_base new_start segs
      in if upper \<le> new_start then (seg # dropped, kept) else (dropped, seg # kept))"

definition remove_segments :: "io_env \<Rightarrow> file_store \<Rightarrow> segment_meta list \<Rightarrow> file_store" where
  "remove_segments io fs segs =
     (if io_fails io Remove_file then fs
      else foldl (\<lambda>fs seg. hm_remove (sm_index_path seg) (hm_remove (sm_log_path seg) fs)) fs segs)"

definition delete_records ::
  "io_env \<Rightarrow> part_dir \<Rightarrow> partition \<Rightarrow> int \<Rightarrow> (storage_error + int) \<times> part_dir \<times> partition" where
  "delete_records io dir p target_offset =
     (let g = p_inner p in
      if 0 \<le> target_offset \<and> pi_high_water g < target_offset then (Inl OffsetOutOfRange, dir, p)
      else
        let new_start = (if target_offset < 0 then pi_high_water g else target_offset) in
        if pi_log_start g < new_start then
          let (dropped, kept) =
                drop_closed (sm_base_offset (as_meta (pi_active g))) new_start (pi_closed g);
              g' = g\<lparr>pi_log_start := new_start, pi_closed := kept,
                     pi_aborted_txns := evict_below (pi_aborted_txns g) new_start\<rparr>
          in (Inr new_start, dir\<lparr>pd_files := remove_segments io (pd_files dir) dropped\<rparr>, publish p g')
        else (Inr (pi_log_start g), dir, p))"

section \<open>Queries\<close>

definition last_stable_offset :: "partition \<Rightarrow> int" where
  "last_stable_offset p =
     (case min_open_offset (pi_open_txns (p_inner p)) of
        Some off \<Rightarrow> off | None \<Rightarrow> pi_high_water (p_inner p))"

definition aborted_in_range :: "partition \<Rightarrow> int \<Rightarrow> int \<Rightarrow> aborted_txn list" where
  "aborted_in_range p start_offset end_offset =
     in_range (pi_aborted_txns (p_inner p)) start_offset end_offset"

definition fence_producer :: "partition \<Rightarrow> int \<Rightarrow> int \<Rightarrow> partition" where
  "fence_producer p pid new_epoch =
     p\<lparr>p_inner := (p_inner p)\<lparr>pi_producer_states :=
         fence (pi_producer_states (p_inner p)) pid new_epoch\<rparr>\<rparr>"

definition partition_size :: "partition \<Rightarrow> int" where
  "partition_size p =
     min i64_MAX (int (sum_list (map sm_size (rs_closed (p_snapshot p))) +
       sm_size (rs_active_meta (p_snapshot p))))"

section \<open>Retention targets\<close>

fun time_target :: "io_env \<Rightarrow> int \<Rightarrow> int \<Rightarrow> segment_meta list \<Rightarrow> int option \<Rightarrow> int option" where
  "time_target io cutoff_ms active_base [] target = target"
| "time_target io cutoff_ms active_base (seg # segs) target =
     (case (if 0 \<le> sm_max_timestamp seg then Some (sm_max_timestamp seg)
            else io_mtime io (sm_log_path seg)) of
        None \<Rightarrow> target
      | Some largest \<Rightarrow>
          if cutoff_ms \<le> largest then target
          else time_target io cutoff_ms active_base segs
                 (Some (case segs of [] \<Rightarrow> active_base | n # _ \<Rightarrow> sm_base_offset n)))"

definition cleanup_target_for_time :: "io_env \<Rightarrow> partition \<Rightarrow> int \<Rightarrow> int option" where
  "cleanup_target_for_time io p cutoff_ms =
     time_target io cutoff_ms (sm_base_offset (rs_active_meta (p_snapshot p)))
       (rs_closed (p_snapshot p)) None"

fun size_target :: "int \<Rightarrow> segment_meta list \<Rightarrow> nat \<Rightarrow> int" where
  "size_target active_base [] surplus = active_base"
| "size_target active_base (seg # segs) surplus =
     (if surplus < sm_size seg then sm_base_offset seg
      else if surplus - sm_size seg = 0
      then (case segs of [] \<Rightarrow> active_base | n # _ \<Rightarrow> sm_base_offset n)
      else size_target active_base segs (surplus - sm_size seg))"

definition cleanup_target_for_size_bytes :: "partition \<Rightarrow> nat \<Rightarrow> int option" where
  "cleanup_target_for_size_bytes p retention_bytes =
     (let closed = rs_closed (p_snapshot p); active = rs_active_meta (p_snapshot p);
          total = sum_list (map sm_size closed) + sm_size active in
      if total \<le> retention_bytes then None
      else Some (size_target (sm_base_offset active) closed (total - retention_bytes)))"

section \<open>Taking over and persisting\<close>

definition roll_for_epoch_locked ::
  "io_env \<Rightarrow> part_dir \<Rightarrow> partition_inner \<Rightarrow> int \<Rightarrow>
   (storage_error + unit) \<times> part_dir \<times> partition_inner" where
  "roll_for_epoch_locked io dir g new_epoch =
     (let new_base = pi_high_water g; outgoing = pi_active g;
          outgoing_size = as_log_size outgoing in
      if sm_epoch (as_meta outgoing) = new_epoch \<and> sm_base_offset (as_meta outgoing) = new_base
      then (Inr (), dir, g)
      else
        case (if 0 < outgoing_size then sync_log io outgoing else Inr ()) of
          Inl e \<Rightarrow> (Inl (StorageIo e), dir, g)
        | Inr _ \<Rightarrow>
            (case create_segment io (pd_files dir) new_base new_epoch of
               (Inl e, fs) \<Rightarrow> (Inl (StorageIo e), dir\<lparr>pd_files := fs\<rparr>, g)
             | (Inr new_active, fs) \<Rightarrow>
                 if 0 < outgoing_size
                 then (Inr (), dir\<lparr>pd_files := fs\<rparr>,
                       g\<lparr>pi_active := new_active, pi_closed := pi_closed g @ [closed_meta_of outgoing],
                         pi_last_checkpoint_byte := 0\<rparr>)
                 else (Inr (), dir\<lparr>pd_files := remove_segments io fs [closed_meta_of outgoing]\<rparr>,
                       g\<lparr>pi_active := new_active, pi_last_checkpoint_byte := 0\<rparr>)))"

definition storage_of_manifest :: "manifest_error \<Rightarrow> storage_error" where
  "storage_of_manifest e =
     (case e of Mf_io \<Rightarrow> StorageIo Io_failed | Mf_json \<Rightarrow> StorageJson
      | LegacyEpochTruncated \<Rightarrow> StorageIo Io_failed)"

definition persist_state_locked ::
  "io_env \<Rightarrow> part_dir \<Rightarrow> partition_inner \<Rightarrow> int \<Rightarrow> (storage_error + bool) \<times> part_dir" where
  "persist_state_locked io dir g epoch =
     (if (case manifest_read io dir of
            Inr (Present on_disk) \<Rightarrow> epoch < mf_epoch on_disk | _ \<Rightarrow> False)
      then (Inr False, dir)
      else if io_fails io Write_snapshot then (Inl (StorageIo Io_failed), dir)
      else
        let dir1 = dir\<lparr>pd_producer_snapshot := Json (write_producer_snapshot (pi_producer_states g))\<rparr> in
        if io_fails io Write_txn_snapshot then (Inl (StorageIo Io_failed), dir1)
        else
          let dir2 = dir1\<lparr>pd_txn_snapshot :=
                Json (write_txn_index_snapshot (pi_open_txns g) (pi_aborted_txns g))\<rparr> in
          case write_unless_superseded io dir2
                 \<lparr>mf_epoch = epoch, mf_high_watermark = pi_high_water g,
                  mf_log_start_offset = pi_log_start g\<rparr> of
            (Inl e, dir3) \<Rightarrow> (Inl (storage_of_manifest e), dir3)
          | (Inr effective, dir3) \<Rightarrow> (Inr (effective = epoch), dir3))"

definition take_over ::
  "io_env \<Rightarrow> part_dir \<Rightarrow> partition \<Rightarrow> int \<Rightarrow> (storage_error + int) \<times> part_dir \<times> partition" where
  "take_over io dir p new_epoch =
     (let g = p_inner p in
      if new_epoch \<le> pi_epoch g then (Inr (rs_high_water (p_snapshot p)), dir, p)
      else
        case roll_for_epoch_locked io dir g new_epoch of
          (Inl e, dir1, g1) \<Rightarrow> (Inl e, dir1, p\<lparr>p_inner := g1\<rparr>)
        | (Inr _, dir1, g1) \<Rightarrow>
            (case persist_state_locked io dir1 g1 new_epoch of
               (Inl e, dir2) \<Rightarrow> (Inl e, dir2, p\<lparr>p_inner := g1\<rparr>)
             | (Inr _, dir2) \<Rightarrow>
                 let g2 = g1\<lparr>pi_epoch := new_epoch\<rparr>
                 in (Inr (pi_high_water g2), dir2, publish p g2)))"

definition checkpoint_here :: "partition_inner \<Rightarrow> recovery_checkpoint" where
  "checkpoint_here g =
     \<lparr>rc_segment_base = sm_base_offset (as_meta (pi_active g)),
      rc_byte_pos = min i64_MAX (int (as_log_size (pi_active g))),
      rc_high_watermark = pi_high_water g\<rparr>"

definition close ::
  "io_env \<Rightarrow> part_dir \<Rightarrow> partition \<Rightarrow> (storage_error + unit) \<times> part_dir \<times> partition" where
  "close io dir p =
     (if \<not> p_committer p then (Inr (), dir, p)
      else
        let p1 = p\<lparr>p_committer := False\<rparr>; g = p_inner p in
        case persist_state_locked io dir g (pi_epoch g) of
          (Inl e, dir1) \<Rightarrow> (Inl e, dir1, p1)
        | (Inr persisted, dir1) \<Rightarrow>
            let closed_active = g\<lparr>pi_active := close_handles (pi_active g)\<rparr> in
            if persisted \<and> sync_log io (pi_active g) = Inr ()
            then (Inr (), checkpoint_write io dir1 (checkpoint_here g),
                  p1\<lparr>p_inner := closed_active\<lparr>pi_last_checkpoint_byte :=
                    min i64_MAX (int (as_log_size (pi_active g)))\<rparr>\<rparr>)
            else (Inr (), dir1, p1\<lparr>p_inner := closed_active\<rparr>))"

definition abandon :: "partition \<Rightarrow> partition" where
  "abandon p = p\<lparr>p_committer := False,
     p_inner := (p_inner p)\<lparr>pi_active := close_handles (pi_active (p_inner p))\<rparr>\<rparr>"

section \<open>Opening with recovery\<close>

text \<open>The active segment at open: the last one on disk, or a new one at the manifest's high
  watermark.\<close>

definition open_active ::
  "io_env \<Rightarrow> file_store \<Rightarrow> int \<Rightarrow> int \<Rightarrow>
   (io_error + segment_meta list \<times> active_segment) \<times> file_store" where
  "open_active io fs hwm epoch =
     (let segs = list_segments (fs_readdir fs) in
      if segs = [] then
        (case create_segment io fs hwm epoch of
           (Inl e, fs1) \<Rightarrow> (Inl e, fs1) | (Inr a, fs1) \<Rightarrow> (Inr ([], a), fs1))
      else
        (case open_handles io fs (open_meta_only (last segs)) of
           (Inl e, _, fs1) \<Rightarrow> (Inl e, fs1)
         | (Inr _, a, fs1) \<Rightarrow> (Inr (butlast segs, a), fs1)))"

text \<open>Where the scan starts: at a checkpoint for this very segment that lies within the log, else
  at byte 0.\<close>

definition scan_from :: "recovery_checkpoint option \<Rightarrow> active_segment \<Rightarrow> nat \<times> int" where
  "scan_from cp active =
     (case cp of
        Some c \<Rightarrow>
          if rc_segment_base c = sm_base_offset (as_meta active) \<and> 0 \<le> rc_byte_pos c \<and>
             nat (rc_byte_pos c) \<le> as_log_size active
          then (nat (rc_byte_pos c), rc_high_watermark c)
          else (0, sm_base_offset (as_meta active))
      | None \<Rightarrow> (0, sm_base_offset (as_meta active)))"

definition load_producer_states ::
  "io_env \<Rightarrow> part_dir \<Rightarrow> storage_error + (int, producer_entry) hash_map" where
  "load_producer_states io dir =
     (if io_fails io Read_snapshot then Inl (StorageIo Io_failed)
      else case pd_producer_snapshot dir of
        Absent \<Rightarrow> Inr []
      | Corrupt \<Rightarrow> Inl StorageJson
      | Json snap \<Rightarrow>
          (case read_producer_snapshot snap of
             None \<Rightarrow> Inr [] | Some entries \<Rightarrow> Inr (restore entries)))"

definition load_txn_indexes ::
  "io_env \<Rightarrow> part_dir \<Rightarrow> int \<Rightarrow> storage_error + open_txn_index \<times> aborted_txn_index" where
  "load_txn_indexes io dir log_start =
     (if io_fails io Read_txn_snapshot then Inl (StorageIo Io_failed)
      else case pd_txn_snapshot dir of
        Absent \<Rightarrow> Inr ([], [])
      | Corrupt \<Rightarrow> Inl StorageJson
      | Json snap \<Rightarrow>
          (case read_txn_index_snapshot snap of
             None \<Rightarrow> Inr ([], [])
           | Some (open_ents, aborted) \<Rightarrow>
               Inr (restore_open open_ents, evict_below (restore_aborted aborted) log_start)))"

text \<open>Scan the active log and cut the torn tail off it.\<close>

definition recover_active ::
  "io_env \<Rightarrow> (bytes \<Rightarrow> int) \<Rightarrow> (int \<Rightarrow> bytes \<Rightarrow> int) \<Rightarrow> file_store \<Rightarrow>
   recovery_checkpoint option \<Rightarrow> active_segment \<Rightarrow>
   (io_error + int \<times> active_segment) \<times> file_store" where
  "recover_active io crc32c crc32c_append fs cp active =
     (if io_fails io Open_read then (Inl Io_failed, fs)
      else
        let (scan_start, scan_seed) = scan_from cp active;
            scan = scan_high_watermark_from crc32c crc32c_append
                     (fs_contents fs (sm_log_path (as_meta active))) scan_start scan_seed in
        if sr_stop scan \<noteq> Eof then
          (case truncate_to io fs active (sr_valid_end scan) of
             (Inl e, fs1) \<Rightarrow> (Inl e, fs1)
           | (Inr a, fs1) \<Rightarrow> (Inr (sr_high_watermark scan, a), fs1))
        else (Inr (sr_high_watermark scan, active), fs))"

definition opened_inner ::
  "int \<Rightarrow> int \<Rightarrow> int \<Rightarrow> segment_meta list \<Rightarrow> active_segment \<Rightarrow> (int, producer_entry) hash_map \<Rightarrow>
   open_txn_index \<times> aborted_txn_index \<Rightarrow> partition_inner" where
  "opened_inner epoch hwm log_start closed active states idx =
     \<lparr>pi_active = active, pi_closed = closed, pi_log_start = log_start, pi_high_water = hwm,
      pi_epoch = epoch, pi_pending_flush_records = 0, pi_last_checkpoint_byte = 0,
      pi_requested_flush_seq = 0, pi_completed_flush_seq = 0, pi_flush_err = None,
      pi_producer_states = states, pi_open_txns = fst idx, pi_aborted_txns = snd idx\<rparr>"

definition open_blocking ::
  "io_env \<Rightarrow> (bytes \<Rightarrow> int) \<Rightarrow> (int \<Rightarrow> bytes \<Rightarrow> int) \<Rightarrow> part_dir \<Rightarrow>
   (storage_error + partition_inner) \<times> part_dir" where
  "open_blocking io crc32c crc32c_append dir =
     (if io_fails io Mkdir then (Inl (StorageIo Io_failed), dir)
      else case manifest_read io dir of
        Inl e \<Rightarrow> (Inl (storage_of_manifest e), dir)
      | Inr r \<Rightarrow>
          let (epoch, hwm0, log_start) = (case r of
                Present m \<Rightarrow> (mf_epoch m, mf_high_watermark m, mf_log_start_offset m)
              | Legacy m \<Rightarrow> (mf_epoch m, 0, 0)
              | NotFound \<Rightarrow> (0, 0, 0)) in
          if io_fails io Readdir then (Inl (StorageIo Io_failed), dir)
          else case open_active io (pd_files dir) hwm0 epoch of
            (Inl e, fs1) \<Rightarrow> (Inl (StorageIo e), dir\<lparr>pd_files := fs1\<rparr>)
          | (Inr (closed, active), fs1) \<Rightarrow>
              (case recover_active io crc32c crc32c_append fs1 (checkpoint_read io dir) active of
                 (Inl e, fs2) \<Rightarrow> (Inl (StorageIo e), dir\<lparr>pd_files := fs2\<rparr>)
               | (Inr (hwm, active2), fs2) \<Rightarrow>
                   let dir2 = dir\<lparr>pd_files := fs2\<rparr> in
                   (case load_producer_states io dir2 of
                      Inl e \<Rightarrow> (Inl e, dir2)
                    | Inr states \<Rightarrow>
                        (case load_txn_indexes io dir2 log_start of
                           Inl e \<Rightarrow> (Inl e, dir2)
                         | Inr idx \<Rightarrow>
                             (case write_unless_superseded io dir2
                                     \<lparr>mf_epoch = epoch, mf_high_watermark = hwm,
                                      mf_log_start_offset = log_start\<rparr> of
                                (Inl e, dir3) \<Rightarrow> (Inl (storage_of_manifest e), dir3)
                              | (Inr epoch', dir3) \<Rightarrow>
                                  (Inr (opened_inner epoch' hwm log_start closed active2 states idx),
                                   dir3))))))"

definition open_partition :: "partition_config \<Rightarrow> partition_inner \<Rightarrow> partition" where
  "open_partition cfg g = \<lparr>p_inner = g, p_snapshot = snapshot_of g, p_cfg = cfg, p_committer = True\<rparr>"

section \<open>The committer\<close>

definition CHECKPOINT_INTERVAL_BYTES :: int where
  "CHECKPOINT_INTERVAL_BYTES = 64 * 1024 * 1024"

text \<open>The fsync task of one cycle, under the lock: it answers the sequence number the sync
  covered; the checkpoint it decides on is written after the lock is released.\<close>

definition committer_sync ::
  "io_env \<Rightarrow> partition_inner \<Rightarrow> (io_error + nat \<times> recovery_checkpoint option) \<times> partition_inner" where
  "committer_sync io g =
     (case sync_log io (pi_active g) of
        Inl e \<Rightarrow> (Inl e, g)
      | Inr _ \<Rightarrow>
          let durable = min i64_MAX (int (as_log_size (pi_active g))) in
          if CHECKPOINT_INTERVAL_BYTES \<le> durable - pi_last_checkpoint_byte g
          then (Inr (pi_requested_flush_seq g, Some (checkpoint_here g)),
                g\<lparr>pi_last_checkpoint_byte := durable\<rparr>)
          else (Inr (pi_requested_flush_seq g, None), g))"

text \<open>What the committer makes of the task's outcome: success, I/O error, or (join error and
  watchdog timeout) a stall.\<close>

datatype sync_outcome = Synced nat | Sync_io_error io_error | Sync_stalled

definition committer_finish :: "partition_inner \<Rightarrow> sync_outcome \<Rightarrow> partition_inner" where
  "committer_finish g r =
     (case r of
        Synced satisfied_seq \<Rightarrow>
          if pi_completed_flush_seq g < satisfied_seq
          then g\<lparr>pi_completed_flush_seq := satisfied_seq\<rparr> else g
      | Sync_io_error e \<Rightarrow>
          if pi_flush_err g = None then g\<lparr>pi_flush_err := Some (StorageIo e)\<rparr> else g
      | Sync_stalled \<Rightarrow>
          if pi_flush_err g = None then g\<lparr>pi_flush_err := Some Stalled\<rparr> else g)"

text \<open>The re-arm: a sync under the lock, then clearing the stall with the sequence sampled there.\<close>

definition rearm_sync :: "io_env \<Rightarrow> partition_inner \<Rightarrow> io_error + nat" where
  "rearm_sync io g =
     (case sync_log io (pi_active g) of Inl e \<Rightarrow> Inl e | Inr _ \<Rightarrow> Inr (pi_requested_flush_seq g))"

definition rearm_finish :: "partition_inner \<Rightarrow> nat \<Rightarrow> partition_inner" where
  "rearm_finish g covered_seq =
     g\<lparr>pi_flush_err := None, pi_completed_flush_seq := max covered_seq (pi_completed_flush_seq g)\<rparr>"

end
