(* ===== verification/PartitionLog.thy ===== *)
theory PartitionLog
  imports Partition
begin

text \<open>
  The partition refines an append-only list of batches. \<open>log_ok\<close> ties the directory and the state
  behind the mutex to the batches of the closed segments and of the active one: the segments hold
  consecutive offsets up to the high watermark, their indexes are sound and their file names
  parse back to their base offset and epoch. Under it a read is a filter of the list, an append
  extends the list by the batch with its base offset rewritten, and deleting records only drops
  whole segments below the log start.
\<close>

section \<open>The invariant\<close>

definition meta_named :: "segment_meta \<Rightarrow> bool" where
  "meta_named m \<longleftrightarrow> (\<exists>stem. sm_log_path m = stem @ LOG_EXT \<and> sm_index_path m = stem @ INDEX_EXT \<and>
     parse_segment_stem stem = Some (sm_base_offset m, sm_epoch m))"

definition next_base_of :: "int \<Rightarrow> segment_meta list \<Rightarrow> int" where
  "next_base_of active_base segs = (case segs of [] \<Rightarrow> active_base | n # _ \<Rightarrow> sm_base_offset n)"

fun closed_hold :: "file_store \<Rightarrow> int \<Rightarrow> segment_meta list \<Rightarrow> bytes list list \<Rightarrow> bool" where
  "closed_hold fs active_base [] [] = True"
| "closed_hold fs active_base (m # ms) (bs # bss) \<longleftrightarrow>
     seg_holds fs m bs \<and> bs \<noteq> [] \<and>
     end_offset_of (sm_base_offset m) bs = next_base_of active_base ms \<and>
     closed_hold fs active_base ms bss"
| "closed_hold fs active_base _ _ = False"

definition segments_of :: "partition_inner \<Rightarrow> segment_meta list" where
  "segments_of g = pi_closed g @ [as_meta (pi_active g)]"

definition log_ok :: "file_store \<Rightarrow> partition_inner \<Rightarrow> bytes list list \<Rightarrow> bytes list \<Rightarrow> bool" where
  "log_ok fs g bss bs \<longleftrightarrow>
     closed_hold fs (sm_base_offset (as_meta (pi_active g))) (pi_closed g) bss \<and>
     active_holds fs (pi_active g) bs \<and>
     pi_high_water g = end_offset_of (sm_base_offset (as_meta (pi_active g))) bs \<and>
     (\<forall>m \<in> set (segments_of g). meta_named m \<and> 0 \<le> sm_base_offset m) \<and>
     pi_high_water g \<le> i64_MAX \<and> pi_log_start g \<le> pi_high_water g"

section \<open>Segment names keep segments apart\<close>

lemma named_apart:
  assumes "meta_named m" "meta_named m'" "sm_base_offset m \<noteq> sm_base_offset m'"
  shows "sm_log_path m \<noteq> sm_log_path m'" "sm_index_path m \<noteq> sm_index_path m'"
  using assms by (auto simp: meta_named_def)

lemma named_log_index: "meta_named m \<Longrightarrow> meta_named m' \<Longrightarrow> sm_log_path m \<noteq> sm_index_path m'"
proof
  assume "meta_named m" "meta_named m'" "sm_log_path m = sm_index_path m'"
  then obtain s s' where "s @ LOG_EXT = s' @ INDEX_EXT" unfolding meta_named_def by metis
  then have "last (s @ LOG_EXT) = last (s' @ INDEX_EXT)" by simp
  then show False by (simp add: LOG_EXT_def INDEX_EXT_def)
qed

lemma named_apart_all:
  assumes "meta_named m" "meta_named m'" "sm_base_offset m \<noteq> sm_base_offset m'"
  shows "sm_log_path m \<noteq> sm_log_path m'" "sm_index_path m \<noteq> sm_index_path m'"
    "sm_log_path m \<noteq> sm_index_path m'" "sm_index_path m \<noteq> sm_log_path m'"
  using named_apart [OF assms] named_log_index [OF assms(1,2)] named_log_index [OF assms(2,1)]
  by metis+

lemma created_named:
  assumes "0 \<le> base" "base \<le> i64_MAX" "0 \<le> epoch" "epoch \<le> u32_MAX"
    and "sm_log_path m = segment_log_path base epoch" "sm_index_path m = segment_index_path base epoch"
    and "sm_base_offset m = base" "sm_epoch m = epoch"
  shows "meta_named m"
  using parse_stem_roundtrip [of base epoch] assms
  by (auto simp: meta_named_def segment_log_path_def segment_index_path_def)

section \<open>Closed segments\<close>

lemma next_base_simps [simp]:
  "next_base_of b [] = b" "next_base_of b (m # ms) = sm_base_offset m"
  by (simp_all add: next_base_of_def)

lemma closed_hold_bases:
  "closed_hold fs b ms bss \<Longrightarrow> m \<in> set ms \<Longrightarrow> sm_base_offset m < b"
  "closed_hold fs b ms bss \<Longrightarrow> next_base_of b ms \<le> b"
proof (induction fs b ms bss rule: closed_hold.induct)
  case (2 fs b m0 ms bs bss)
  have lt: "sm_base_offset m0 < next_base_of b ms" if "closed_hold fs b (m0 # ms) (bs # bss)"
    using that end_offset_gt [of "sm_base_offset m0" bs] by (auto simp: seg_holds_def)
  { case 1
    with 2 lt show ?case by (force simp: less_le_trans) }
  { case 2
    with "2.IH" lt show ?case by force }
qed auto

lemma closed_hold_cong:
  assumes "\<And>m. m \<in> set ms \<Longrightarrow> hm_get fs' (sm_log_path m) = hm_get fs (sm_log_path m) \<and>
    hm_get fs' (sm_index_path m) = hm_get fs (sm_index_path m)"
  shows "closed_hold fs' b ms bss = closed_hold fs b ms bss"
  using assms
proof (induction fs b ms bss rule: closed_hold.induct)
  case (2 fs b m ms bs bss)
  then show ?case using seg_holds_cong [of fs' m fs bs] by auto
qed auto

lemma closed_hold_snoc:
  "closed_hold fs b ms bss \<Longrightarrow> seg_holds fs m bs \<Longrightarrow> bs \<noteq> [] \<Longrightarrow> sm_base_offset m = b \<Longrightarrow>
   closed_hold fs (end_offset_of b bs) (ms @ [m]) (bss @ [bs])"
proof (induction fs b ms bss rule: closed_hold.induct)
  case (2 fs b m0 ms bs0 bss)
  then show ?case by (cases ms) auto
qed auto

section \<open>Reading\<close>

lemma read_closed_batches:
  assumes "closed_hold fs b ms bss" "\<And>m. m \<in> set ms \<Longrightarrow> - (2 ^ 31) \<le> start - sm_base_offset m"
    and io: "\<not> io_fails io Open_read"
  shows "read_closed io fs b mx start ms acc =
    Inr (acc @ concat (within_budget (mx - length acc)
      (filter (\<lambda>x. start \<le> batch_last x) (concat bss))))"
  using assms(1,2)
proof (induction fs b ms bss arbitrary: acc rule: closed_hold.induct)
  case (2 fs b m ms bs bss)
  let ?keep = "filter (\<lambda>x. start \<le> batch_last x)"
  have h: "seg_holds fs m bs" "end_offset_of (sm_base_offset m) bs = next_base_of b ms"
    and tl: "closed_hold fs b ms bss" using 2(2) by simp_all
  note IH = "2.IH" [OF tl 2(3)]
  consider "mx \<le> length acc" | "length acc < mx" "next_base_of b ms \<le> start"
    | "length acc < mx" "\<not> next_base_of b ms \<le> start" by linarith
  then show ?case
  proof cases
    case 1
    then show ?thesis by simp
  next
    case 2
    have "?keep bs = []"
      using consecutive_bounds [of "sm_base_offset m" bs] h 2(2)
      by (fastforce simp: seg_holds_def filter_empty_conv)
    with 2 IH [of acc] show ?thesis by (simp add: next_base_of_def Let_def)
  next
    case 3
    let ?chunk = "concat (within_budget (mx - length acc) (?keep bs))"
    have "read_batches io fs (sm_log_path m)
        (search_index io fs (sm_index_path m) (sm_base_offset m) start) start (mx - length acc) = Inr ?chunk"
      using seg_holds_read [OF h(1) _ io] "2.prems"(2) by simp
    with 3 IH [of "acc @ ?chunk"] show ?thesis
      by (simp add: next_base_of_def Let_def within_budget_append diff_diff_eq)
  qed
qed auto

lemma read_snapshot_batches:
  assumes ok: "log_ok fs g bss bs" and io: "\<not> io_fails io Open_read"
    and near: "sm_base_offset (as_meta (pi_active g)) - max start (pi_log_start g) \<le> 2 ^ 31"
  shows "read_snapshot io fs (snapshot_of g) start mx =
    Inr (take mx (concat (filter (\<lambda>b. max start (pi_log_start g) \<le> batch_last b) (concat bss @ bs))))"
proof -
  let ?a = "as_meta (pi_active g)" and ?st = "max start (pi_log_start g)"
  let ?keep = "filter (\<lambda>b. ?st \<le> batch_last b)"
  have ch: "closed_hold fs (sm_base_offset ?a) (pi_closed g) bss" and sh: "seg_holds fs ?a bs"
    using ok by (simp_all add: log_ok_def active_holds_def)
  let ?acc = "concat (within_budget mx (?keep (concat bss)))"
  have "- (2 ^ 31) \<le> ?st - sm_base_offset m" if "m \<in> set (pi_closed g)" for m
    using closed_hold_bases(1) [OF ch that] near by linarith
  from read_closed_batches [OF ch this io, of mx "[]"]
  have acc: "read_closed io fs (sm_base_offset ?a) mx ?st (pi_closed g) [] = Inr ?acc" by simp
  have chunk: "read_batches io fs (sm_log_path ?a)
      (search_index io fs (sm_index_path ?a) (sm_base_offset ?a) ?st) ?st (mx - length ?acc) =
      Inr (concat (within_budget (mx - length ?acc) (?keep bs)))"
    using seg_holds_read [OF sh _ io, of ?st] near by simp
  have all: "?acc @ concat (within_budget (mx - length ?acc) (?keep bs)) =
      concat (within_budget mx (?keep (concat bss @ bs)))"
    by (simp add: within_budget_append)
  show ?thesis
  proof (cases "length ?acc < mx")
    case True
    have "read_snapshot io fs (snapshot_of g) start mx =
        Inr (take mx (?acc @ concat (within_budget (mx - length ?acc) (?keep bs))))"
      using acc chunk True by (simp add: read_snapshot_def snapshot_of_def Let_def)
    then show ?thesis unfolding all take_within_budget .
  next
    case False
    have "read_snapshot io fs (snapshot_of g) start mx = Inr (take mx ?acc)"
      using acc False by (simp add: read_snapshot_def snapshot_of_def Let_def)
    also have "?acc = ?acc @ concat (within_budget (mx - length ?acc) (?keep bs))"
      using False by simp
    also note all
    finally show ?thesis unfolding take_within_budget .
  qed
qed

section \<open>Appending\<close>

lemma rebase_fields:
  assumes "8 \<le> length b" "- (2 ^ 63) \<le> o1" "o1 \<le> i64_MAX"
  shows "length (rebase o1 b) = length b" "batch_base (rebase o1 b) = o1"
    "batch_delta (rebase o1 b) = batch_delta b"
    "batch_length_field (rebase o1 b) = batch_length_field b" "drop 8 (rebase o1 b) = drop 8 b"
proof -
  show len: "length (rebase o1 b) = length b" using assms(1) by (simp add: rebase_def)
  show "batch_base (rebase o1 b) = o1"
    using assms by (simp add: rebase_def batch_base_def int_bounds)
  have tail: "slice i j (rebase o1 b) = slice i j b" if "8 \<le> i" for i j
    using that by (simp add: rebase_def slice_def)
  show "batch_delta (rebase o1 b) = batch_delta b"
    "batch_length_field (rebase o1 b) = batch_length_field b"
    by (simp_all add: batch_delta_def batch_length_field_def tail)
  show "drop 8 (rebase o1 b) = drop 8 b" by (simp add: rebase_def)
qed

lemma rebase_framed:
  "framed b \<Longrightarrow> - (2 ^ 63) \<le> o1 \<Longrightarrow> o1 \<le> i64_MAX \<Longrightarrow> framed (rebase o1 b)"
  by (simp add: framed_def rebase_fields)

lemma log_ok_active_base:
  assumes "log_ok fs g bss bs"
  shows "0 \<le> sm_base_offset (as_meta (pi_active g))" "sm_base_offset (as_meta (pi_active g)) \<le> pi_high_water g"
    "pi_high_water g \<le> i64_MAX" "0 \<le> pi_high_water g"
proof -
  have c: "consecutive (sm_base_offset (as_meta (pi_active g))) bs"
    using assms by (simp add: log_ok_def active_holds_def seg_holds_def)
  show a: "0 \<le> sm_base_offset (as_meta (pi_active g))" "pi_high_water g \<le> i64_MAX"
    using assms by (simp_all add: log_ok_def segments_of_def)
  show b: "sm_base_offset (as_meta (pi_active g)) \<le> pi_high_water g"
    using end_offset_ge [OF c] assms by (simp add: log_ok_def)
  show "0 \<le> pi_high_water g" using a b by simp
qed

text \<open>A closed segment's files are none of the active segment's.\<close>

lemma closed_apart_active:
  assumes "log_ok fs g bss bs" "m \<in> set (pi_closed g)"
  shows "sm_log_path m \<noteq> sm_log_path (as_meta (pi_active g))"
    "sm_index_path m \<noteq> sm_index_path (as_meta (pi_active g))"
    "sm_log_path m \<noteq> sm_index_path (as_meta (pi_active g))"
    "sm_index_path m \<noteq> sm_log_path (as_meta (pi_active g))"
proof -
  have "meta_named m" "meta_named (as_meta (pi_active g))"
    using assms by (auto simp: log_ok_def segments_of_def)
  moreover have "sm_base_offset m \<noteq> sm_base_offset (as_meta (pi_active g))"
    using assms closed_hold_bases(1) by (fastforce simp: log_ok_def)
  ultimately show "sm_log_path m \<noteq> sm_log_path (as_meta (pi_active g))"
    "sm_index_path m \<noteq> sm_index_path (as_meta (pi_active g))"
    "sm_log_path m \<noteq> sm_index_path (as_meta (pi_active g))"
    "sm_index_path m \<noteq> sm_log_path (as_meta (pi_active g))"
    by (simp_all add: named_apart_all)
qed

lemma append_batch_log_ok:
  assumes ok: "log_ok fs g bss bs"
    and ap: "append_batch io fs (pi_active g) owned iv = (Inr a', fs')"
    and owned: "framed owned" "0 \<le> batch_delta owned" "batch_base owned = pi_high_water g"
      "batch_last owned < i64_MAX" and fits: "int (as_log_size (pi_active g) + length owned) \<le> u64_MAX"
  shows "log_ok fs' (g\<lparr>pi_active := a', pi_high_water := batch_last owned + 1\<rparr>) bss (bs @ [owned])"
proof -
  let ?a = "as_meta (pi_active g)"
  have ch: "closed_hold fs (sm_base_offset ?a) (pi_closed g) bss" and ah: "active_holds fs (pi_active g) bs"
    and hw: "pi_high_water g = end_offset_of (sm_base_offset ?a) bs"
    and ls: "pi_log_start g \<le> pi_high_water g"
    using ok by (simp_all add: log_ok_def)
  have meta: "as_meta a' = ?a\<lparr>sm_size := as_log_size (pi_active g) + length owned\<rparr>"
    by (rule append_batch_account(1) [OF ap fits])
  have "active_holds fs' a' (bs @ [owned])"
    by (rule append_batch_holds [OF ap ah fits]) (use owned hw in simp_all)
  moreover have "closed_hold fs' (sm_base_offset ?a) (pi_closed g) bss"
    using ch append_batch_frame [OF ap] closed_apart_active [OF ok]
    by (subst closed_hold_cong [where fs = fs]) auto
  moreover have "meta_named (as_meta a')"
    using ok meta by (simp add: log_ok_def segments_of_def meta_named_def)
  moreover have "pi_log_start g \<le> batch_last owned + 1"
    using ls owned by (simp add: batch_last_def)
  ultimately show ?thesis
    using ok meta owned by (simp add: log_ok_def segments_of_def end_offset_of_def)
qed

lemma create_next_log_ok:
  assumes ok: "log_ok fs g bss bs" and ne: "bs \<noteq> []"
    and cr: "create_segment io fs (pi_high_water g) epoch = (Inr a', fs')"
    and ep: "0 \<le> epoch" "epoch \<le> u32_MAX"
    and m: "sm_log_path m = sm_log_path (as_meta (pi_active g))"
      "sm_index_path m = sm_index_path (as_meta (pi_active g))"
      "sm_base_offset m = sm_base_offset (as_meta (pi_active g))" "sm_epoch m = sm_epoch (as_meta (pi_active g))"
  shows "log_ok fs' (g\<lparr>pi_active := a', pi_closed := pi_closed g @ [m]\<rparr>) (bss @ [bs]) []"
proof -
  let ?a = "as_meta (pi_active g)"
  note base = log_ok_active_base [OF ok]
  have ch: "closed_hold fs (sm_base_offset ?a) (pi_closed g) bss" and sh: "seg_holds fs ?a bs"
    and hw: "pi_high_water g = end_offset_of (sm_base_offset ?a) bs"
    using ok by (simp_all add: log_ok_def active_holds_def)
  have lt: "sm_base_offset ?a < pi_high_water g"
    using end_offset_gt sh ne hw by (simp add: seg_holds_def)
  note created = create_segment_holds [OF cr]
  have a'_meta: "sm_base_offset (as_meta a') = pi_high_water g"
    "sm_log_path (as_meta a') = segment_log_path (pi_high_water g) epoch"
    "sm_index_path (as_meta a') = segment_index_path (pi_high_water g) epoch"
    "sm_epoch (as_meta a') = epoch"
    using created by simp_all
  have named': "meta_named (as_meta a')"
    using base ep a'_meta by (intro created_named [of "pi_high_water g" epoch]) simp_all
  have named_m: "meta_named m" and nonneg: "0 \<le> sm_base_offset m"
    using ok m by (simp_all add: log_ok_def segments_of_def meta_named_def)
  have frame: "hm_get fs' (sm_log_path x) = hm_get fs (sm_log_path x) \<and>
      hm_get fs' (sm_index_path x) = hm_get fs (sm_index_path x)"
    if x: "x \<in> set (pi_closed g @ [m])" for x
  proof -
    have nm: "meta_named x" using x ok named_m by (auto simp: log_ok_def segments_of_def)
    have "sm_base_offset x < pi_high_water g"
      using x closed_hold_bases(1) [OF ch, of x] lt m(3) by auto
    then have "sm_base_offset x \<noteq> sm_base_offset (as_meta a')" using a'_meta(1) by simp
    from named_apart_all [OF nm named' this] show ?thesis
      using create_segment_frame [OF cr] unfolding a'_meta by metis
  qed
  have "closed_hold fs (pi_high_water g) (pi_closed g @ [m]) (bss @ [bs])"
    unfolding hw using closed_hold_snoc [OF ch _ ne m(3)] seg_holds_meta [OF m(1-3)] sh by simp
  then have "closed_hold fs' (pi_high_water g) (pi_closed g @ [m]) (bss @ [bs])"
    using frame by (subst closed_hold_cong [where fs = fs]) auto
  then show ?thesis
    using created ok named' named_m nonneg base a'_meta
    by (auto simp: log_ok_def segments_of_def)
qed

lemma roll_due_active:
  assumes "roll_due io cfg a n = (due, a')"
  shows "(\<exists>c. a' = a\<lparr>as_created_at_ms := c\<rparr>) \<and> (due \<longrightarrow> 0 < as_log_size a)"
proof (cases "pc_segment_bytes cfg < sat_u64 (as_log_size a + n)")
  case True
  with assms show ?thesis
    by (auto simp: roll_due_def Let_def intro!: exI [of _ "as_created_at_ms a"])
next
  case False
  show ?thesis
  proof (cases "pc_segment_ms cfg")
    case None
    with False assms show ?thesis
      by (auto simp: roll_due_def Let_def intro!: exI [of _ "as_created_at_ms a"])
  next
    case (Some ms)
    have "fst (age_ms io a) = a\<lparr>as_created_at_ms := as_created_at_ms (fst (age_ms io a))\<rparr>"
      by (auto simp: age_ms_def split: option.splits)
    then have "\<exists>c. fst (age_ms io a) = a\<lparr>as_created_at_ms := c\<rparr>" by blast
    with False Some assms show ?thesis
      by (auto simp: roll_due_def Let_def split: prod.splits)
  qed
qed

lemma log_ok_frame:
  assumes "pi_active g' = pi_active g" "pi_closed g' = pi_closed g" "pi_log_start g' = pi_log_start g"
    "pi_high_water g' = pi_high_water g"
  shows "log_ok fs g' bss bs = log_ok fs g bss bs"
  using assms by (simp add: log_ok_def segments_of_def)

lemma log_ok_created_at:
  "log_ok fs (g\<lparr>pi_active := (pi_active g)\<lparr>as_created_at_ms := c\<rparr>\<rparr>) bss bs = log_ok fs g bss bs"
  by (simp add: log_ok_def active_holds_def segments_of_def)

lemma append_roll_log_ok:
  assumes ok: "log_ok (pd_files dir) g bss bs" and ep: "0 \<le> pi_epoch g" "pi_epoch g \<le> u32_MAX"
    and r: "append_roll io dir cfg g n = (Inr u, dir', g')"
  shows "\<exists>bss' bs'. log_ok (pd_files dir') g' bss' bs' \<and> concat bss' @ bs' = concat bss @ bs"
    "pi_high_water g' = pi_high_water g" "as_log_size (pi_active g') \<le> as_log_size (pi_active g)"
proof -
  obtain due a where d: "roll_due io cfg (pi_active g) n = (due, a)" by fastforce
  then obtain c where a: "a = (pi_active g)\<lparr>as_created_at_ms := c\<rparr>"
    and due: "due \<Longrightarrow> 0 < as_log_size (pi_active g)"
    using roll_due_active by blast
  let ?g = "g\<lparr>pi_active := a\<rparr>"
  have ok': "log_ok (pd_files dir) ?g bss bs" using ok by (simp add: a log_ok_created_at)
  have "(\<exists>bss' bs'. log_ok (pd_files dir') g' bss' bs' \<and> concat bss' @ bs' = concat bss @ bs) \<and>
      pi_high_water g' = pi_high_water g \<and> as_log_size (pi_active g') \<le> as_log_size (pi_active g)"
  proof (cases due)
    case False
    with d r ok' show ?thesis by (auto simp: append_roll_def a)
  next
    case True
    with d r obtain na fs' where cr: "create_segment io (pd_files dir) (pi_high_water g) (pi_epoch g) = (Inr na, fs')"
      and dir': "dir' = dir\<lparr>pd_files := fs'\<rparr>"
      and g': "g' = g\<lparr>pi_closed := pi_closed g @ [closed_meta_of a], pi_active := na\<rparr>"
      by (auto simp: append_roll_def roll_fast_def split: if_splits prod.splits sum.splits)
    have "as_log_size a = length (concat bs)" using ok' by (simp add: log_ok_def active_holds_def)
    with due [OF True] a have ne: "bs \<noteq> []" by auto
    have "log_ok fs' (?g\<lparr>pi_active := na, pi_closed := pi_closed ?g @ [closed_meta_of a]\<rparr>) (bss @ [bs]) []"
      by (rule create_next_log_ok [OF ok' ne, of io "pi_epoch g"])
        (use cr ep in \<open>simp_all add: closed_meta_of_def\<close>)
    moreover have "as_log_size na = 0"
      using create_segment_holds [OF cr] by (simp add: active_holds_def)
    ultimately have "log_ok fs' g' (bss @ [bs]) []" "as_log_size na = 0"
      using log_ok_frame [of "?g\<lparr>pi_active := na, pi_closed := pi_closed ?g @ [closed_meta_of a]\<rparr>" g']
      by (simp_all add: g')
    moreover have "concat (bss @ [bs]) @ [] = concat bss @ bs" by simp
    ultimately have "\<exists>bss' bs'. log_ok fs' g' bss' bs' \<and> concat bss' @ bs' = concat bss @ bs"
      by blast
    with \<open>as_log_size na = 0\<close> show ?thesis by (simp add: dir' g')
  qed
  then show "\<exists>bss' bs'. log_ok (pd_files dir') g' bss' bs' \<and> concat bss' @ bs' = concat bss @ bs"
    "pi_high_water g' = pi_high_water g" "as_log_size (pi_active g') \<le> as_log_size (pi_active g)"
    by blast+
qed

text \<open>\<open>append_commit\<close> moves the high watermark past the batch and leaves the log alone.\<close>

lemma append_commit_frame:
  assumes "append_commit cfg g owned assigned i = (g', r)"
  shows "pi_high_water g' = assigned + batch_delta owned + 1" "pi_active g' = pi_active g"
    "pi_closed g' = pi_closed g" "pi_log_start g' = pi_log_start g" "pi_epoch g' = pi_epoch g"
  using assms by (auto simp: append_commit_def Let_def batch_delta_def)

lemma append_write_log_ok:
  assumes ok: "log_ok (pd_files dir) (p_inner p) bss bs"
    and ep: "0 \<le> pi_epoch (p_inner p)" "pi_epoch (p_inner p) \<le> u32_MAX"
    and b: "framed batch" "0 \<le> batch_delta batch" "pi_high_water (p_inner p) + batch_delta batch < i64_MAX"
    and fits: "int (as_log_size (pi_active (p_inner p)) + length batch) \<le> u64_MAX"
    and r: "append_write io dir p batch i = (Inr (assigned, rest), dir', p')"
  shows "assigned = pi_high_water (p_inner p) \<and> p_snapshot p' = snapshot_of (p_inner p') \<and>
    pi_high_water (p_inner p') = assigned + batch_delta batch + 1 \<and>
    pi_log_start (p_inner p') \<le> assigned \<and>
    (\<exists>bss' bs'. log_ok (pd_files dir') (p_inner p') bss' bs' \<and>
       concat bss' @ bs' = (concat bss @ bs) @ [rebase assigned batch])"
proof -
  obtain u dir1 g1 where roll: "append_roll io dir (p_cfg p) (p_inner p) (length batch) = (Inr u, dir1, g1)"
    using r by (auto simp: append_write_def Let_def split: sum.splits prod.splits)
  note rolled = append_roll_log_ok [OF ok ep roll]
  obtain bss1 bs1 where ok1: "log_ok (pd_files dir1) g1 bss1 bs1"
    and eq1: "concat bss1 @ bs1 = concat bss @ bs" using rolled(1) by blast
  let ?as = "pi_high_water g1" and ?owned = "rebase (pi_high_water g1) batch"
  have len: "8 \<le> length batch" using b(1) by (simp add: framed_def)
  note base = log_ok_active_base [OF ok1]
  have lo: "- (2 ^ 63) \<le> ?as" using base(4) by simp
  note f = rebase_fields [OF len lo base(3)]
  obtain a2 fs2 where ap: "append_batch io (pd_files dir1) (pi_active g1) ?owned
      (pc_index_interval_bytes (p_cfg p)) = (Inr a2, fs2)"
    and as: "assigned = ?as" and dir': "dir' = dir1\<lparr>pd_files := fs2\<rparr>"
    and p': "p' = publish p (fst (append_commit (p_cfg p) (g1\<lparr>pi_active := a2\<rparr>) ?owned ?as i))"
    using r roll len by (auto simp: append_write_def Let_def split: sum.splits prod.splits if_splits)
  have last: "batch_last ?owned = ?as + batch_delta batch" using f by (simp add: batch_last_def)
  have "log_ok fs2 (g1\<lparr>pi_active := a2, pi_high_water := batch_last ?owned + 1\<rparr>) bss1 (bs1 @ [?owned])"
    by (rule append_batch_log_ok [OF ok1 ap])
      (use b f last rolled(2,3) fits rebase_framed [OF b(1) lo base(3)] in simp_all)
  moreover obtain g2 rs where c: "append_commit (p_cfg p) (g1\<lparr>pi_active := a2\<rparr>) ?owned ?as i = (g2, rs)"
    by (rule prod.exhaust)
  ultimately have "log_ok fs2 g2 bss1 (bs1 @ [?owned])"
    using append_commit_frame [OF c] f last
    by (subst log_ok_frame [where g = "g1\<lparr>pi_active := a2, pi_high_water := batch_last ?owned + 1\<rparr>"]) simp_all
  moreover have "p_inner p' = g2" "p_snapshot p' = snapshot_of g2" using p' c by (simp_all add: publish_def)
  moreover have "pi_log_start g2 \<le> ?as"
    using append_commit_frame [OF c] ok1 by (simp add: log_ok_def)
  ultimately show ?thesis
    using as rolled(2) append_commit_frame [OF c] f eq1 dir'
    by (auto intro!: exI [of _ bss1] exI [of _ "bs1 @ [?owned]"])
qed

section \<open>Offsets across segments\<close>

lemma closed_hold_below:
  "closed_hold fs b ms bss \<Longrightarrow> x \<in> set (concat bss) \<Longrightarrow> batch_last x < b"
proof (induction fs b ms bss rule: closed_hold.induct)
  case (2 fs b m ms bs bss)
  show ?case
  proof (cases "x \<in> set bs")
    case True
    with 2 consecutive_bounds [of "sm_base_offset m" bs x] closed_hold_bases(2) [of fs b ms bss]
    show ?thesis by (simp add: seg_holds_def)
  next
    case False
    with 2 show ?thesis by simp
  qed
qed auto

lemma log_ok_below:
  assumes ok: "log_ok fs g bss bs" and x: "x \<in> set (concat bss @ bs)"
  shows "batch_last x < pi_high_water g"
proof -
  have ch: "closed_hold fs (sm_base_offset (as_meta (pi_active g))) (pi_closed g) bss"
    and c: "consecutive (sm_base_offset (as_meta (pi_active g))) bs"
    and hw: "pi_high_water g = end_offset_of (sm_base_offset (as_meta (pi_active g))) bs"
    using ok by (simp_all add: log_ok_def active_holds_def seg_holds_def)
  from x consider "x \<in> set (concat bss)" | "x \<in> set bs" by auto
  then show ?thesis
  proof cases
    case 1
    with closed_hold_below [OF ch] log_ok_active_base(2) [OF ok] show ?thesis by force
  next
    case 2
    with consecutive_bounds [OF c] hw show ?thesis by simp
  qed
qed

section \<open>Deleting records\<close>

text \<open>The segments a delete drops are a prefix of the closed ones, all their batches lie below the
  new log start, and what is kept still holds.\<close>

lemma drop_closed_hold:
  assumes "closed_hold fs b ms bss" "drop_closed b s ms = (dropped, kept)"
  shows "\<exists>bss1 bss2. bss = bss1 @ bss2 \<and> ms = dropped @ kept \<and> closed_hold fs b kept bss2 \<and>
    (\<forall>x \<in> set (concat bss1). batch_last x < s) \<and> (dropped \<noteq> [] \<longrightarrow> sm_base_offset (hd ms) < s)"
  using assms
proof (induction fs b ms bss arbitrary: dropped kept rule: closed_hold.induct)
  case (2 fs b m ms bs bss)
  obtain d k where dk: "drop_closed b s ms = (d, k)" by (rule prod.exhaust)
  have tl: "closed_hold fs b ms bss" and sh: "seg_holds fs m bs" and ne: "bs \<noteq> []"
    and e: "end_offset_of (sm_base_offset m) bs = next_base_of b ms" using 2(2) by simp_all
  from "2.IH" [OF tl dk] obtain bss1 bss2 where IH: "bss = bss1 @ bss2" "ms = d @ k"
    "closed_hold fs b k bss2" "\<forall>x \<in> set (concat bss1). batch_last x < s"
    "d \<noteq> [] \<longrightarrow> sm_base_offset (hd ms) < s" by blast
  have res: "(dropped, kept) = (if next_base_of b ms \<le> s then (m # d, k) else (d, m # k))"
    using 2(3) dk by (simp add: next_base_of_def Let_def)
  show ?case
  proof (cases "next_base_of b ms \<le> s")
    case True
    have "\<forall>x \<in> set bs. batch_last x < s"
      using consecutive_bounds [of "sm_base_offset m" bs] sh e True by (fastforce simp: seg_holds_def)
    moreover have "sm_base_offset m < s"
      using end_offset_gt [of "sm_base_offset m" bs] sh ne e True by (simp add: seg_holds_def)
    ultimately show ?thesis
      using True IH res by (intro exI [of _ "bs # bss1"] exI [of _ bss2]) auto
  next
    case False
    have "d = []" using False IH(2,5) by (cases d) auto
    with False IH res 2(2) show ?thesis
      by (intro exI [of _ "[]"] exI [of _ "bs # bss"]) auto
  qed
qed auto

lemma closed_hold_sorted:
  assumes "closed_hold fs b ms bss"
  shows "(\<forall>m \<in> set ms. next_base_of b ms \<le> sm_base_offset m) \<and> sorted_wrt (<) (map sm_base_offset ms)"
  using assms
proof (induction fs b ms bss rule: closed_hold.induct)
  case (2 fs b m ms bs bss)
  then have IH: "\<forall>x \<in> set ms. next_base_of b ms \<le> sm_base_offset x"
    "sorted_wrt (<) (map sm_base_offset ms)" by simp_all
  have "sm_base_offset m < next_base_of b ms"
    using 2(2) end_offset_gt [of "sm_base_offset m" bs] by (simp add: seg_holds_def)
  with IH show ?case by force
qed auto

lemma remove_segments_frame:
  assumes "\<And>m. m \<in> set ms \<Longrightarrow> q \<noteq> sm_log_path m \<and> q \<noteq> sm_index_path m"
  shows "hm_get (remove_segments io fs ms) q = hm_get fs q"
proof -
  have "hm_get (foldl (\<lambda>fs seg. hm_remove (sm_index_path seg) (hm_remove (sm_log_path seg) fs)) fs ms) q =
      hm_get fs q"
    using assms by (induction ms arbitrary: fs) simp_all
  then show ?thesis by (simp add: remove_segments_def)
qed

lemma delete_records_log_ok:
  assumes ok: "log_ok (pd_files dir) (p_inner p) bss bs"
    and r: "delete_records io dir p t = (Inr s, dir', p')"
  shows "pi_log_start (p_inner p') = s \<and> pi_log_start (p_inner p) \<le> s \<and>
    pi_high_water (p_inner p') = pi_high_water (p_inner p) \<and>
    pi_active (p_inner p') = pi_active (p_inner p) \<and>
    (\<exists>bss'. log_ok (pd_files dir') (p_inner p') bss' bs \<and>
       filter (\<lambda>b. s \<le> batch_last b) (concat bss') = filter (\<lambda>b. s \<le> batch_last b) (concat bss))"
proof (cases "pi_log_start (p_inner p) < (if t < 0 then pi_high_water (p_inner p) else t)")
  case False
  with r ok show ?thesis by (auto simp: delete_records_def Let_def split: if_splits)
next
  case True
  let ?g = "p_inner p"
  let ?ab = "sm_base_offset (as_meta (pi_active ?g))"
  obtain d k where dk: "drop_closed ?ab s (pi_closed ?g) = (d, k)" by (rule prod.exhaust)
  from True r have s: "s = (if t < 0 then pi_high_water ?g else t)" and le: "s \<le> pi_high_water ?g"
    by (auto simp: delete_records_def Let_def split: if_splits prod.splits)
  from True r dk have dir': "pd_files dir' = remove_segments io (pd_files dir) d"
    and g': "p_inner p' = ?g\<lparr>pi_log_start := s, pi_closed := k,
        pi_aborted_txns := evict_below (pi_aborted_txns ?g) s\<rparr>"
    unfolding s [symmetric]
    by (auto simp: delete_records_def Let_def s publish_def split: if_splits prod.splits)
  have ch: "closed_hold (pd_files dir) ?ab (pi_closed ?g) bss" using ok by (simp add: log_ok_def)
  from drop_closed_hold [OF ch dk] obtain bss1 bss2 where bss: "bss = bss1 @ bss2"
    and ms: "pi_closed ?g = d @ k" and ch2: "closed_hold (pd_files dir) ?ab k bss2"
    and below: "\<forall>x \<in> set (concat bss1). batch_last x < s" by blast
  have named: "\<And>m. m \<in> set (segments_of ?g) \<Longrightarrow> meta_named m" using ok by (simp add: log_ok_def)
  have frame: "hm_get (pd_files dir') (sm_log_path m) = hm_get (pd_files dir) (sm_log_path m) \<and>
      hm_get (pd_files dir') (sm_index_path m) = hm_get (pd_files dir) (sm_index_path m)"
    if m: "m \<in> set (k @ [as_meta (pi_active ?g)])" for m
  proof -
    have "sm_base_offset m \<noteq> sm_base_offset m'" if m': "m' \<in> set d" for m'
    proof (cases "m \<in> set k")
      case True
      have "sorted_wrt (<) (map sm_base_offset (d @ k))"
        using closed_hold_sorted [OF ch] unfolding ms by (rule conjunct2)
      with True m' have "sm_base_offset m' < sm_base_offset m" by (simp add: sorted_wrt_append)
      then show ?thesis by simp
    next
      case False
      with m have "m = as_meta (pi_active ?g)" by simp
      with closed_hold_bases(1) [OF ch, of m'] m' ms show ?thesis by simp
    qed
    moreover have "meta_named m" using named m ms by (auto simp: segments_of_def)
    moreover have "meta_named m'" if "m' \<in> set d" for m' using named that ms by (simp add: segments_of_def)
    ultimately show ?thesis
      unfolding dir' by (intro conjI remove_segments_frame) (simp_all add: named_apart_all)
  qed
  have "closed_hold (pd_files dir') ?ab k bss2"
    using ch2 frame by (subst closed_hold_cong [where fs = "pd_files dir"]) auto
  moreover have "active_holds (pd_files dir') (pi_active ?g) bs"
    using ok frame [of "as_meta (pi_active ?g)"]
    by (simp add: log_ok_def active_holds_def seg_holds_def)
  ultimately have "log_ok (pd_files dir') (p_inner p') bss2 bs"
    using ok le ms by (auto simp: log_ok_def g' segments_of_def)
  moreover have "filter (\<lambda>b. s \<le> batch_last b) (concat bss1) = []"
    using below by (fastforce simp: filter_empty_conv)
  ultimately show ?thesis using True g' s bss by auto
qed

section \<open>Properties\<close>

text \<open>C5: a read answers from the log alone: from any start offset it returns exactly the bytes
  of the batches whose last offset is at or past the start (and the log start), in log order,
  cut at \<open>max_bytes\<close>. Neither the segment boundaries nor the sparse index nor the early exits of
  the read path show, as long as the start is at most 2 \<open>^\<close> 31 offsets below the active segment.\<close>

theorem read_is_log_filter:
  assumes "log_ok (pd_files dir) (p_inner p) bss bs" "p_snapshot p = snapshot_of (p_inner p)"
    and "\<not> io_fails io Open_read"
    and "sm_base_offset (as_meta (pi_active (p_inner p))) - max start (pi_log_start (p_inner p)) \<le> 2 ^ 31"
  shows "partition_read io dir p start max_bytes =
    Inr (take max_bytes (concat (filter
      (\<lambda>b. max start (pi_log_start (p_inner p)) \<le> batch_last b) (concat bss @ bs))))"
  unfolding partition_read_def assms(2) by (rule read_snapshot_batches [OF assms(1,3,4)])

text \<open>The first offset a retried batch was given, when the window still holds it.\<close>

definition dedup_answer :: "partition_inner \<Rightarrow> bytes \<Rightarrow> int option" where
  "dedup_answer g batch =
     (case parse_batch_producer_info batch of
        Inl _ \<Rightarrow> None
      | Inr info \<Rightarrow>
          (case classify (pi_producer_states g) info of Duplicate off \<Rightarrow> Some off | _ \<Rightarrow> None))"

lemma append_not_duplicate:
  assumes "append io dir p epoch batch = (Inr r, dir', p')" "dedup_answer (p_inner p) batch = None"
  obtains i where "append_write io dir p batch i = (Inr r, dir', p')"
  using assms
  by (auto simp: append_def Let_def dedup_answer_def split: if_splits option.splits sum.splits outcome.splits)

text \<open>C4: a successful append extends the log by exactly the given batch with its base offset
  rewritten to the high watermark, which is the offset it answers; the high watermark moves one
  past the batch; the state readers see is the new one; rolling to a new segment on the way
  changes nothing of this.\<close>

theorem append_extends_log:
  assumes "log_ok (pd_files dir) (p_inner p) bss bs"
    and "0 \<le> pi_epoch (p_inner p)" "pi_epoch (p_inner p) \<le> u32_MAX"
    and "framed batch" "0 \<le> batch_delta batch"
    and "pi_high_water (p_inner p) + batch_delta batch < i64_MAX"
    and "int (as_log_size (pi_active (p_inner p)) + length batch) \<le> u64_MAX"
    and "dedup_answer (p_inner p) batch = None"
    and "append io dir p epoch batch = (Inr (assigned, rest), dir', p')"
  shows "assigned = pi_high_water (p_inner p) \<and>
    pi_high_water (p_inner p') = assigned + batch_delta batch + 1 \<and>
    p_snapshot p' = snapshot_of (p_inner p') \<and>
    (\<exists>bss' bs'. log_ok (pd_files dir') (p_inner p') bss' bs' \<and>
       concat bss' @ bs' = (concat bss @ bs) @ [rebase assigned batch])"
  using append_not_duplicate [OF assms(9,8)] append_write_log_ok [OF assms(1-7)] by metis

text \<open>what was appended is what a fetch from its offset reads: the batch itself, cut at
  \<open>max_bytes\<close>, with nothing before or after it.\<close>

theorem append_then_read:
  assumes "log_ok (pd_files dir) (p_inner p) bss bs"
    and "0 \<le> pi_epoch (p_inner p)" "pi_epoch (p_inner p) \<le> u32_MAX"
    and "framed batch" "0 \<le> batch_delta batch"
    and "pi_high_water (p_inner p) + batch_delta batch < i64_MAX"
    and "int (as_log_size (pi_active (p_inner p)) + length batch) \<le> u64_MAX"
    and "dedup_answer (p_inner p) batch = None"
    and "append io dir p epoch batch = (Inr (assigned, rest), dir', p')"
    and "\<not> io_fails io' Open_read"
  shows "partition_read io' dir' p' assigned max_bytes = Inr (take max_bytes (rebase assigned batch))"
proof -
  obtain i where w: "append_write io dir p batch i = (Inr (assigned, rest), dir', p')"
    using append_not_duplicate [OF assms(9,8)] by blast
  from append_write_log_ok [OF assms(1-7) w] obtain bss' bs'
    where as: "assigned = pi_high_water (p_inner p)" and sn: "p_snapshot p' = snapshot_of (p_inner p')"
      and hw: "pi_high_water (p_inner p') = assigned + batch_delta batch + 1"
      and ls: "pi_log_start (p_inner p') \<le> assigned"
      and ok': "log_ok (pd_files dir') (p_inner p') bss' bs'"
      and eq: "concat bss' @ bs' = (concat bss @ bs) @ [rebase assigned batch]" by blast
  have "8 \<le> length batch" using assms(4) by (simp add: framed_def)
  from rebase_fields [OF this] log_ok_active_base [OF assms(1)] as
  have last: "batch_last (rebase assigned batch) = assigned + batch_delta batch"
    by (simp add: batch_last_def)
  have "filter (\<lambda>b. assigned \<le> batch_last b) (concat bss @ bs) = []"
    using log_ok_below [OF assms(1)] as unfolding filter_empty_conv by force
  then have "filter (\<lambda>b. assigned \<le> batch_last b) (concat bss' @ bs') = [rebase assigned batch]"
    unfolding eq filter_append using last assms(5) by simp
  moreover have "sm_base_offset (as_meta (pi_active (p_inner p'))) - assigned \<le> 2 ^ 31"
    using log_ok_active_base(2) [OF ok'] hw in_i32_be_i32 [of "slice 23 27 batch"]
    by (simp add: batch_delta_def in_i32_def int_bounds)
  ultimately show ?thesis
    using read_snapshot_batches [OF ok' assms(10), of assigned max_bytes] sn ls
    by (simp add: partition_read_def max_absorb1)
qed

text \<open>Reads at or past the new log start do not see a delete-records.\<close>

lemma delete_records_later_reads:
  assumes "log_ok (pd_files dir) (p_inner p) bss bs" "p_snapshot p = snapshot_of (p_inner p)"
    and "delete_records io dir p target = (Inr new_start, dir', p')"
    and "\<not> io_fails io' Open_read" "new_start \<le> start"
    and "sm_base_offset (as_meta (pi_active (p_inner p))) - start \<le> 2 ^ 31"
  shows "rs_log_start (p_snapshot p') = new_start \<and> pi_log_start (p_inner p) \<le> new_start \<and>
    rs_high_water (p_snapshot p') = pi_high_water (p_inner p) \<and>
    partition_read io' dir' p' start max_bytes = partition_read io' dir p start max_bytes"
proof -
  from delete_records_log_ok [OF assms(1,3)] obtain bss'
    where ls: "pi_log_start (p_inner p') = new_start" "pi_log_start (p_inner p) \<le> new_start"
      and hw: "pi_high_water (p_inner p') = pi_high_water (p_inner p)"
      and act: "pi_active (p_inner p') = pi_active (p_inner p)"
      and ok': "log_ok (pd_files dir') (p_inner p') bss' bs"
      and keep: "filter (\<lambda>b. new_start \<le> batch_last b) (concat bss') =
        filter (\<lambda>b. new_start \<le> batch_last b) (concat bss)" by blast
  have sn: "p_snapshot p' = snapshot_of (p_inner p')"
    using assms(2,3) by (auto simp: delete_records_def Let_def publish_def split: if_splits prod.splits)
  have narrow: "filter (\<lambda>b. start \<le> batch_last b) xs =
      filter (\<lambda>b. start \<le> batch_last b) (filter (\<lambda>b. new_start \<le> batch_last b) xs)" for xs
    using assms(5) by (auto intro!: filter_cong)
  have "filter (\<lambda>b. start \<le> batch_last b) (concat bss') = filter (\<lambda>b. start \<le> batch_last b) (concat bss)"
    using narrow [of "concat bss"] narrow [of "concat bss'"] keep by simp
  then show ?thesis
    using read_snapshot_batches [OF ok' assms(4), of start max_bytes]
      read_snapshot_batches [OF assms(1,4), of start max_bytes] ls hw act sn assms(2,5,6)
    by (simp add: partition_read_def max_absorb1 snapshot_of_def)
qed

text \<open>C6: deleting records up to \<open>target\<close> (-1: up to the high watermark) answers the new log
  start, never moves it back, keeps the high watermark, and leaves every later read as it was: a
  read from any offset at or past the new log start returns the same bytes before and after,
  although whole segments and their files are gone.\<close>

theorem delete_records_keeps_later_reads:
  assumes "log_ok (pd_files dir) (p_inner p) bss bs" "p_snapshot p = snapshot_of (p_inner p)"
    and "delete_records io dir p target = (Inr new_start, dir', p')"
    and "\<not> io_fails io' Open_read" "new_start \<le> start"
    and "sm_base_offset (as_meta (pi_active (p_inner p))) - start \<le> 2 ^ 31"
  shows "rs_log_start (p_snapshot p') = new_start \<and> pi_log_start (p_inner p) \<le> new_start \<and>
    rs_high_water (p_snapshot p') = pi_high_water (p_inner p) \<and>
    partition_read io' dir' p' start max_bytes = partition_read io' dir p start max_bytes"
  using assms by (rule delete_records_later_reads)

text \<open>C7: a refused append has no effect. A stalled partition, an epoch older than the
  partition's, a sequence gap and a fenced producer leave directory and partition untouched, and
  a retried batch is answered with the offset it was first given without touching them either.\<close>

theorem refused_append_no_effect:
  "(pi_flush_err (p_inner p) \<noteq> None \<longrightarrow> append io dir p epoch batch = (Inl Stalled, dir, p)) \<and>
   (pi_flush_err (p_inner p) = None \<and> epoch < pi_epoch (p_inner p) \<longrightarrow>
      append io dir p epoch batch = (Inl EpochMismatch, dir, p)) \<and>
   (pi_flush_err (p_inner p) = None \<and> pi_epoch (p_inner p) \<le> epoch \<and>
      dedup_answer (p_inner p) batch = Some off \<longrightarrow>
      append io dir p epoch batch = (Inr (off, 0, False), dir, p)) \<and>
   (fst (append io dir p epoch batch) \<in> {Inl Stalled, Inl EpochMismatch, Inl OutOfOrderSequence,
        Inl InvalidProducerEpoch} \<longrightarrow> snd (append io dir p epoch batch) = (dir, p))"
proof (intro conjI impI)
  let ?r = "append io dir p epoch batch"
  have io_only: "fst (append_write io dir p batch i) \<notin> {Inl Stalled, Inl EpochMismatch,
      Inl OutOfOrderSequence, Inl InvalidProducerEpoch}" for i
    by (auto simp: append_write_def append_roll_def Let_def
        split: if_splits prod.splits sum.splits bool.splits)
  show "?r = (Inl Stalled, dir, p)" if "pi_flush_err (p_inner p) \<noteq> None"
    using that by (simp add: append_def Let_def)
  show "?r = (Inl EpochMismatch, dir, p)"
    if "pi_flush_err (p_inner p) = None \<and> epoch < pi_epoch (p_inner p)"
    using that by (simp add: append_def Let_def)
  show "?r = (Inr (off, 0, False), dir, p)"
    if d: "pi_flush_err (p_inner p) = None \<and> pi_epoch (p_inner p) \<le> epoch \<and>
      dedup_answer (p_inner p) batch = Some off"
  proof -
    from d obtain info where info: "parse_batch_producer_info batch = Inr info"
      and c: "classify (pi_producer_states (p_inner p)) info = Duplicate off"
      by (auto simp: dedup_answer_def split: sum.splits outcome.splits)
    from info have "57 \<le> length batch"
      by (auto simp: parse_batch_producer_info_def split: if_splits)
    with d info c show ?thesis by (simp add: append_def Let_def)
  qed
  show "snd ?r = (dir, p)" if e: "fst ?r \<in> {Inl Stalled, Inl EpochMismatch, Inl OutOfOrderSequence,
      Inl InvalidProducerEpoch}"
  proof (rule ccontr)
    assume "snd ?r \<noteq> (dir, p)"
    then have "\<exists>i. ?r = append_write io dir p batch i"
      unfolding append_def Let_def
      by (simp split: if_splits option.splits sum.splits outcome.splits) blast+
    with e io_only show False by metis
  qed
qed

section \<open>Witnesses\<close>

text \<open>A partition whose active segment, at base 0 and epoch 0, holds two batches (offsets 0 to 2
  and 3).\<close>

definition demo_batches :: "bytes list" where
  "demo_batches = [demo_batch 0 2, demo_batch 3 0]"

definition demo_meta :: segment_meta where
  "demo_meta = \<lparr>sm_base_offset = 0, sm_epoch = 0, sm_size = 122,
     sm_log_path = segment_log_path 0 0, sm_index_path = segment_index_path 0 0,
     sm_max_timestamp = 0\<rparr>"

definition demo_inner :: partition_inner where
  "demo_inner = opened_inner 0 4 0 []
     \<lparr>as_meta = demo_meta, as_log = True, as_index = Some 0, as_log_size = 122, as_last_offset = 3,
      as_last_indexed_log_pos = 0, as_max_timestamp = 0, as_created_at_ms = Some 0\<rparr> [] ([], [])"

definition demo_part_dir :: part_dir where
  "demo_part_dir = \<lparr>pd_files = [(segment_log_path 0 0, concat demo_batches), (segment_index_path 0 0, [])],
     pd_manifest = Absent, pd_legacy_epoch = None, pd_producer_snapshot = Absent,
     pd_txn_snapshot = Absent, pd_checkpoint = Absent\<rparr>"

definition demo_cfg :: partition_config where
  "demo_cfg = \<lparr>pc_segment_bytes = 150, pc_segment_ms = None, pc_index_interval_bytes = 100,
     pc_flush_interval_messages = 1\<rparr>"

definition demo_part :: partition where
  "demo_part = open_partition demo_cfg demo_inner"

lemma demo_consecutive: "consecutive 0 demo_batches" "length (concat demo_batches) = 122"
    "end_offset_of 0 demo_batches = 4"
  by code_simp+

lemma demo_log_ok: "log_ok (pd_files demo_part_dir) demo_inner [] demo_batches"
proof -
  have "meta_named demo_meta"
    by (rule created_named [of 0 0]) (simp_all add: demo_meta_def int_bounds)
  then show ?thesis
    using demo_consecutive log_path_neq_index_path [of 0 0 0 0]
    by (simp add: log_ok_def demo_inner_def opened_inner_def segments_of_def active_holds_def
        seg_holds_def demo_part_dir_def demo_meta_def int_bounds)
qed

lemma demo_part_simps:
  "p_inner demo_part = demo_inner" "p_snapshot demo_part = snapshot_of demo_inner"
  "pi_high_water demo_inner = 4" "pi_log_start demo_inner = 0" "pi_epoch demo_inner = 0"
  "as_log_size (pi_active demo_inner) = 122" "sm_base_offset (as_meta (pi_active demo_inner)) = 0"
  by (simp_all add: demo_part_def open_partition_def demo_inner_def opened_inner_def demo_meta_def)

lemma healthy_io_ok [simp]: "\<not> io_fails healthy_io c"
  by (simp add: healthy_io_def)

theorem read_is_log_filter_witness:
  "partition_read healthy_io demo_part_dir demo_part 1 100 = Inr (take 100 (concat demo_batches))"
proof -
  have "filter (\<lambda>b. 1 \<le> batch_last b) demo_batches = demo_batches" by code_simp
  with read_is_log_filter [of demo_part_dir demo_part "[]" demo_batches healthy_io 1 100] demo_log_ok
  show ?thesis by (simp add: demo_part_simps)
qed

lemma demo_append_result:
  "fst (append healthy_io demo_part_dir demo_part 0 (demo_batch 77 1)) = Inr (4, 1, True)"
  "framed (demo_batch 77 1)" "batch_delta (demo_batch 77 1) = 1" "length (demo_batch 77 1) = 61"
  "dedup_answer demo_inner (demo_batch 77 1) = None"
  by code_simp+

lemma demo_append_run:
  "append healthy_io demo_part_dir demo_part 0 (demo_batch 77 1) =
   (Inr (4, (1, True)), fst (snd (append healthy_io demo_part_dir demo_part 0 (demo_batch 77 1))),
    snd (snd (append healthy_io demo_part_dir demo_part 0 (demo_batch 77 1))))"
  using demo_append_result(1) by (metis prod.collapse)

theorem append_extends_log_witness:
  "pi_high_water (p_inner (snd (snd (append healthy_io demo_part_dir demo_part 0 (demo_batch 77 1))))) = 6"
  using append_extends_log [of demo_part_dir demo_part "[]" demo_batches, OF _ _ _ _ _ _ _ _ demo_append_run]
    demo_log_ok demo_append_result
  by (simp add: demo_part_simps int_bounds u64_MAX_def)

theorem append_then_read_witness:
  "partition_read healthy_io
     (fst (snd (append healthy_io demo_part_dir demo_part 0 (demo_batch 77 1))))
     (snd (snd (append healthy_io demo_part_dir demo_part 0 (demo_batch 77 1)))) 4 1000 =
   Inr (rebase 4 (demo_batch 77 1))"
proof -
  have "take 1000 (rebase 4 (demo_batch 77 1)) = rebase 4 (demo_batch 77 1)" by code_simp
  then show ?thesis
    using append_then_read [of demo_part_dir demo_part "[]" demo_batches,
        OF _ _ _ _ _ _ _ _ demo_append_run, of healthy_io 1000] demo_log_ok demo_append_result
    by (simp add: demo_part_simps int_bounds u64_MAX_def)
qed

theorem delete_records_keeps_later_reads_witness:
  "partition_read healthy_io (fst (snd (delete_records healthy_io demo_part_dir demo_part 3)))
     (snd (snd (delete_records healthy_io demo_part_dir demo_part 3))) 3 500 =
   partition_read healthy_io demo_part_dir demo_part 3 500"
proof -
  have "fst (delete_records healthy_io demo_part_dir demo_part 3) = Inr 3" by code_simp
  then have "delete_records healthy_io demo_part_dir demo_part 3 =
      (Inr 3, fst (snd (delete_records healthy_io demo_part_dir demo_part 3)),
       snd (snd (delete_records healthy_io demo_part_dir demo_part 3)))"
    by (metis prod.collapse)
  from delete_records_keeps_later_reads [of demo_part_dir demo_part "[]" demo_batches, OF _ _ this,
      of healthy_io 3 500] demo_log_ok
  show ?thesis by (simp add: demo_part_simps)
qed

theorem refused_append_no_effect_witness:
  "append healthy_io demo_part_dir (demo_part\<lparr>p_inner := demo_inner\<lparr>pi_epoch := 7\<rparr>\<rparr>) 5 (demo_batch 0 0) =
   (Inl EpochMismatch, demo_part_dir, demo_part\<lparr>p_inner := demo_inner\<lparr>pi_epoch := 7\<rparr>\<rparr>)"
  using refused_append_no_effect [of "demo_part\<lparr>p_inner := demo_inner\<lparr>pi_epoch := 7\<rparr>\<rparr>" healthy_io
      demo_part_dir 5 "demo_batch 0 0"]
  by (simp add: demo_inner_def opened_inner_def)

end
