(* ===== verification/PartitionRecovery.thy ===== *)
theory PartitionRecovery
  imports PartitionLog
begin

text \<open>
  Crash recovery and change of leadership of a partition: the scan and truncation at open, the
  epoch-stamped roll and the persisted manifest of a take-over, and what the two retention
  targets drop.
\<close>

section \<open>Recovery of the active log\<close>

lemma recover_from_boundary:
  assumes crc: "crc32c_streaming crc crc_append" and io: "\<not> io_fails io Open_read"
    "\<not> io_fails io Truncate_log" "\<not> io_fails io Truncate_unsupported"
    and cp: "scan_from cp active = (length (concat pre), end_offset_of base pre)"
    and f: "hm_get fs (sm_log_path (as_meta active)) = Some (concat pre @ concat bs @ tail)"
    and bs: "list_all (checked crc) bs" and tail: "\<forall>b g. tail = b @ g \<longrightarrow> \<not> checked crc b"
    and size: "as_log_size active = length (concat pre @ concat bs @ tail)"
  shows "recover_active io crc crc_append fs cp active =
    (if length tail < 12 then (Inr (end_offset_of base (pre @ bs), active), fs)
     else (Inr (end_offset_of base (pre @ bs), active\<lparr>as_log_size := length (concat (pre @ bs)),
             as_meta := (as_meta active)\<lparr>sm_size := length (concat (pre @ bs))\<rparr>\<rparr>),
           hm_insert (sm_log_path (as_meta active)) (concat (pre @ bs)) fs))"
proof -
  let ?f = "concat pre @ concat bs @ tail"
  have "drop (length (concat pre)) ?f = concat bs @ tail" by simp
  from scan_loop_batches [OF crc this bs, of "end_offset_of base pre" "length (concat pre)"] tail obtain s
    where scan: "scan_high_watermark_from crc crc_append ?f (length (concat pre)) (end_offset_of base pre) =
      \<lparr>sr_high_watermark = end_offset_of base (pre @ bs), sr_valid_end = length (concat (pre @ bs)), sr_stop = s\<rparr>"
      and s: "s = Eof \<longleftrightarrow> length tail < 12"
    by (auto simp: scan_high_watermark_from_def end_offset_append)
  show ?thesis
  proof (cases "length tail < 12")
    case True
    with scan s io cp f show ?thesis by (simp add: recover_active_def fs_contents_def)
  next
    case False
    then have "tail \<noteq> []" by auto
    with False scan s io cp f size show ?thesis
      by (simp add: recover_active_def fs_contents_def truncate_to_def fs_truncate_def Let_def)
  qed
qed

section \<open>Taking over\<close>

lemma named_apart_epoch:
  assumes "meta_named m" "meta_named m'" "sm_epoch m \<noteq> sm_epoch m'"
  shows "sm_log_path m \<noteq> sm_log_path m'" "sm_index_path m \<noteq> sm_index_path m'"
  using assms by (auto simp: meta_named_def)

text \<open>The outgoing segment is empty: its files go, the new ones take its place.\<close>

lemma replace_empty_log_ok:
  assumes ok: "log_ok (pd_files dir) g bss []" and ep: "0 \<le> e" "e \<le> u32_MAX"
    "sm_epoch (as_meta (pi_active g)) \<noteq> e"
    and cr: "create_segment io (pd_files dir) (pi_high_water g) e = (Inr a', fs')"
    and m: "sm_log_path m = sm_log_path (as_meta (pi_active g))"
      "sm_index_path m = sm_index_path (as_meta (pi_active g))"
  shows "log_ok (remove_segments io' fs' [m]) (g\<lparr>pi_active := a'\<rparr>) bss []"
proof -
  let ?a = "as_meta (pi_active g)"
  note base = log_ok_active_base [OF ok]
  have hw: "pi_high_water g = sm_base_offset ?a" using ok by (simp add: log_ok_def)
  have ch: "closed_hold (pd_files dir) (sm_base_offset ?a) (pi_closed g) bss" using ok by (simp add: log_ok_def)
  have named: "\<And>x. x \<in> set (segments_of g) \<Longrightarrow> meta_named x" using ok by (simp add: log_ok_def)
  note created = create_segment_holds [OF cr]
  have a'_meta: "sm_base_offset (as_meta a') = pi_high_water g"
    "sm_log_path (as_meta a') = segment_log_path (pi_high_water g) e"
    "sm_index_path (as_meta a') = segment_index_path (pi_high_water g) e" "sm_epoch (as_meta a') = e"
    using created by simp_all
  have named': "meta_named (as_meta a')"
    using base ep a'_meta by (intro created_named [of "pi_high_water g" e]) simp_all
  have na: "meta_named ?a" using named by (simp add: segments_of_def)
  have apart_new: "sm_log_path (as_meta a') \<noteq> sm_log_path m" "sm_index_path (as_meta a') \<noteq> sm_index_path m"
    "sm_log_path (as_meta a') \<noteq> sm_index_path m" "sm_index_path (as_meta a') \<noteq> sm_log_path m"
    using named_apart_epoch [OF named' na] ep a'_meta m named_log_index [OF named' na]
      named_log_index [OF na named'] by metis+
  have frame: "hm_get (remove_segments io' fs' [m]) (sm_log_path x) = hm_get (pd_files dir) (sm_log_path x) \<and>
      hm_get (remove_segments io' fs' [m]) (sm_index_path x) = hm_get (pd_files dir) (sm_index_path x)"
    if x: "x \<in> set (pi_closed g)" for x
  proof -
    have nx: "meta_named x" using named x by (simp add: segments_of_def)
    have "sm_base_offset x \<noteq> sm_base_offset (as_meta a')"
      using closed_hold_bases(1) [OF ch x] hw a'_meta by simp
    note new = named_apart_all [OF nx named' this]
    note old = closed_apart_active [OF ok x]
    have "hm_get (remove_segments io' fs' [m]) q = hm_get (pd_files dir) q"
      if "q \<noteq> sm_log_path m" "q \<noteq> sm_index_path m" "q \<noteq> segment_log_path (pi_high_water g) e"
        "q \<noteq> segment_index_path (pi_high_water g) e" for q
      using that create_segment_frame [OF cr, of q] remove_segments_frame [of "[m]" q io' fs'] by simp
    with new old show ?thesis unfolding m a'_meta by simp
  qed
  have "closed_hold (remove_segments io' fs' [m]) (pi_high_water g) (pi_closed g) bss"
    using ch frame unfolding hw by (subst closed_hold_cong [where fs = "pd_files dir"]) auto
  moreover have "active_holds (remove_segments io' fs' [m]) a' []"
  proof -
    have "hm_get (remove_segments io' fs' [m]) (sm_log_path (as_meta a')) = hm_get fs' (sm_log_path (as_meta a'))"
      "hm_get (remove_segments io' fs' [m]) (sm_index_path (as_meta a')) = hm_get fs' (sm_index_path (as_meta a'))"
      using apart_new by (auto intro!: remove_segments_frame)
    moreover have "active_holds fs' a' []" using created by (rule conjunct1)
    ultimately show ?thesis unfolding active_holds_def seg_holds_def by simp
  qed
  ultimately show ?thesis
    using ok named' base a'_meta by (auto simp: log_ok_def segments_of_def)
qed

lemma roll_for_epoch_log_ok:
  assumes ok: "log_ok (pd_files dir) g bss bs" and ep: "0 \<le> e" "e \<le> u32_MAX"
    and r: "roll_for_epoch_locked io dir g e = (Inr u, dir', g')"
  shows "(\<exists>bss' bs'. log_ok (pd_files dir') g' bss' bs' \<and> concat bss' @ bs' = concat bss @ bs) \<and>
    sm_epoch (as_meta (pi_active g')) = e \<and> sm_base_offset (as_meta (pi_active g')) = pi_high_water g \<and>
    pi_high_water g' = pi_high_water g \<and> pi_log_start g' = pi_log_start g \<and>
    pi_flush_err g' = pi_flush_err g \<and> pd_manifest dir' = pd_manifest dir"
proof (cases "sm_epoch (as_meta (pi_active g)) = e \<and> sm_base_offset (as_meta (pi_active g)) = pi_high_water g")
  case True
  with ok r show ?thesis by (auto simp: roll_for_epoch_locked_def Let_def)
next
  case roll: False
  have size: "as_log_size (pi_active g) = length (concat bs)"
    using ok by (simp add: log_ok_def active_holds_def)
  have fr: "list_all framed bs"
    using ok consecutive_framed by (auto simp: log_ok_def active_holds_def seg_holds_def)
  have empty_iff: "0 < as_log_size (pi_active g) \<longleftrightarrow> bs \<noteq> []"
    using size fr framed_nonempty by (cases bs) auto
  obtain a' fs' where cr: "create_segment io (pd_files dir) (pi_high_water g) e = (Inr a', fs')"
    and res: "(dir', g') = (if 0 < as_log_size (pi_active g)
      then (dir\<lparr>pd_files := fs'\<rparr>, g\<lparr>pi_active := a',
        pi_closed := pi_closed g @ [closed_meta_of (pi_active g)], pi_last_checkpoint_byte := 0\<rparr>)
      else (dir\<lparr>pd_files := remove_segments io fs' [closed_meta_of (pi_active g)]\<rparr>,
        g\<lparr>pi_active := a', pi_last_checkpoint_byte := 0\<rparr>))"
    using r roll by (auto simp: roll_for_epoch_locked_def Let_def split: if_splits sum.splits prod.splits)
  have a': "sm_epoch (as_meta a') = e" "sm_base_offset (as_meta a') = pi_high_water g"
    using create_segment_holds [OF cr] by simp_all
  have cm: "sm_log_path (closed_meta_of (pi_active g)) = sm_log_path (as_meta (pi_active g))"
    "sm_index_path (closed_meta_of (pi_active g)) = sm_index_path (as_meta (pi_active g))"
    "sm_base_offset (closed_meta_of (pi_active g)) = sm_base_offset (as_meta (pi_active g))"
    "sm_epoch (closed_meta_of (pi_active g)) = sm_epoch (as_meta (pi_active g))"
    by (simp_all add: closed_meta_of_def)
  have "\<exists>bss' bs'. log_ok (pd_files dir') g' bss' bs' \<and> concat bss' @ bs' = concat bss @ bs"
  proof (cases "bs = []")
    case True
    have "log_ok (remove_segments io fs' [closed_meta_of (pi_active g)]) (g\<lparr>pi_active := a'\<rparr>) bss []"
    proof (rule replace_empty_log_ok [OF _ ep _ cr cm(1,2)])
      show "log_ok (pd_files dir) g bss []" using ok True by simp
      then show "sm_epoch (as_meta (pi_active g)) \<noteq> e" using roll by (auto simp: log_ok_def)
    qed
    then have "log_ok (pd_files dir') g' bss []"
      using res empty_iff True log_ok_frame [of g' "g\<lparr>pi_active := a'\<rparr>"] by simp
    with True show ?thesis by blast
  next
    case False
    have "log_ok fs' (g\<lparr>pi_active := a', pi_closed := pi_closed g @ [closed_meta_of (pi_active g)]\<rparr>) (bss @ [bs]) []"
      by (rule create_next_log_ok [OF ok False cr ep(1,2) cm])
    then have "log_ok (pd_files dir') g' (bss @ [bs]) []"
      using res empty_iff False log_ok_frame [of g' "g\<lparr>pi_active := a',
        pi_closed := pi_closed g @ [closed_meta_of (pi_active g)]\<rparr>"] by simp
    moreover have "concat (bss @ [bs]) @ [] = concat bss @ bs" by simp
    ultimately show ?thesis by blast
  qed
  with res a' show ?thesis by (auto split: if_splits)
qed

lemma persist_frame:
  assumes "persist_state_locked io dir g e = (r, dir')"
  shows "pd_files dir' = pd_files dir"
  using assms
  by (auto simp: persist_state_locked_def write_unless_superseded_def write_unchecked_def Let_def
      split: if_splits sum.splits prod.splits read_result.splits)

lemma persist_stamp:
  assumes "persist_state_locked io dir g e = (Inr ok, dir')" "\<not> io_fails io Read_manifest"
  shows "Some e \<le> manifest_stamp dir' \<and> (ok \<longrightarrow> manifest_stamp dir' = Some e)"
proof (cases "Some e < manifest_stamp dir")
  case True
  then have "case manifest_read io dir of Inr (Present m) \<Rightarrow> e < mf_epoch m | _ \<Rightarrow> False"
    using assms(2) by (auto simp: manifest_read_def manifest_stamp_def split: json_file.splits)
  with True assms(1) show ?thesis by (auto simp: persist_state_locked_def)
next
  case False
  then have not: "\<not> (case manifest_read io dir of Inr (Present m) \<Rightarrow> e < mf_epoch m | _ \<Rightarrow> False)"
    using assms(2) by (auto simp: manifest_read_def manifest_stamp_def split: json_file.splits sum.splits option.splits)
  define d2 where "d2 = dir\<lparr>pd_producer_snapshot := Json (write_producer_snapshot (pi_producer_states g)),
      pd_txn_snapshot := Json (write_txn_index_snapshot (pi_open_txns g) (pi_aborted_txns g))\<rparr>"
  define m where "m = \<lparr>mf_epoch = e, mf_high_watermark = pi_high_water g, mf_log_start_offset = pi_log_start g\<rparr>"
  obtain eff where w: "write_unless_superseded io d2 m = (Inr eff, dir')" and ok: "ok = (eff = e)"
    using assms(1) not
    by (auto simp: persist_state_locked_def Let_def d2_def m_def split: if_splits sum.splits prod.splits)
  have "manifest_stamp d2 = manifest_stamp dir" by (simp add: d2_def manifest_stamp_def)
  with False have "\<not> Some (mf_epoch m) < manifest_stamp d2" by (simp add: m_def)
  with w show ?thesis
    unfolding write_readable [OF assms(2)]
    by (auto simp: m_def manifest_stamp_Json split: if_splits)
qed

section \<open>Retention targets\<close>

lemma drop_closed_at:
  assumes "sorted_wrt (<) (map sm_base_offset (xs @ ys) @ [b])"
  shows "drop_closed b (next_base_of b ys) (xs @ ys) = (xs, ys)"
proof -
  have kept: "drop_closed b t zs = ([], zs)"
    if "sorted_wrt (<) (map sm_base_offset zs @ [b])" "t \<le> next_base_of b zs" for t zs
    using that
  proof (induction zs)
    case (Cons z zs)
    have "sm_base_offset z < next_base_of b zs"
      using Cons(2) by (cases zs) (auto simp: next_base_of_def)
    with Cons show ?case by (simp add: next_base_of_def Let_def)
  qed simp
  show ?thesis
    using assms
  proof (induction xs)
    case Nil
    then show ?case by (simp add: kept)
  next
    case (Cons x xs)
    have "next_base_of b (xs @ ys) \<le> next_base_of b ys"
    proof (cases xs)
      case (Cons z zs)
      with \<open>sorted_wrt (<) (map sm_base_offset ((x # xs) @ ys) @ [b])\<close> show ?thesis
        by (cases ys) auto
    qed simp
    with Cons show ?case by (simp add: next_base_of_def Let_def)
  qed
qed

lemma size_target_split:
  "\<exists>xs ys. ms = xs @ ys \<and> size_target b ms s = next_base_of b ys \<and> sum_list (map sm_size xs) \<le> s"
proof (induction b ms s rule: size_target.induct)
  case (2 b m ms s)
  consider "s < sm_size m" | "\<not> s < sm_size m" "s - sm_size m = 0"
    | "\<not> s < sm_size m" "s - sm_size m \<noteq> 0" by blast
  then show ?case
  proof cases
    case 1
    then show ?thesis by (intro exI [of _ "[]"] exI [of _ "m # ms"]) simp
  next
    case 2
    then show ?thesis by (intro exI [of _ "[m]"] exI [of _ ms]) (simp add: next_base_of_def)
  next
    case 3
    from "2.IH" [OF 3] obtain xs ys where "ms = xs @ ys"
      "size_target b ms (s - sm_size m) = next_base_of b ys" "sum_list (map sm_size xs) \<le> s - sm_size m"
      by blast
    with 3 show ?thesis by (intro exI [of _ "m # xs"] exI [of _ ys]) simp
  qed
qed simp

text \<open>The timestamp retention dates a segment by: its largest record timestamp, else the file's
  modification time.\<close>

definition segment_date :: "io_env \<Rightarrow> segment_meta \<Rightarrow> int option" where
  "segment_date io m =
     (if 0 \<le> sm_max_timestamp m then Some (sm_max_timestamp m) else io_mtime io (sm_log_path m))"

lemma time_target_split:
  assumes "time_target io cutoff b ms t0 = Some t"
  shows "t0 = Some t \<or> (\<exists>xs ys. ms = xs @ ys \<and> t = next_base_of b ys \<and>
    (\<forall>m \<in> set xs. \<exists>d. segment_date io m = Some d \<and> d < cutoff))"
  using assms
proof (induction io cutoff b ms t0 rule: time_target.induct)
  case (2 io cutoff b m ms t0)
  show ?case
  proof (cases "segment_date io m")
    case None
    with 2(2) show ?thesis by (simp add: segment_date_def)
  next
    case (Some d)
    show ?thesis
    proof (cases "cutoff \<le> d")
      case True
      with Some 2(2) show ?thesis by (simp add: segment_date_def)
    next
      case False
      have "time_target io cutoff b ms (Some (next_base_of b ms)) = Some t"
        using 2(2) Some False by (simp add: segment_date_def next_base_of_def)
      with 2(1) [of d] Some False consider "next_base_of b ms = t"
        | xs ys where "ms = xs @ ys" "t = next_base_of b ys"
          "\<forall>m \<in> set xs. \<exists>d. segment_date io m = Some d \<and> d < cutoff"
        by (fastforce simp: segment_date_def next_base_of_def)
      then show ?thesis
      proof cases
        case 1
        with Some False show ?thesis
          by (intro disjI2 exI [of _ "[m]"] exI [of _ ms]) simp
      next
        case 2
        with Some False show ?thesis
          by (intro disjI2 exI [of _ "m # xs"] exI [of _ ys]) simp
      qed
    qed
  qed
qed simp

lemma log_ok_sorted:
  assumes "log_ok fs g bss bs"
  shows "sorted_wrt (<) (map sm_base_offset (pi_closed g) @ [sm_base_offset (as_meta (pi_active g))])"
proof -
  have ch: "closed_hold fs (sm_base_offset (as_meta (pi_active g))) (pi_closed g) bss"
    using assms by (simp add: log_ok_def)
  show ?thesis
    using closed_hold_sorted [OF ch] closed_hold_bases(1) [OF ch] by (auto simp: sorted_wrt_append)
qed

section \<open>Properties\<close>


text \<open>C9: taking over at a higher epoch. The partition adopts the epoch and answers its high
  watermark; the manifest carries at least that epoch; the active segment is a file stamped with
  the new epoch that starts at the high watermark, so no file of the previous leader is written
  again; the log is unchanged; and every append under an older epoch is refused from then on.\<close>

theorem take_over_fences:
  assumes "log_ok (pd_files dir) (p_inner p) bss bs"
    and "pi_epoch (p_inner p) < new_epoch" "0 \<le> new_epoch" "new_epoch \<le> u32_MAX"
    and "\<not> io_fails io Read_manifest"
    and "take_over io dir p new_epoch = (Inr hwm, dir', p')"
  shows "hwm = pi_high_water (p_inner p) \<and> pi_epoch (p_inner p') = new_epoch \<and>
    Some new_epoch \<le> manifest_stamp dir' \<and>
    sm_epoch (as_meta (pi_active (p_inner p'))) = new_epoch \<and>
    sm_base_offset (as_meta (pi_active (p_inner p'))) = hwm \<and>
    (\<exists>bss' bs'. log_ok (pd_files dir') (p_inner p') bss' bs' \<and> concat bss' @ bs' = concat bss @ bs) \<and>
    (\<forall>io2 e batch. e < new_epoch \<longrightarrow>
       fst (append io2 dir' p' e batch) \<in> {Inl Stalled, Inl EpochMismatch})"
proof -
  obtain u dir1 g1 where roll: "roll_for_epoch_locked io dir (p_inner p) new_epoch = (Inr u, dir1, g1)"
    using assms(2,6) by (auto simp: take_over_def Let_def split: sum.splits prod.splits)
  obtain ok where persist: "persist_state_locked io dir1 g1 new_epoch = (Inr ok, dir')"
    and p': "p' = publish p (g1\<lparr>pi_epoch := new_epoch\<rparr>)" and hwm: "hwm = pi_high_water g1"
    using assms(2,6) roll by (auto simp: take_over_def Let_def split: sum.splits prod.splits)
  note rolled = roll_for_epoch_log_ok [OF assms(1,3,4) roll]
  have stamp: "Some new_epoch \<le> manifest_stamp dir'" using persist_stamp [OF persist assms(5)] by simp
  have files: "pd_files dir' = pd_files dir1" by (rule persist_frame [OF persist])
  have inner: "p_inner p' = g1\<lparr>pi_epoch := new_epoch\<rparr>" using p' by (simp add: publish_def)
  have "fst (append io2 dir' p' e batch) \<in> {Inl Stalled, Inl EpochMismatch}" if "e < new_epoch" for io2 e batch
    using that inner by (simp add: append_def Let_def)
  moreover have "\<exists>bss' bs'. log_ok (pd_files dir') (p_inner p') bss' bs' \<and> concat bss' @ bs' = concat bss @ bs"
    using rolled files inner log_ok_frame [of "g1\<lparr>pi_epoch := new_epoch\<rparr>" g1] by simp
  ultimately show ?thesis using rolled stamp inner hwm by simp
qed

text \<open>size retention never overshoots: deleting records up to the offset it targets drops a
  prefix of the closed segments, and what is kept still has at least the configured number of
  bytes.\<close>

theorem size_retention_keeps_enough:
  assumes "log_ok fs (p_inner p) bss bs" "p_snapshot p = snapshot_of (p_inner p)"
    and "cleanup_target_for_size_bytes p retention_bytes = Some target"
    and "drop_closed (sm_base_offset (as_meta (pi_active (p_inner p)))) target (pi_closed (p_inner p)) =
      (dropped, kept)"
  shows "pi_closed (p_inner p) = dropped @ kept \<and>
    retention_bytes \<le> sum_list (map sm_size kept) + sm_size (as_meta (pi_active (p_inner p)))"
proof -
  let ?g = "p_inner p"
  let ?b = "sm_base_offset (as_meta (pi_active ?g))"
  let ?total = "sum_list (map sm_size (pi_closed ?g)) + sm_size (as_meta (pi_active ?g))"
  have t: "target = size_target ?b (pi_closed ?g) (?total - retention_bytes)" "retention_bytes < ?total"
    using assms(3) by (auto simp: cleanup_target_for_size_bytes_def assms(2) snapshot_of_def Let_def split: if_splits)
  from size_target_split [of "pi_closed ?g" ?b "?total - retention_bytes"] t obtain xs ys
    where ms: "pi_closed ?g = xs @ ys" and tg: "target = next_base_of ?b ys"
      and sum: "sum_list (map sm_size xs) \<le> ?total - retention_bytes" by auto
  have "drop_closed ?b target (pi_closed ?g) = (xs, ys)"
    using drop_closed_at [of xs ys ?b] log_ok_sorted [OF assms(1)] by (simp add: ms tg)
  with assms(4) ms sum t(2) show ?thesis by auto
qed

text \<open>time retention only drops what has expired: every segment that deleting records up to
  its target drops has a largest timestamp (or, when that is unknown, a file modification time)
  before the cutoff, and a segment that cannot be dated is never dropped.\<close>

theorem time_retention_drops_expired:
  assumes "log_ok fs (p_inner p) bss bs" "p_snapshot p = snapshot_of (p_inner p)"
    and "cleanup_target_for_time io p cutoff_ms = Some target"
    and "drop_closed (sm_base_offset (as_meta (pi_active (p_inner p)))) target (pi_closed (p_inner p)) =
      (dropped, kept)"
    and "m \<in> set dropped"
  shows "\<exists>d. segment_date io m = Some d \<and> d < cutoff_ms"
proof -
  let ?g = "p_inner p"
  let ?b = "sm_base_offset (as_meta (pi_active ?g))"
  have "time_target io cutoff_ms ?b (pi_closed ?g) None = Some target"
    using assms(2,3) by (simp add: cleanup_target_for_time_def snapshot_of_def)
  from time_target_split [OF this] obtain xs ys where ms: "pi_closed ?g = xs @ ys"
    and tg: "target = next_base_of ?b ys"
    and old: "\<forall>m \<in> set xs. \<exists>d. segment_date io m = Some d \<and> d < cutoff_ms" by auto
  have "drop_closed ?b target (pi_closed ?g) = (xs, ys)"
    using drop_closed_at [of xs ys ?b] log_ok_sorted [OF assms(1)] by (simp add: ms tg)
  with assms(4,5) old show ?thesis by simp
qed

section \<open>Findings\<close>

text \<open>A take-over that loses the race for the manifest (a higher epoch is already on disk) still
  adopts its own epoch and reports success.\<close>

lemma superseded_take_over_succeeds:
  assumes "pi_epoch (p_inner p) < e" "\<not> io_fails io Read_manifest" "Some e < manifest_stamp dir"
    and "roll_for_epoch_locked io dir (p_inner p) e = (Inr (), dir1, g1)"
    and "pd_manifest dir1 = pd_manifest dir"
  shows "take_over io dir p e = (Inr (pi_high_water g1), dir1, publish p (g1\<lparr>pi_epoch := e\<rparr>)) \<and>
    Some e < manifest_stamp dir1"
proof -
  have st: "Some e < manifest_stamp dir1" using assms(3,5) by (simp add: manifest_stamp_def)
  then have "persist_state_locked io dir1 g1 e = (Inr False, dir1)"
    using assms(2)
    by (auto simp: persist_state_locked_def manifest_read_def manifest_stamp_def split: json_file.splits)
  with assms(1,4) st show ?thesis by (simp add: take_over_def Let_def)
qed

text \<open>A torn tail of fewer than 12 bytes is not cut off: the next append lands behind it, and the
  recovery after that loses the appended batch.\<close>

lemma short_torn_tail_loses_append:
  "let torn = demo_batch 0 2 @ take 5 (demo_batch 3 0);
       after = file_write_at torn (length torn) (demo_batch 3 0) in
   sr_stop (scan_high_watermark_from sum_crc sum_crc_append torn 0 0) = Eof \<and>
   sr_high_watermark (scan_high_watermark_from sum_crc sum_crc_append torn 0 0) = 3 \<and>
   sr_high_watermark (scan_high_watermark_from sum_crc sum_crc_append after 0 0) = 3"
  by code_simp

text \<open>An append whose roll fails leaves the placeholder as the active segment; no later append
  of a well-formed batch succeeds.\<close>

lemma failed_roll_wedges:
  assumes "append_roll io dir cfg g n = (Inl e, dir', g')" "43 \<le> length batch"
  shows "\<exists>err fs'. append_batch io2 fs (pi_active g') batch iv = (Inl err, fs')"
proof -
  have "pi_active g' = placeholder_segment"
    using assms(1) by (auto simp: append_roll_def split: prod.splits sum.splits bool.splits)
  with assms(2) show ?thesis
    by (simp add: append_batch_def parse_batch_offsets_def placeholder_segment_def open_meta_only_def)
qed

section \<open>Witnesses\<close>

definition torn_dir :: part_dir where
  "torn_dir = demo_part_dir\<lparr>pd_files := hm_insert (segment_log_path 0 0)
     (concat demo_batches @ take 40 (demo_batch 4 0)) (pd_files demo_part_dir)\<rparr>"

lemma demo_torn_unchecked: "take 40 (demo_batch 4 0) = b @ g \<Longrightarrow> \<not> checked crc b"
proof
  assume eq: "take 40 (demo_batch 4 0) = b @ g" and "checked crc b"
  then have fr: "28 \<le> length b" "int (length b) = batch_length_field b + 12"
    by (simp_all add: checked_def framed_def)
  have "slice 8 12 b = slice 8 12 (take 40 (demo_batch 4 0))" using fr(1) by (simp add: eq)
  moreover have "be_i32 (slice 8 12 (take 40 (demo_batch 4 0))) = 49"
    "length (take 40 (demo_batch 4 0)) = 40" by code_simp+
  ultimately have "batch_length_field b = 49" "length b \<le> 40"
    using eq by (auto simp: batch_length_field_def)
  with fr(2) show False by simp
qed


theorem take_over_fences_witness:
  "pi_epoch (p_inner (snd (snd (take_over healthy_io demo_part_dir demo_part 3)))) = 3 \<and>
   fst (append healthy_io (fst (snd (take_over healthy_io demo_part_dir demo_part 3)))
     (snd (snd (take_over healthy_io demo_part_dir demo_part 3))) 2 (demo_batch 0 0))
   \<in> {Inl Stalled, Inl EpochMismatch}"
proof -
  have "fst (take_over healthy_io demo_part_dir demo_part 3) = Inr 4" by code_simp
  then have "take_over healthy_io demo_part_dir demo_part 3 =
      (Inr 4, fst (snd (take_over healthy_io demo_part_dir demo_part 3)),
       snd (snd (take_over healthy_io demo_part_dir demo_part 3)))"
    by (metis prod.collapse)
  from take_over_fences [of demo_part_dir demo_part "[]" demo_batches 3, OF _ _ _ _ _ this] demo_log_ok
  show ?thesis by (simp add: demo_part_simps int_bounds)
qed

definition rolled_meta :: "int \<Rightarrow> nat \<Rightarrow> int \<Rightarrow> segment_meta" where
  "rolled_meta base sz ts = \<lparr>sm_base_offset = base, sm_epoch = 0, sm_size = sz,
     sm_log_path = segment_log_path base 0, sm_index_path = segment_index_path base 0,
     sm_max_timestamp = ts\<rparr>"

definition rolled_part :: partition where
  "rolled_part = open_partition demo_cfg (demo_inner\<lparr>
     pi_closed := [rolled_meta 0 122 100],
     pi_active := (pi_active demo_inner)\<lparr>as_meta := rolled_meta 4 0 (-1), as_log_size := 0\<rparr>\<rparr>)"

definition rolled_files :: file_store where
  "rolled_files = [(segment_log_path 0 0, concat demo_batches), (segment_index_path 0 0, []),
     (segment_log_path 4 0, []), (segment_index_path 4 0, [])]"

lemma rolled_log_ok: "log_ok rolled_files (p_inner rolled_part) [demo_batches] []"
proof -
  have named: "meta_named (rolled_meta 0 122 100)" "meta_named (rolled_meta 4 0 (-1))"
    by (rule created_named [of 0 0] created_named [of 4 0], simp_all add: rolled_meta_def int_bounds)+
  have names: "segment_log_path 4 0 \<noteq> segment_log_path 0 0" "segment_index_path 4 0 \<noteq> segment_index_path 0 0"
    using named_apart [OF named(2,1)] by (simp_all add: rolled_meta_def)
  have "demo_batches \<noteq> []" by code_simp
  with named names show ?thesis
    using demo_consecutive log_path_neq_index_path [of 0 0 0 0] log_path_neq_index_path [of 4 0 4 0]
      log_path_neq_index_path [of 4 0 0 0] log_path_neq_index_path [of 0 0 4 0]
    by (simp add: log_ok_def rolled_part_def open_partition_def demo_inner_def opened_inner_def segments_of_def
        active_holds_def seg_holds_def rolled_files_def rolled_meta_def int_bounds next_base_of_def
        Let_def)
qed

lemma rolled_snapshot: "p_snapshot rolled_part = snapshot_of (p_inner rolled_part)"
  by (simp add: rolled_part_def open_partition_def)

theorem size_retention_keeps_enough_witness:
  "cleanup_target_for_size_bytes rolled_part 0 = Some 4 \<and>
   (\<exists>dropped kept. drop_closed 4 4 (pi_closed (p_inner rolled_part)) = (dropped, kept) \<and>
     pi_closed (p_inner rolled_part) = dropped @ kept)"
proof -
  have t: "cleanup_target_for_size_bytes rolled_part 0 = Some 4"
    "sm_base_offset (as_meta (pi_active (p_inner rolled_part))) = 4" by code_simp+
  obtain dropped kept where "drop_closed 4 4 (pi_closed (p_inner rolled_part)) = (dropped, kept)"
    by (rule prod.exhaust)
  with size_retention_keeps_enough [OF rolled_log_ok rolled_snapshot t(1), of dropped kept] t
  show ?thesis by simp
qed

theorem time_retention_drops_expired_witness:
  "\<exists>d. segment_date healthy_io (rolled_meta 0 122 100) = Some d \<and> d < 200"
proof -
  have "cleanup_target_for_time healthy_io rolled_part 200 = Some 4"
    "drop_closed (sm_base_offset (as_meta (pi_active (p_inner rolled_part)))) 4
      (pi_closed (p_inner rolled_part)) = ([rolled_meta 0 122 100], [])" by code_simp+
  from time_retention_drops_expired [OF rolled_log_ok rolled_snapshot this] show ?thesis by simp
qed

end
