(* ===== verification/FlushProtocol.thy ===== *)
theory FlushProtocol
  imports PartitionLog
begin

text \<open>
  The flush protocol of a partition (\<open>crates/kaas-storage/src/partition.rs\<close>: the end of \<open>append\<close>,
  \<open>await_flush\<close>, \<open>spawn_committer\<close>, \<open>probe_and_rearm\<close>) as a transition system. Appenders, the
  committer task with its channel of capacity one, the watchdog that gives up on a slow fsync, the
  fsync tasks it leaves behind and the parked appenders interleave freely; every step runs the
  model of the code it stands for. \<open>fl_disk\<close> is what stable storage holds: a successful fsync of
  a log file copies the file's contents there, nothing else does.
\<close>

section \<open>The system\<close>

datatype committer_phase =
    Parked | Woken | Checking nat | Syncing | Reporting sync_outcome | Probing | Rearmed nat

record flush_waiter =
  fw_seq :: nat
  fw_path :: string
  fw_pos :: nat
  fw_bytes :: bytes

record flush_system =
  fl_dir :: part_dir
  fl_part :: partition
  fl_disk :: file_store
  fl_channel :: bool
  fl_sending :: nat
  fl_phase :: committer_phase
  fl_orphans :: nat
  fl_waiters :: "flush_waiter list"
  fl_answered :: "(flush_waiter \<times> (storage_error + unit)) list"

abbreviation fl_inner :: "flush_system \<Rightarrow> partition_inner" where
  "fl_inner s \<equiv> p_inner (fl_part s)"

abbreviation fl_active :: "flush_system \<Rightarrow> active_segment" where
  "fl_active s \<equiv> pi_active (fl_inner s)"

abbreviation log_path_of :: "active_segment \<Rightarrow> string" where
  "log_path_of a \<equiv> sm_log_path (as_meta a)"

definition set_inner :: "partition_inner \<Rightarrow> flush_system \<Rightarrow> flush_system" where
  "set_inner g s = s\<lparr>fl_part := (fl_part s)\<lparr>p_inner := g\<rparr>\<rparr>"

text \<open>A successful fsync of the active log.\<close>

definition stabilise :: "flush_system \<Rightarrow> flush_system" where
  "stabilise s = s\<lparr>fl_disk := hm_insert (log_path_of (fl_active s))
     (fs_contents (pd_files (fl_dir s)) (log_path_of (fl_active s))) (fl_disk s)\<rparr>"

text \<open>The blocking fsync task of a committer cycle.\<close>

definition fsync_task :: "io_env \<Rightarrow> flush_system \<Rightarrow> sync_outcome \<times> flush_system" where
  "fsync_task io s =
     (case committer_sync io (fl_inner s) of
        (Inl e, g) \<Rightarrow> (Sync_io_error e, set_inner g s)
      | (Inr (seq, cp), g) \<Rightarrow>
          (Synced seq, set_inner g (stabilise
             (case cp of None \<Rightarrow> s | Some c \<Rightarrow> s\<lparr>fl_dir := checkpoint_write io (fl_dir s) c\<rparr>))))"

text \<open>One step of the committer task. The probe loop is one step per attempt.\<close>

definition committer_step :: "io_env \<Rightarrow> flush_system \<Rightarrow> flush_system" where
  "committer_step io s =
     (let g = fl_inner s in
      case fl_phase s of
        Parked \<Rightarrow> if fl_channel s then s\<lparr>fl_channel := False, fl_phase := Woken\<rparr> else s
      | Woken \<Rightarrow> s\<lparr>fl_phase := Checking (pi_requested_flush_seq g)\<rparr>
      | Checking target_seq \<Rightarrow>
          s\<lparr>fl_phase := if target_seq = pi_completed_flush_seq g then Parked else Syncing\<rparr>
      | Syncing \<Rightarrow> (let (r, s') = fsync_task io s in s'\<lparr>fl_phase := Reporting r\<rparr>)
      | Reporting r \<Rightarrow>
          (set_inner (committer_finish g r) s)
            \<lparr>fl_phase := case r of Synced _ \<Rightarrow> Parked | _ \<Rightarrow> Probing\<rparr>
      | Probing \<Rightarrow>
          if io_fails io Probe_write then s
          else (case rearm_sync io g of
                  Inl e \<Rightarrow> s
                | Inr covered_seq \<Rightarrow> (stabilise s)\<lparr>fl_phase := Rearmed covered_seq\<rparr>)
      | Rearmed covered_seq \<Rightarrow>
          (set_inner (rearm_finish g covered_seq) s)\<lparr>fl_phase := Parked\<rparr>)"

text \<open>An append up to the release of the lock. A roll on the way fsyncs the outgoing log; an append
  of \<open>acks = -1\<close> that crossed the flush interval parks on its sequence number.\<close>

definition rolled_over :: "partition \<Rightarrow> partition \<Rightarrow> bool" where
  "rolled_over p p' \<longleftrightarrow>
     as_log (pi_active (p_inner p)) \<and> as_log (pi_active (p_inner p')) \<and>
     log_path_of (pi_active (p_inner p)) \<noteq> log_path_of (pi_active (p_inner p'))"

definition flush_append ::
  "io_env \<Rightarrow> int \<Rightarrow> bytes \<Rightarrow> int \<Rightarrow> flush_system \<Rightarrow> flush_system" where
  "flush_append io epoch batch acks s =
     (case append io (fl_dir s) (fl_part s) epoch batch of
        (r, dir', p') \<Rightarrow>
          let s1 = (if rolled_over (fl_part s) p' then stabilise s else s)
                     \<lparr>fl_dir := dir', fl_part := p'\<rparr> in
          case r of
            Inr (assigned, seq, True) \<Rightarrow>
              let a' = pi_active (p_inner p');
                  w = \<lparr>fw_seq = seq, fw_path = log_path_of a',
                       fw_pos = as_log_size a' - length batch, fw_bytes = rebase assigned batch\<rparr>
              in s1\<lparr>fl_sending := fl_sending s + 1,
                    fl_waiters := if acks = -1 then fl_waiters s @ [w] else fl_waiters s\<rparr>
          | _ \<Rightarrow> s1)"

definition flush_send :: "flush_system \<Rightarrow> flush_system" where
  "flush_send s = s\<lparr>fl_sending := fl_sending s - 1, fl_channel := True\<rparr>"

text \<open>The batches the produce path hands down: framed, of at least one offset, and small enough for
  the offset and size counters.\<close>

definition appendable :: "flush_system \<Rightarrow> bytes \<Rightarrow> bool" where
  "appendable s batch \<longleftrightarrow>
     framed batch \<and> 0 \<le> batch_delta batch \<and>
     pi_high_water (fl_inner s) + batch_delta batch < i64_MAX \<and>
     int (as_log_size (fl_active s) + length batch) \<le> u64_MAX"

inductive flush_step :: "flush_system \<Rightarrow> flush_system \<Rightarrow> bool" where
  flush_step_append: "appendable s batch \<Longrightarrow> flush_step s (flush_append io epoch batch acks s)"
| flush_step_send: "0 < fl_sending s \<Longrightarrow> flush_step s (flush_send s)"
| flush_step_committer: "flush_step s (committer_step io s)"
| flush_step_elapsed: "fl_phase s = Syncing \<Longrightarrow>
    flush_step s (s\<lparr>fl_phase := Reporting Sync_stalled, fl_orphans := fl_orphans s + 1\<rparr>)"
| flush_step_late: "fl_phase s = Reporting r \<Longrightarrow>
    flush_step s (s\<lparr>fl_phase := Reporting Sync_stalled\<rparr>)"
| flush_step_orphan: "0 < fl_orphans s \<Longrightarrow>
    flush_step s ((snd (fsync_task io s))\<lparr>fl_orphans := fl_orphans s - 1\<rparr>)"
| flush_step_answer: "fl_waiters s = ws1 @ w # ws2 \<Longrightarrow>
    await_flush (fl_inner s) (fw_seq w) = Some r \<Longrightarrow>
    flush_step s (s\<lparr>fl_waiters := ws1 @ ws2, fl_answered := (w, r) # fl_answered s\<rparr>)"

definition flush_initial :: "flush_system \<Rightarrow> bool" where
  "flush_initial s \<longleftrightarrow>
     fl_channel s = False \<and> fl_sending s = 0 \<and> fl_phase s = Parked \<and> fl_orphans s = 0 \<and>
     fl_waiters s = [] \<and> fl_answered s = [] \<and>
     pi_requested_flush_seq (fl_inner s) = 0 \<and> pi_completed_flush_seq (fl_inner s) = 0 \<and>
     pi_flush_err (fl_inner s) = None \<and>
     (\<exists>bss bs. log_ok (pd_files (fl_dir s)) (fl_inner s) bss bs) \<and>
     0 \<le> pi_epoch (fl_inner s) \<and> pi_epoch (fl_inner s) \<le> u32_MAX"

inductive flush_reachable :: "flush_system \<Rightarrow> bool" where
  flush_start: "flush_initial s \<Longrightarrow> flush_reachable s"
| flush_next: "flush_reachable s \<Longrightarrow> flush_step s s' \<Longrightarrow> flush_reachable s'"

section \<open>What an append does to the active log\<close>

text \<open>The bytes of a log file below a position that later steps must not touch.\<close>

definition holds_at :: "file_store \<Rightarrow> flush_waiter \<Rightarrow> bool" where
  "holds_at fs w \<longleftrightarrow>
     slice (fw_pos w) (fw_pos w + length (fw_bytes w)) (fs_contents fs (fw_path w)) = fw_bytes w"

text \<open>The active segment is one of the partition's own files, as long as its accounting says, at or
  below the high watermark; or a failed roll left the placeholder, which has no handle.\<close>

definition active_sound :: "file_store \<Rightarrow> partition_inner \<Rightarrow> bool" where
  "active_sound fs g \<longleftrightarrow>
     0 \<le> pi_high_water g \<and> pi_high_water g \<le> i64_MAX \<and>
     0 \<le> pi_epoch g \<and> pi_epoch g \<le> u32_MAX \<and>
     (if as_log (pi_active g)
      then meta_named (as_meta (pi_active g)) \<and> sm_base_offset (as_meta (pi_active g)) \<le> pi_high_water g \<and>
        as_log_size (pi_active g) \<le> length (fs_contents fs (log_path_of (pi_active g))) \<and>
        (0 < as_log_size (pi_active g) \<longrightarrow> sm_base_offset (as_meta (pi_active g)) < pi_high_water g)
      else as_log_size (pi_active g) = 0)"

text \<open>A log file of offsets below the high watermark.\<close>

definition older_log :: "int \<Rightarrow> string \<Rightarrow> bool" where
  "older_log hwm path \<longleftrightarrow>
     (\<exists>stem b e. path = stem @ LOG_EXT \<and> parse_segment_stem stem = Some (b, e) \<and> b < hwm)"

lemma older_log_mono: "older_log h path \<Longrightarrow> h \<le> h' \<Longrightarrow> older_log h' path"
  by (force simp: older_log_def)

lemma log_neq_index: "meta_named m \<Longrightarrow> older_log h path \<Longrightarrow> path \<noteq> sm_index_path m"
proof
  assume "meta_named m" "older_log h path" "path = sm_index_path m"
  then obtain s s' where "s @ LOG_EXT = s' @ INDEX_EXT"
    unfolding meta_named_def older_log_def by metis
  then have "last (s @ LOG_EXT) = last (s' @ INDEX_EXT)" by simp
  then show False by (simp add: LOG_EXT_def INDEX_EXT_def)
qed

lemma older_log_neq_base:
  "older_log h path \<Longrightarrow> meta_named m \<Longrightarrow> h \<le> sm_base_offset m \<Longrightarrow> path \<noteq> sm_log_path m"
  by (auto simp: older_log_def meta_named_def)

lemma named_older: "meta_named m \<Longrightarrow> sm_base_offset m < h \<Longrightarrow> older_log h (sm_log_path m)"
  by (auto simp: older_log_def meta_named_def)

text \<open>Later steps keep the bytes below the recorded size; the path of the active log changes only to
  a file that starts at the high watermark, or to the placeholder.\<close>

definition active_moves ::
  "int \<Rightarrow> file_store \<Rightarrow> active_segment \<Rightarrow> file_store \<Rightarrow> active_segment \<Rightarrow> bool" where
  "active_moves h fs a fs' a' \<longleftrightarrow>
     (\<forall>w. older_log h (fw_path w) \<longrightarrow> holds_at fs w \<longrightarrow>
        (fw_path w = log_path_of a \<longrightarrow> fw_pos w + length (fw_bytes w) \<le> as_log_size a) \<longrightarrow>
        holds_at fs' w) \<and>
     (as_log a' \<longrightarrow> as_log a) \<and>
     (if log_path_of a' = log_path_of a then as_log a' = as_log a \<and> as_log_size a \<le> as_log_size a'
      else as_log a \<and> \<not> older_log h (log_path_of a'))"

lemma fs_contents_simps [simp]:
  "fs_contents (hm_insert p x fs) q = (if q = p then x else fs_contents fs q)"
  "fs_contents (hm_remove p fs) q = (if q = p then [] else fs_contents fs q)"
  "fs_contents (fs_write_at fs p off raw) q =
     (if q = p then file_write_at (fs_contents fs p) off raw else fs_contents fs q)"
  by (auto simp: fs_contents_def fs_write_at_def)

lemma active_moves_trans:
  assumes "active_moves h fs a fs1 a1" "active_moves h fs1 a1 fs2 a2" "log_path_of a2 = log_path_of a1"
  shows "active_moves h fs a fs2 a2"
  using assms unfolding active_moves_def by (smt (verit, ccfv_threshold) le_trans)

lemma create_segment_contents:
  assumes "create_segment io fs base epoch = (r, fs')" "q \<noteq> segment_log_path base epoch"
    "q \<noteq> segment_index_path base epoch"
  shows "fs_contents fs' q = fs_contents fs q"
  using create_segment_frame [OF assms] by (simp add: fs_contents_def)

lemma new_paths_not_older:
  assumes "0 \<le> h" "h \<le> i64_MAX" "0 \<le> e" "e \<le> u32_MAX"
  shows "\<not> older_log h (segment_log_path h e)" "older_log h path \<Longrightarrow> path \<noteq> segment_index_path h e"
proof -
  let ?m = "\<lparr>sm_base_offset = h, sm_epoch = e, sm_size = 0, sm_log_path = segment_log_path h e,
    sm_index_path = segment_index_path h e, sm_max_timestamp = 0\<rparr>"
  have m: "meta_named ?m" using assms by (intro created_named [of h e]) simp_all
  show "\<not> older_log h (segment_log_path h e)"
    using older_log_neq_base [OF _ m] by fastforce
  show "path \<noteq> segment_index_path h e" if "older_log h path"
    using log_neq_index [OF m that] by simp
qed

lemma placeholder_path:
  "\<not> older_log h (log_path_of placeholder_segment)"
  "meta_named m \<Longrightarrow> log_path_of placeholder_segment \<noteq> sm_log_path m"
  "\<not> as_log placeholder_segment" "as_log_size placeholder_segment = 0"
proof -
  have eq: "log_path_of placeholder_segment = ''_placeholder'' @ LOG_EXT" by code_simp
  have no: "parse_segment_stem ''_placeholder'' = None" by code_simp
  show "\<not> older_log h (log_path_of placeholder_segment)"
    "meta_named m \<Longrightarrow> log_path_of placeholder_segment \<noteq> sm_log_path m"
    unfolding eq older_log_def meta_named_def using no by auto
  show "\<not> as_log placeholder_segment" "as_log_size placeholder_segment = 0" by code_simp+
qed

lemma append_roll_moves:
  assumes r: "append_roll io dir cfg g n = (res, dir1, g1)" and sound: "active_sound (pd_files dir) g"
  shows "active_moves (pi_high_water g) (pd_files dir) (pi_active g) (pd_files dir1) (pi_active g1) \<and>
    active_sound (pd_files dir1) g1 \<and> as_log_size (pi_active g1) \<le> as_log_size (pi_active g) \<and>
    (\<exists>cl. g1 = g\<lparr>pi_closed := cl, pi_active := pi_active g1\<rparr>)"
proof -
  obtain due a where d: "roll_due io cfg (pi_active g) n = (due, a)" by fastforce
  then obtain c where a: "a = (pi_active g)\<lparr>as_created_at_ms := c\<rparr>"
    and due: "due \<Longrightarrow> 0 < as_log_size (pi_active g)"
    using roll_due_active by blast
  show ?thesis
  proof (cases due)
    case False
    with d r have g1: "g1 = g\<lparr>pi_active := a\<rparr>" "dir1 = dir" by (auto simp: append_roll_def)
    then have "g1 = g\<lparr>pi_closed := pi_closed g, pi_active := pi_active g1\<rparr>" by simp
    with g1 sound show ?thesis
      by (auto simp: a active_moves_def active_sound_def intro: exI [of _ "pi_closed g"])
  next
    case True
    let ?h = "pi_high_water g" and ?e = "pi_epoch g"
    have log: "as_log (pi_active g)" and named: "meta_named (as_meta (pi_active g))"
      and rng: "0 \<le> ?h" "?h \<le> i64_MAX" "0 \<le> ?e" "?e \<le> u32_MAX"
      and base: "sm_base_offset (as_meta (pi_active g)) < ?h"
      using sound due [OF True] by (auto simp: active_sound_def split: if_splits)
    note new = new_paths_not_older [OF rng]
    have old: "older_log ?h (log_path_of (pi_active g))" by (rule named_older [OF named base])
    have keep: "holds_at fs' w" if "create_segment io (pd_files dir) ?h ?e = (x, fs')"
      "older_log ?h (fw_path w)" "holds_at (pd_files dir) w" for x fs' w
      using that(3) create_segment_contents [OF that(1), of "fw_path w"] new(1) new(2) [OF that(2)] that(2)
      by (metis holds_at_def)
    consider (fail) fs' where "g1 = g\<lparr>pi_active := placeholder_segment\<rparr>" "dir1 = dir\<lparr>pd_files := fs'\<rparr>"
        "fs' = pd_files dir \<or> (\<exists>x. create_segment io (pd_files dir) ?h ?e = (x, fs'))"
      | (ok) na fs' where "create_segment io (pd_files dir) ?h ?e = (Inr na, fs')"
        "dir1 = dir\<lparr>pd_files := fs'\<rparr>"
        "g1 = g\<lparr>pi_closed := pi_closed g @ [closed_meta_of a], pi_active := na\<rparr>"
    proof (cases "as_log a \<and> io_fails io Sync_log")
      case True
      with r d \<open>due\<close> show thesis by (intro fail [of "pd_files dir"]) (simp_all add: append_roll_def roll_fast_def)
    next
      case False
      obtain x fs' where cr: "create_segment io (pd_files dir) ?h ?e = (x, fs')" by (rule prod.exhaust)
      have roll: "append_roll io dir cfg g n =
          (case x of Inl e \<Rightarrow> (Inl (StorageIo e), dir\<lparr>pd_files := fs'\<rparr>, g\<lparr>pi_active := placeholder_segment\<rparr>)
           | Inr na \<Rightarrow> (Inr (), dir\<lparr>pd_files := fs'\<rparr>,
               g\<lparr>pi_closed := pi_closed g @ [closed_meta_of a], pi_active := na\<rparr>))"
        using d \<open>due\<close> False cr by (cases x) (auto simp: append_roll_def roll_fast_def)
      show thesis
      proof (cases x)
        case (Inl e)
        with roll r cr show thesis by (intro fail [of fs']) auto
      next
        case (Inr na)
        with roll r cr show thesis by (intro ok [of na fs']) auto
      qed
    qed
    then show ?thesis
    proof cases
      case fail
      have "g1 = g\<lparr>pi_closed := pi_closed g, pi_active := pi_active g1\<rparr>" using fail by simp
      moreover have "active_moves ?h (pd_files dir) (pi_active g) fs' placeholder_segment"
        using placeholder_path(2) [OF named] fail(3) log keep
        by (auto simp: active_moves_def placeholder_path)
      moreover have "active_sound fs' (g\<lparr>pi_active := placeholder_segment\<rparr>)"
        using rng by (simp add: active_sound_def placeholder_path)
      ultimately show ?thesis
        using fail by (auto simp: placeholder_path intro!: exI [of _ "pi_closed g"])
    next
      case ok
      note created = create_segment_holds [OF ok(1)]
      have na: "as_log na" "as_log_size na = 0" "log_path_of na = segment_log_path ?h ?e"
        "sm_base_offset (as_meta na) = ?h"
        using created by (simp_all add: active_holds_def)
      have "meta_named (as_meta na)"
        using created rng by (intro created_named [of ?h ?e]) simp_all
      then have "active_sound fs' g1" using na rng ok by (simp add: active_sound_def)
      moreover have "active_moves ?h (pd_files dir) (pi_active g) fs' na"
        using old new(1) na log keep [OF ok(1)] by (auto simp: active_moves_def)
      ultimately show ?thesis using ok na by (auto intro!: exI [of _ "pi_closed g @ [closed_meta_of a]"])
    qed
  qed
qed

lemma append_batch_moves:
  assumes ap: "append_batch io fs a raw iv = (res, fs')"
    and a: "as_log a" "meta_named (as_meta a)" "as_log_size a \<le> length (fs_contents fs (log_path_of a))"
  shows "older_log h (fw_path w) \<Longrightarrow> holds_at fs w \<Longrightarrow>
      (fw_path w = log_path_of a \<longrightarrow> fw_pos w + length (fw_bytes w) \<le> as_log_size a) \<Longrightarrow> holds_at fs' w"
    "as_log_size a \<le> length (fs_contents fs' (log_path_of a))"
proof -
  let ?l = "log_path_of a" and ?i = "sm_index_path (as_meta a)"
  have neq: "?l \<noteq> ?i" using named_log_index [OF a(2,2)] .
  have "fs_contents fs' ?l = fs_contents fs ?l \<or>
      fs_contents fs' ?l = file_write_at (fs_contents fs ?l) (as_log_size a) raw \<or>
      fs_contents fs' ?l = file_write_at (fs_contents fs ?l) (as_log_size a) (take (io_torn io) raw)"
    using ap neq by (auto simp: append_batch_def Let_def split: if_splits option.splits prod.splits)
  then have log: "take (as_log_size a) (fs_contents fs' ?l) = take (as_log_size a) (fs_contents fs ?l)"
    "as_log_size a \<le> length (fs_contents fs' ?l)"
    using a(3) by (auto simp: take_file_write_at length_file_write_at)
  then show "as_log_size a \<le> length (fs_contents fs' ?l)" by simp
  have cut: "slice i j xs = slice i j (take n xs)" if "j \<le> n" for i j n and xs :: bytes
    using that by (simp add: slice_def drop_take min_def)
  show "holds_at fs' w" if "older_log h (fw_path w)" "holds_at fs w"
    "fw_path w = ?l \<longrightarrow> fw_pos w + length (fw_bytes w) \<le> as_log_size a"
  proof (cases "fw_path w = ?l")
    case True
    with that(3) have le: "fw_pos w + length (fw_bytes w) \<le> as_log_size a" by simp
    show ?thesis
      using that(2) True cut [OF le, of "fw_pos w" "fs_contents fs' ?l"]
        cut [OF le, of "fw_pos w" "fs_contents fs ?l"] log(1)
      by (simp add: holds_at_def)
  next
    case False
    from append_batch_frame [OF ap this log_neq_index [OF a(2) that(1)]] that(2) show ?thesis
      by (simp add: holds_at_def fs_contents_def)
  qed
qed

text \<open>The waiter of an append that crossed the flush interval.\<close>

definition waiter_of :: "partition_inner \<Rightarrow> int \<Rightarrow> nat \<Rightarrow> bytes \<Rightarrow> flush_waiter" where
  "waiter_of g' assigned seq batch =
     \<lparr>fw_seq = seq, fw_path = log_path_of (pi_active g'),
      fw_pos = as_log_size (pi_active g') - length batch, fw_bytes = rebase assigned batch\<rparr>"

definition append_effect ::
  "file_store \<Rightarrow> partition_inner \<Rightarrow> bytes \<Rightarrow> storage_error + int \<times> nat \<times> bool \<Rightarrow>
   file_store \<Rightarrow> partition_inner \<Rightarrow> bool" where
  "append_effect fs g batch res fs' g' \<longleftrightarrow>
     active_moves (pi_high_water g) fs (pi_active g) fs' (pi_active g') \<and> active_sound fs' g' \<and>
     pi_high_water g \<le> pi_high_water g' \<and>
     pi_flush_err g' = pi_flush_err g \<and> pi_completed_flush_seq g' = pi_completed_flush_seq g \<and>
     (case res of
        Inr (assigned, seq, True) \<Rightarrow>
          pi_flush_err g = None \<and> seq = pi_requested_flush_seq g + 1 \<and> pi_requested_flush_seq g' = seq \<and>
          as_log (pi_active g') \<and> holds_at fs' (waiter_of g' assigned seq batch) \<and>
          length batch \<le> as_log_size (pi_active g') \<and>
          older_log (pi_high_water g') (log_path_of (pi_active g'))
      | _ \<Rightarrow> pi_requested_flush_seq g' = pi_requested_flush_seq g)"

lemma append_effect_none:
  "active_sound fs g \<Longrightarrow> (\<And>x y. res \<noteq> Inr (x, y, True)) \<Longrightarrow> append_effect fs g batch res fs g"
  by (auto simp: append_effect_def active_moves_def split: sum.splits bool.splits)

lemma append_commit_flush:
  assumes "append_commit cfg g owned assigned i = (g', seq, trigger)"
  shows "pi_flush_err g' = pi_flush_err g" "pi_completed_flush_seq g' = pi_completed_flush_seq g"
    "seq = pi_requested_flush_seq g + (if trigger then 1 else 0)" "pi_requested_flush_seq g' = seq"
  using assms by (auto simp: append_commit_def Let_def)

lemma active_moves_batch:
  assumes "append_batch io fs a raw iv = (res, fs')"
    and "as_log a" "meta_named (as_meta a)" "as_log_size a \<le> length (fs_contents fs (log_path_of a))"
    and "log_path_of a' = log_path_of a" "as_log a'" "as_log_size a \<le> as_log_size a'"
  shows "active_moves h fs a fs' a'"
  using append_batch_moves(1) [OF assms(1-4)] assms(2,5-7) by (auto simp: active_moves_def)

lemma append_batch_failed_moves:
  assumes ap: "append_batch io fs (pi_active g) raw iv = (Inl e, fs')" and sound: "active_sound fs g"
  shows "active_moves h fs (pi_active g) fs' (pi_active g) \<and> active_sound fs' g"
proof (cases "as_log (pi_active g)")
  case True
  then have a: "meta_named (as_meta (pi_active g))"
    "as_log_size (pi_active g) \<le> length (fs_contents fs (log_path_of (pi_active g)))"
    using sound by (simp_all add: active_sound_def)
  have "active_moves h fs (pi_active g) fs' (pi_active g)"
    by (rule active_moves_batch [OF ap True a]) (simp_all add: True)
  with append_batch_moves(2) [OF ap True a] sound True show ?thesis by (simp add: active_sound_def)
next
  case False
  then have "fs' = fs" using ap by (auto simp: append_batch_def Let_def split: option.splits)
  with sound show ?thesis by (simp add: active_moves_def)
qed

text \<open>The write half of an append, after the roll.\<close>

lemma append_batch_written:
  assumes ap: "append_batch io fs (pi_active g) owned iv = (Inr a', fs')"
    and sound: "active_sound fs g" and log: "as_log (pi_active g)"
    and fits: "int (as_log_size (pi_active g) + length owned) \<le> u64_MAX"
  shows "as_meta a' = (as_meta (pi_active g))\<lparr>sm_size := as_log_size (pi_active g) + length owned\<rparr>"
    "as_log a'" "as_log_size a' = as_log_size (pi_active g) + length owned"
    "active_moves h fs (pi_active g) fs' a'"
    "slice (as_log_size (pi_active g)) (as_log_size a') (fs_contents fs' (log_path_of a')) = owned"
    "as_log_size a' \<le> length (fs_contents fs' (log_path_of a'))"
proof -
  let ?a = "pi_active g"
  note acc = append_batch_account [OF ap fits]
  show "as_meta a' = (as_meta ?a)\<lparr>sm_size := as_log_size ?a + length owned\<rparr>" "as_log a'"
    "as_log_size a' = as_log_size ?a + length owned" using acc by simp_all
  have named: "meta_named (as_meta ?a)" and len: "as_log_size ?a \<le> length (fs_contents fs (log_path_of ?a))"
    using sound log by (simp_all add: active_sound_def)
  show "active_moves h fs ?a fs' a'"
    by (rule active_moves_batch [OF ap log named len]) (use acc in simp_all)
  have "fs_contents fs' (log_path_of ?a) = file_write_at (fs_contents fs (log_path_of ?a)) (as_log_size ?a) owned"
    using ap fits named_log_index [OF named named] by (cases rule: append_batch_cases) simp_all
  then show "slice (as_log_size ?a) (as_log_size a') (fs_contents fs' (log_path_of a')) = owned"
    "as_log_size a' \<le> length (fs_contents fs' (log_path_of a'))"
    using acc by (simp_all add: slice_file_write_at_same length_file_write_at)
qed

lemma append_write_cases:
  assumes "append_write io dir p batch i = (res, dir', p')"
  obtains
    (rolled) e rr dir1 g1 where "append_roll io dir (p_cfg p) (p_inner p) (length batch) = (rr, dir1, g1)"
      "res = Inl e" "dir' = dir1" "p_inner p' = g1"
  | (stopped) e e' dir1 g1 fs2 where
      "append_roll io dir (p_cfg p) (p_inner p) (length batch) = (Inr (), dir1, g1)"
      "append_batch io (pd_files dir1) (pi_active g1) (rebase (pi_high_water g1) batch)
         (pc_index_interval_bytes (p_cfg p)) = (Inl e', fs2)"
      "res = Inl e" "pd_files dir' = fs2" "p_inner p' = g1"
  | (written) dir1 g1 a2 fs2 g2 seq trigger where
      "append_roll io dir (p_cfg p) (p_inner p) (length batch) = (Inr (), dir1, g1)"
      "append_batch io (pd_files dir1) (pi_active g1) (rebase (pi_high_water g1) batch)
         (pc_index_interval_bytes (p_cfg p)) = (Inr a2, fs2)"
      "append_commit (p_cfg p) (g1\<lparr>pi_active := a2\<rparr>) (rebase (pi_high_water g1) batch)
         (pi_high_water g1) i = (g2, seq, trigger)"
      "res = Inr (pi_high_water g1, seq, trigger)" "pd_files dir' = fs2" "p_inner p' = g2"
proof -
  obtain rr dir1 g1 where roll: "append_roll io dir (p_cfg p) (p_inner p) (length batch) = (rr, dir1, g1)"
    using prod_cases3 by blast
  show thesis
  proof (cases rr)
    case (Inl e)
    with assms roll show thesis by (intro rolled [OF roll]) (auto simp: append_write_def Let_def)
  next
    case rr: (Inr u)
    let ?o = "rebase (pi_high_water g1) batch"
    obtain x fs2 where ap: "append_batch io (pd_files dir1) (pi_active g1) ?o
        (pc_index_interval_bytes (p_cfg p)) = (x, fs2)" by (rule prod.exhaust)
    show thesis
    proof (cases "length batch < 8 \<or> length ?o < 43")
      case True
      with assms roll rr show thesis
        by (intro rolled [OF roll, of "if length batch < 8 then Panic else StorageIo Invalid_data"])
          (auto simp: append_write_def Let_def split: if_splits)
    next
      case False
      show thesis
      proof (cases x)
        case (Inl e)
        with assms roll rr ap False show thesis
          by (intro stopped [of dir1 g1 e fs2 "StorageIo e"]) (auto simp: append_write_def Let_def)
      next
        case (Inr a2)
        obtain g2 seq trigger where c: "append_commit (p_cfg p) (g1\<lparr>pi_active := a2\<rparr>) ?o
            (pi_high_water g1) i = (g2, seq, trigger)" using prod_cases3 by blast
        with assms roll rr ap False Inr show thesis
          by (intro written [of dir1 g1 a2 fs2 g2 seq trigger])
            (auto simp: append_write_def Let_def publish_def)
      qed
    qed
  qed
qed

lemma append_write_effect:
  assumes w: "append_write io dir p batch i = (res, dir', p')"
    and sound: "active_sound (pd_files dir) (p_inner p)" and err: "pi_flush_err (p_inner p) = None"
    and b: "framed batch" "0 \<le> batch_delta batch" "pi_high_water (p_inner p) + batch_delta batch < i64_MAX"
    and fits: "int (as_log_size (pi_active (p_inner p)) + length batch) \<le> u64_MAX"
  shows "append_effect (pd_files dir) (p_inner p) batch res (pd_files dir') (p_inner p')"
proof -
  let ?g = "p_inner p" and ?h = "pi_high_water (p_inner p)"
  have h: "0 \<le> ?h" "?h \<le> i64_MAX" "8 \<le> length batch"
    using sound b(1) by (simp_all add: active_sound_def framed_def)
  have roll: "active_moves ?h (pd_files dir) (pi_active ?g) (pd_files dir1) (pi_active g1) \<and>
      active_sound (pd_files dir1) g1 \<and> as_log_size (pi_active g1) \<le> as_log_size (pi_active ?g) \<and>
      pi_high_water g1 = ?h \<and> pi_flush_err g1 = None \<and> pi_epoch g1 = pi_epoch ?g \<and>
      pi_completed_flush_seq g1 = pi_completed_flush_seq ?g \<and>
      pi_requested_flush_seq g1 = pi_requested_flush_seq ?g"
    if r: "append_roll io dir (p_cfg p) ?g (length batch) = (rr, dir1, g1)" for rr dir1 g1
  proof -
    from append_roll_moves [OF r sound] obtain cl a
      where "g1 = ?g\<lparr>pi_closed := cl, pi_active := a\<rparr>" by blast
    with append_roll_moves [OF r sound] err show ?thesis by simp
  qed
  from w show ?thesis
  proof (cases rule: append_write_cases)
    case (rolled e rr dir1 g1)
    with roll [OF rolled(1)] err show ?thesis by (simp add: append_effect_def)
  next
    case (stopped e e' dir1 g1 fs2)
    note R = roll [OF stopped(1)]
    have "active_moves ?h (pd_files dir1) (pi_active g1) fs2 (pi_active g1) \<and> active_sound fs2 g1"
      using R stopped(2) by (intro append_batch_failed_moves) auto
    with active_moves_trans [of ?h "pd_files dir" "pi_active ?g" "pd_files dir1" "pi_active g1" fs2] R stopped err
    show ?thesis by (simp add: append_effect_def)
  next
    case (written dir1 g1 a2 fs2 g2 seq trigger)
    note R = roll [OF written(1)]
    have lo: "- (2 ^ 63) \<le> ?h" using h(1) by simp
    note f = rebase_fields [OF h(3) lo h(2)]
    have owned: "pi_high_water g1 = ?h" using R by blast
    have log1: "as_log (pi_active g1)"
      using written(2) by (auto simp: append_batch_def Let_def split: if_splits option.splits)
    have W: "as_log a2" "as_log_size a2 = as_log_size (pi_active g1) + length batch"
      "active_moves ?h (pd_files dir1) (pi_active g1) fs2 a2" "log_path_of a2 = log_path_of (pi_active g1)"
      "slice (as_log_size (pi_active g1)) (as_log_size a2) (fs_contents fs2 (log_path_of a2)) = rebase ?h batch"
      "as_log_size a2 \<le> length (fs_contents fs2 (log_path_of a2))"
      "meta_named (as_meta a2)" "sm_base_offset (as_meta a2) \<le> ?h"
      using append_batch_written [OF written(2) _ log1] R fits f log1
      by (auto simp: active_sound_def meta_named_def)
    have G: "pi_high_water g2 = ?h + batch_delta batch + 1" "pi_active g2 = a2" "pi_epoch g2 = pi_epoch ?g"
      "pi_flush_err g2 = None" "pi_completed_flush_seq g2 = pi_completed_flush_seq ?g"
      "seq = pi_requested_flush_seq ?g + (if trigger then 1 else 0)" "pi_requested_flush_seq g2 = seq"
      using append_commit_frame [OF written(3)] append_commit_flush [OF written(3)] R f by simp_all
    have "active_sound fs2 g2" using W G h b R by (auto simp: active_sound_def)
    moreover have "active_moves ?h (pd_files dir) (pi_active ?g) fs2 a2"
      using active_moves_trans [OF _ W(3,4)] R by blast
    moreover have "older_log (pi_high_water g2) (log_path_of a2)"
      using named_older [OF W(7)] W(8) G(1) b(2) by simp
    ultimately show ?thesis
      using written(4-6) W G err b(2) owned f(1)
      by (auto simp: append_effect_def waiter_of_def holds_at_def split: bool.splits)
  qed
qed

lemma append_effects:
  assumes "append io dir p epoch batch = (res, dir', p')" "active_sound (pd_files dir) (p_inner p)"
    and b: "framed batch" "0 \<le> batch_delta batch" "pi_high_water (p_inner p) + batch_delta batch < i64_MAX"
      "int (as_log_size (pi_active (p_inner p)) + length batch) \<le> u64_MAX"
  shows "append_effect (pd_files dir) (p_inner p) batch res (pd_files dir') (p_inner p')"
proof -
  consider i where "append_write io dir p batch i = (res, dir', p')" "pi_flush_err (p_inner p) = None"
    | "dir' = dir" "p' = p" "\<And>x y. res \<noteq> Inr (x, y, True)"
    using assms(1)
    by (auto simp: append_def Let_def split: if_splits option.splits sum.splits outcome.splits)
  then show ?thesis
    using append_write_effect [OF _ assms(2) _ b] append_effect_none [OF assms(2)] by cases simp_all
qed

section \<open>The invariant\<close>

definition covered_seq :: "flush_system \<Rightarrow> nat" where
  "covered_seq s = (case fl_phase s of
      Reporting (Synced q) \<Rightarrow> max q (pi_completed_flush_seq (fl_inner s))
    | Rearmed q \<Rightarrow> max q (pi_completed_flush_seq (fl_inner s))
    | _ \<Rightarrow> pi_completed_flush_seq (fl_inner s))"

definition tracked :: "flush_system \<Rightarrow> flush_waiter set" where
  "tracked s = set (fl_waiters s) \<union> fst ` set (fl_answered s)"

text \<open>A batch that crossed the flush interval is in the active log below the recorded size, or on
  stable storage (unless a failed roll left no log to sync); it is on stable storage once a sync
  that covers its sequence number succeeded.\<close>

definition batch_safe :: "flush_system \<Rightarrow> flush_waiter \<Rightarrow> bool" where
  "batch_safe s w \<longleftrightarrow>
     0 < fw_seq w \<and> fw_seq w \<le> pi_requested_flush_seq (fl_inner s) \<and>
     older_log (pi_high_water (fl_inner s)) (fw_path w) \<and>
     (if fw_path w = log_path_of (fl_active s)
      then holds_at (pd_files (fl_dir s)) w \<and> fw_pos w + length (fw_bytes w) \<le> as_log_size (fl_active s)
      else as_log (fl_active s) \<longrightarrow> holds_at (fl_disk s) w) \<and>
     (fw_seq w \<le> covered_seq s \<longrightarrow> holds_at (fl_disk s) w)"

definition flush_inv :: "flush_system \<Rightarrow> bool" where
  "flush_inv s \<longleftrightarrow>
     active_sound (pd_files (fl_dir s)) (fl_inner s) \<and>
     covered_seq s \<le> pi_requested_flush_seq (fl_inner s) \<and>
     (\<forall>w \<in> tracked s. batch_safe s w) \<and>
     (\<forall>w. (w, Inr ()) \<in> set (fl_answered s) \<longrightarrow> fw_seq w \<le> pi_completed_flush_seq (fl_inner s))"

lemma stabilise_simps [simp]:
  "fl_dir (stabilise s) = fl_dir s" "fl_part (stabilise s) = fl_part s" "fl_phase (stabilise s) = fl_phase s"
  "fl_waiters (stabilise s) = fl_waiters s" "fl_answered (stabilise s) = fl_answered s"
  "fl_channel (stabilise s) = fl_channel s" "fl_sending (stabilise s) = fl_sending s"
  "fl_orphans (stabilise s) = fl_orphans s"
  by (simp_all add: stabilise_def)

lemma set_inner_simps [simp]:
  "fl_dir (set_inner g s) = fl_dir s" "fl_inner (set_inner g s) = g" "fl_phase (set_inner g s) = fl_phase s"
  "fl_waiters (set_inner g s) = fl_waiters s" "fl_answered (set_inner g s) = fl_answered s"
  "fl_disk (set_inner g s) = fl_disk s" "fl_channel (set_inner g s) = fl_channel s"
  "fl_sending (set_inner g s) = fl_sending s" "fl_orphans (set_inner g s) = fl_orphans s"
  by (simp_all add: set_inner_def)

lemma stabilise_holds:
  "fw_path w = log_path_of (fl_active s) \<Longrightarrow> holds_at (pd_files (fl_dir s)) w \<Longrightarrow>
     holds_at (fl_disk (stabilise s)) w"
  "fw_path w \<noteq> log_path_of (fl_active s) \<Longrightarrow>
     holds_at (fl_disk (stabilise s)) w = holds_at (fl_disk s) w"
  by (simp_all add: stabilise_def holds_at_def)

text \<open>After a sync of the active log every tracked batch is on stable storage.\<close>

lemma stabilise_all:
  assumes "flush_inv s" "as_log (fl_active s)" "w \<in> tracked s"
  shows "holds_at (fl_disk (stabilise s)) w"
  using assms stabilise_holds [of w s] by (auto simp: flush_inv_def batch_safe_def split: if_splits)

lemma stabilise_keeps:
  assumes "flush_inv s" "w \<in> tracked s" "holds_at (fl_disk s) w"
  shows "holds_at (fl_disk (stabilise s)) w"
  using assms stabilise_holds [of w s] by (auto simp: flush_inv_def batch_safe_def split: if_splits)

text \<open>Steps that leave the active log and the counters alone, except that they may sync it.\<close>

lemma flush_inv_frame:
  assumes inv: "flush_inv s"
    and same: "pd_files (fl_dir s') = pd_files (fl_dir s)" "fl_active s' = fl_active s"
      "pi_high_water (fl_inner s') = pi_high_water (fl_inner s)" "pi_epoch (fl_inner s') = pi_epoch (fl_inner s)"
      "pi_requested_flush_seq (fl_inner s') = pi_requested_flush_seq (fl_inner s)"
    and sub: "tracked s' \<subseteq> tracked s"
    and disk: "fl_disk s' = fl_disk s \<or> fl_disk s' = fl_disk (stabilise s)"
    and cov: "covered_seq s' \<le> covered_seq s \<or>
      covered_seq s' \<le> pi_requested_flush_seq (fl_inner s) \<and> as_log (fl_active s) \<and> fl_disk s' = fl_disk (stabilise s)"
    and ans: "\<And>w. (w, Inr ()) \<in> set (fl_answered s') \<Longrightarrow> fw_seq w \<le> pi_completed_flush_seq (fl_inner s')"
  shows "flush_inv s'"
proof -
  have "batch_safe s' w" if w: "w \<in> tracked s'" for w
  proof -
    have w': "w \<in> tracked s" using w sub by blast
    then have safe: "batch_safe s w" using inv by (simp add: flush_inv_def)
    have keep: "holds_at (fl_disk s) w \<Longrightarrow> holds_at (fl_disk s') w"
      using disk stabilise_keeps [OF inv w'] by auto
    moreover have "fw_seq w \<le> covered_seq s' \<Longrightarrow> holds_at (fl_disk s') w"
      using cov keep safe stabilise_all [OF inv _ w'] by (auto simp: batch_safe_def)
    ultimately show ?thesis using safe same by (auto simp: batch_safe_def split: if_splits)
  qed
  moreover have "covered_seq s' \<le> pi_requested_flush_seq (fl_inner s')"
    using cov inv same by (auto simp: flush_inv_def)
  ultimately show ?thesis using inv same ans by (auto simp: flush_inv_def active_sound_def)
qed

lemma fsync_task_cases:
  obtains
    (synced) s1 where "fsync_task io s = (Synced (pi_requested_flush_seq (fl_inner s)), s1)"
      "sync_log io (fl_active s) = Inr ()" "as_log (fl_active s)"
      "pd_files (fl_dir s1) = pd_files (fl_dir s)" "fl_disk s1 = fl_disk (stabilise s)"
      "\<exists>b. fl_inner s1 = (fl_inner s)\<lparr>pi_last_checkpoint_byte := b\<rparr>" "fl_phase s1 = fl_phase s"
      "fl_waiters s1 = fl_waiters s" "fl_answered s1 = fl_answered s"
      "fl_channel s1 = fl_channel s" "fl_sending s1 = fl_sending s"
  | (failed) e where "fsync_task io s = (Sync_io_error e, s)" "sync_log io (fl_active s) = Inl e"
proof (cases "sync_log io (fl_active s)")
  case (Inl e)
  with failed [of e] show thesis
    by (simp add: fsync_task_def committer_sync_def set_inner_def)
next
  case (Inr u)
  let ?s1 = "snd (fsync_task io s)"
  have log: "as_log (fl_active s)" using Inr by (auto simp: sync_log_def split: if_splits)
  have upd: "\<exists>b. g = g\<lparr>pi_last_checkpoint_byte := b\<rparr>" for g :: partition_inner
    by (rule exI [of _ "pi_last_checkpoint_byte g"]) simp
  have "fst (fsync_task io s) = Synced (pi_requested_flush_seq (fl_inner s))"
    "pd_files (fl_dir ?s1) = pd_files (fl_dir s)" "fl_disk ?s1 = fl_disk (stabilise s)"
    "fl_phase ?s1 = fl_phase s" "fl_waiters ?s1 = fl_waiters s" "fl_answered ?s1 = fl_answered s"
    "fl_channel ?s1 = fl_channel s" "fl_sending ?s1 = fl_sending s"
    "\<exists>b. fl_inner ?s1 = (fl_inner s)\<lparr>pi_last_checkpoint_byte := b\<rparr>"
    using Inr upd
    by (auto simp: fsync_task_def committer_sync_def Let_def checkpoint_write_def stabilise_def)
  with Inr log show thesis by (intro synced [of ?s1]) (auto simp: prod_eq_iff)
qed

lemma covered_seq_cong:
  "fl_phase s' = fl_phase s \<Longrightarrow>
   pi_completed_flush_seq (fl_inner s') = pi_completed_flush_seq (fl_inner s) \<Longrightarrow> covered_seq s' = covered_seq s"
  by (simp add: covered_seq_def split: committer_phase.splits sync_outcome.splits)

lemma committer_finish_frame:
  "pi_active (committer_finish g r) = pi_active g" "pi_high_water (committer_finish g r) = pi_high_water g"
  "pi_epoch (committer_finish g r) = pi_epoch g"
  "pi_requested_flush_seq (committer_finish g r) = pi_requested_flush_seq g"
  "pi_completed_flush_seq (committer_finish g r) =
     (case r of Synced q \<Rightarrow> max q (pi_completed_flush_seq g) | _ \<Rightarrow> pi_completed_flush_seq g)"
  "pi_flush_err (committer_finish g r) = None \<longleftrightarrow> pi_flush_err g = None \<and> (\<exists>q. r = Synced q)"
  by (auto simp: committer_finish_def split: sync_outcome.splits)

lemma rearm_finish_frame:
  "pi_active (rearm_finish g q) = pi_active g" "pi_high_water (rearm_finish g q) = pi_high_water g"
  "pi_epoch (rearm_finish g q) = pi_epoch g"
  "pi_requested_flush_seq (rearm_finish g q) = pi_requested_flush_seq g"
  "pi_completed_flush_seq (rearm_finish g q) = max q (pi_completed_flush_seq g)"
  "pi_flush_err (rearm_finish g q) = None"
  by (simp_all add: rearm_finish_def)

lemmas finish_frames = committer_finish_frame rearm_finish_frame

lemma flush_inv_answered:
  "flush_inv s \<Longrightarrow> (w, Inr ()) \<in> set (fl_answered s) \<Longrightarrow> fw_seq w \<le> pi_completed_flush_seq (fl_inner s)"
  "flush_inv s \<Longrightarrow> pi_completed_flush_seq (fl_inner s) \<le> covered_seq s"
  by (auto simp: flush_inv_def covered_seq_def split: committer_phase.splits sync_outcome.splits)

text \<open>A change of the committer's phase that claims no more than what is already covered.\<close>

lemma flush_inv_phase:
  assumes "flush_inv s" "fl_dir s' = fl_dir s" "fl_part s' = fl_part s" "fl_disk s' = fl_disk s"
    and "fl_waiters s' = fl_waiters s" "fl_answered s' = fl_answered s" "covered_seq s' \<le> covered_seq s"
  shows "flush_inv s'"
  by (rule flush_inv_frame [OF assms(1)])
    (use assms flush_inv_answered(1) [OF assms(1)] in \<open>auto simp: tracked_def\<close>)

lemma flush_inv_fsync:
  assumes inv: "flush_inv s" and r: "fsync_task io s = (r, s1)"
    and s2: "s2 = s1\<lparr>fl_phase := ph, fl_orphans := n\<rparr>"
    and ph: "ph = fl_phase s \<or> ph = Reporting r \<and> (\<forall>q. fl_phase s \<noteq> Reporting q)"
  shows "flush_inv s2"
proof (cases rule: fsync_task_cases [of io s])
  case (synced s1')
  then have eq: "s1' = s1" "r = Synced (pi_requested_flush_seq (fl_inner s))" using r by auto
  obtain b where g: "fl_inner s1 = (fl_inner s)\<lparr>pi_last_checkpoint_byte := b\<rparr>" using synced eq by blast
  have le: "covered_seq s \<le> pi_requested_flush_seq (fl_inner s)" using inv by (simp add: flush_inv_def)
  show ?thesis
  proof (rule flush_inv_frame [OF inv])
    show "covered_seq s2 \<le> covered_seq s \<or> covered_seq s2 \<le> pi_requested_flush_seq (fl_inner s) \<and>
        as_log (fl_active s) \<and> fl_disk s2 = fl_disk (stabilise s)"
      using synced ph le g s2 eq flush_inv_answered(2) [OF inv]
      by (auto simp: covered_seq_def split: committer_phase.splits sync_outcome.splits)
    show "tracked s2 \<subseteq> tracked s" using synced eq s2 by (simp add: tracked_def)
  qed (use synced g eq s2 flush_inv_answered(1) [OF inv] in simp_all)
next
  case (failed e)
  then have s2': "s2 = s\<lparr>fl_phase := ph, fl_orphans := n\<rparr>" "r = Sync_io_error e" using r s2 by simp_all
  then have "covered_seq s2 \<le> covered_seq s"
    using ph flush_inv_answered(2) [OF inv]
    by (auto simp: covered_seq_def split: committer_phase.splits sync_outcome.splits)
  then show ?thesis by (intro flush_inv_phase [OF inv]) (simp_all add: s2')
qed

lemma flush_inv_committer:
  assumes inv: "flush_inv s"
  shows "flush_inv (committer_step io s)"
proof (cases "fl_phase s")
  case Parked
  show ?thesis
    by (rule flush_inv_phase [OF inv]) (simp_all add: committer_step_def Parked covered_seq_def)
next
  case Woken
  show ?thesis
    by (rule flush_inv_phase [OF inv]) (simp_all add: committer_step_def Woken covered_seq_def)
next
  case (Checking t)
  show ?thesis
    by (rule flush_inv_phase [OF inv]) (simp_all add: committer_step_def Checking covered_seq_def)
next
  case Syncing
  obtain r s1 where r: "fsync_task io s = (r, s1)" by (rule prod.exhaust)
  have "flush_inv (s1\<lparr>fl_phase := Reporting r, fl_orphans := fl_orphans s1\<rparr>)"
    by (rule flush_inv_fsync [OF inv r refl]) (simp add: Syncing)
  with Syncing r show ?thesis by (simp add: committer_step_def)
next
  case (Reporting r)
  show ?thesis
    by (rule flush_inv_frame [OF inv])
      (use flush_inv_answered [OF inv] Reporting in \<open>auto simp: committer_step_def finish_frames
        tracked_def covered_seq_def le_max_iff_disj split: sync_outcome.splits\<close>)
next
  case Probing
  show ?thesis
  proof (cases "io_fails io Probe_write \<or> sync_log io (fl_active s) \<noteq> Inr ()")
    case True
    with inv Probing show ?thesis
      by (auto simp: committer_step_def rearm_sync_def split: sum.splits)
  next
    case False
    then have log: "as_log (fl_active s)" by (auto simp: sync_log_def split: if_splits)
    have step: "committer_step io s = (stabilise s)\<lparr>fl_phase := Rearmed (pi_requested_flush_seq (fl_inner s))\<rparr>"
      using Probing False by (simp add: committer_step_def rearm_sync_def)
    show ?thesis unfolding step
      by (rule flush_inv_frame [OF inv])
        (use log flush_inv_answered(1) [OF inv] inv in
          \<open>auto simp: tracked_def covered_seq_def flush_inv_def Probing\<close>)
  qed
next
  case (Rearmed q)
  show ?thesis
    by (rule flush_inv_frame [OF inv])
      (use flush_inv_answered [OF inv] Rearmed in \<open>auto simp: committer_step_def finish_frames
        tracked_def covered_seq_def le_max_iff_disj\<close>)
qed

text \<open>A tracked batch stays safe across an append.\<close>

lemma batch_safe_append:
  assumes inv: "flush_inv s" and w: "w \<in> tracked s"
    and eff: "append_effect (pd_files (fl_dir s)) (fl_inner s) batch res (pd_files dir') (p_inner p')"
    and s': "fl_dir s' = dir'" "fl_part s' = p'" "fl_phase s' = fl_phase s"
      "fl_disk s' = fl_disk (if rolled_over (fl_part s) p' then stabilise s else s)"
  shows "batch_safe s' w"
proof -
  let ?a = "fl_active s" and ?a' = "fl_active s'"
  have safe: "batch_safe s w" using inv w by (simp add: flush_inv_def)
  have m: "active_moves (pi_high_water (fl_inner s)) (pd_files (fl_dir s)) ?a (pd_files (fl_dir s')) ?a'"
    and up: "pi_high_water (fl_inner s) \<le> pi_high_water (fl_inner s')"
      "pi_requested_flush_seq (fl_inner s) \<le> pi_requested_flush_seq (fl_inner s')"
      "pi_completed_flush_seq (fl_inner s') = pi_completed_flush_seq (fl_inner s)"
    using eff s' by (auto simp: append_effect_def split: sum.splits prod.splits bool.splits)
  have old: "older_log (pi_high_water (fl_inner s)) (fw_path w)" using safe by (simp add: batch_safe_def)
  have keep: "holds_at (fl_disk s) w \<Longrightarrow> holds_at (fl_disk s') w"
    using s'(4) stabilise_keeps [OF inv w] by simp
  have cov: "covered_seq s' = covered_seq s"
    using s'(3) up(3) by (rule covered_seq_cong)
  have "if fw_path w = log_path_of ?a'
      then holds_at (pd_files (fl_dir s')) w \<and> fw_pos w + length (fw_bytes w) \<le> as_log_size ?a'
      else as_log ?a' \<longrightarrow> holds_at (fl_disk s') w"
  proof (cases "log_path_of ?a' = log_path_of ?a")
    case True
    with m safe old keep show ?thesis
      by (auto simp: active_moves_def batch_safe_def split: if_splits)
  next
    case False
    then have ne: "as_log ?a" "fw_path w \<noteq> log_path_of ?a'" using m old by (auto simp: active_moves_def)
    have "holds_at (fl_disk s') w" if "as_log ?a'"
      using that ne(1) False s' stabilise_all [OF inv ne(1) w] by (simp add: rolled_over_def)
    with ne(2) show ?thesis by simp
  qed
  with safe up old older_log_mono keep cov show ?thesis
    by (auto simp: batch_safe_def)
qed

lemma flush_append_cases:
  assumes "append io (fl_dir s) (fl_part s) epoch batch = (res, dir', p')"
  shows "fl_dir (flush_append io epoch batch acks s) = dir'"
    "fl_part (flush_append io epoch batch acks s) = p'"
    "fl_phase (flush_append io epoch batch acks s) = fl_phase s"
    "fl_disk (flush_append io epoch batch acks s) =
       fl_disk (if rolled_over (fl_part s) p' then stabilise s else s)"
    "fl_answered (flush_append io epoch batch acks s) = fl_answered s"
    "fl_channel (flush_append io epoch batch acks s) = fl_channel s"
    "fl_sending (flush_append io epoch batch acks s) =
       (case res of Inr (assigned, seq, True) \<Rightarrow> fl_sending s + 1 | _ \<Rightarrow> fl_sending s)"
    "fl_waiters (flush_append io epoch batch acks s) =
       (case res of Inr (assigned, seq, True) \<Rightarrow>
          if acks = -1 then fl_waiters s @ [waiter_of (p_inner p') assigned seq batch] else fl_waiters s
        | _ \<Rightarrow> fl_waiters s)"
  using assms
  by (auto simp: flush_append_def Let_def waiter_of_def split: sum.splits prod.splits bool.splits)

lemma flush_inv_append:
  assumes inv: "flush_inv s" and ok: "appendable s batch"
  shows "flush_inv (flush_append io epoch batch acks s)"
proof -
  let ?s' = "flush_append io epoch batch acks s"
  obtain res dir' p' where ap: "append io (fl_dir s) (fl_part s) epoch batch = (res, dir', p')"
    using prod_cases3 by blast
  note F = flush_append_cases [OF ap, of acks]
  have b: "framed batch" "0 \<le> batch_delta batch" "pi_high_water (fl_inner s) + batch_delta batch < i64_MAX"
    "int (as_log_size (fl_active s) + length batch) \<le> u64_MAX"
    using ok by (simp_all add: appendable_def)
  have sound: "active_sound (pd_files (fl_dir s)) (fl_inner s)" using inv by (simp add: flush_inv_def)
  note eff = append_effects [OF ap sound b]
  have up: "pi_completed_flush_seq (p_inner p') = pi_completed_flush_seq (fl_inner s)"
    "pi_requested_flush_seq (fl_inner s) \<le> pi_requested_flush_seq (p_inner p')"
    using eff by (auto simp: append_effect_def split: sum.splits prod.splits bool.splits)
  have cov: "covered_seq ?s' = covered_seq s"
    by (rule covered_seq_cong) (simp_all add: F(2,3) up(1))
  have le: "covered_seq s \<le> pi_requested_flush_seq (fl_inner s)" using inv by (simp add: flush_inv_def)
  have new: "batch_safe ?s' (waiter_of (p_inner p') assigned seq batch)" if "res = Inr (assigned, seq, True)"
    for assigned seq
  proof -
    have "as_log_size (pi_active (p_inner p')) - length batch + length (rebase assigned batch) =
        as_log_size (pi_active (p_inner p'))"
      using eff that b(1) by (simp add: append_effect_def rebase_def framed_def)
    then show ?thesis
      using eff that F(1,2) cov le
      by (simp add: append_effect_def batch_safe_def waiter_of_def holds_at_def)
  qed
  have "batch_safe ?s' w" if "w \<in> tracked ?s'" for w
  proof (cases "w \<in> tracked s")
    case True
    then show ?thesis by (rule batch_safe_append [OF inv _ eff F(1-4)])
  next
    case False
    with that F(5,8) new show ?thesis
      by (auto simp: tracked_def split: sum.splits prod.splits bool.splits if_splits)
  qed
  moreover have "active_sound (pd_files dir') (p_inner p')" using eff by (simp add: append_effect_def)
  ultimately show ?thesis
    using F(1,2,5) up cov le inv by (auto simp: flush_inv_def)
qed

lemma flush_inv_step: "flush_step s s' \<Longrightarrow> flush_inv s \<Longrightarrow> flush_inv s'"
proof (induction s s' rule: flush_step.induct)
  case (flush_step_append s batch io epoch acks)
  then show ?case by (intro flush_inv_append)
next
  case (flush_step_send s)
  then show ?case
    by (intro flush_inv_phase [OF flush_step_send(2)] eq_refl [OF covered_seq_cong])
      (simp_all add: flush_send_def)
next
  case (flush_step_committer s io)
  then show ?case by (rule flush_inv_committer)
next
  case (flush_step_elapsed s)
  then show ?case
    by (intro flush_inv_phase [OF flush_step_elapsed(2)]) (simp_all add: covered_seq_def)
next
  case (flush_step_late s r)
  then show ?case
    by (intro flush_inv_phase [OF flush_step_late(2)])
      (auto simp: covered_seq_def split: sync_outcome.splits)
next
  case (flush_step_orphan s io)
  obtain r s1 where r: "fsync_task io s = (r, s1)" by (rule prod.exhaust)
  have "fl_phase s1 = fl_phase s"
    using r by (cases rule: fsync_task_cases [of io s]) auto
  then have "(snd (fsync_task io s))\<lparr>fl_orphans := fl_orphans s - 1\<rparr> =
      s1\<lparr>fl_phase := fl_phase s, fl_orphans := fl_orphans s - 1\<rparr>"
    using r by simp
  then show ?case by (rule flush_inv_fsync [OF flush_step_orphan(2) r]) simp
next
  case (flush_step_answer s ws1 w ws2 r)
  let ?s' = "s\<lparr>fl_waiters := ws1 @ ws2, fl_answered := (w, r) # fl_answered s\<rparr>"
  have "tracked ?s' \<subseteq> tracked s" using flush_step_answer by (auto simp: tracked_def)
  moreover have "r = Inr () \<Longrightarrow> fw_seq w \<le> pi_completed_flush_seq (fl_inner s)"
    using flush_step_answer by (auto simp: await_flush_def split: if_splits)
  moreover have "covered_seq ?s' = covered_seq s" by (rule covered_seq_cong) simp_all
  ultimately show ?case
    using flush_inv_answered [OF flush_step_answer(3)]
    by (intro flush_inv_frame [OF flush_step_answer(3)]) auto
qed

lemma flush_inv_initial: "flush_initial s \<Longrightarrow> flush_inv s"
proof -
  assume init: "flush_initial s"
  then obtain bss bs where ok: "log_ok (pd_files (fl_dir s)) (fl_inner s) bss bs"
    by (auto simp: flush_initial_def)
  note base = log_ok_active_base [OF ok]
  have ah: "active_holds (pd_files (fl_dir s)) (fl_active s) bs"
    and hw: "pi_high_water (fl_inner s) = end_offset_of (sm_base_offset (as_meta (fl_active s))) bs"
    and named: "meta_named (as_meta (fl_active s))" and log: "as_log (fl_active s)"
    using ok by (simp_all add: log_ok_def segments_of_def active_holds_def)
  have "as_log_size (fl_active s) = length (fs_contents (pd_files (fl_dir s)) (log_path_of (fl_active s)))"
    using ah by (simp add: active_holds_def seg_holds_def fs_contents_def)
  moreover have "sm_base_offset (as_meta (fl_active s)) < pi_high_water (fl_inner s)"
    if "0 < as_log_size (fl_active s)"
    unfolding hw using ah that by (intro end_offset_gt) (auto simp: active_holds_def seg_holds_def)
  ultimately have "active_sound (pd_files (fl_dir s)) (fl_inner s)"
    using base init named log by (simp add: active_sound_def flush_initial_def)
  then show "flush_inv s"
    using init by (simp add: flush_inv_def flush_initial_def tracked_def covered_seq_def)
qed

lemma flush_reachable_inv: "flush_reachable s \<Longrightarrow> flush_inv s"
  by (induction rule: flush_reachable.induct) (auto intro: flush_inv_initial flush_inv_step)

section \<open>No request is lost\<close>

text \<open>While a flush is owed and every appender has sent its request, the channel holds one or the
  committer is on its way to a sync that covers it.\<close>

definition wake_ok :: "flush_system \<Rightarrow> bool" where
  "wake_ok s \<longleftrightarrow>
     (let g = fl_inner s; owed = pi_requested_flush_seq g in
      pi_completed_flush_seq g \<le> owed \<and>
      (pi_flush_err g = None \<longleftrightarrow> fl_phase s \<noteq> Probing \<and> (\<forall>q. fl_phase s \<noteq> Rearmed q)) \<and>
      (fl_sending s = 0 \<longrightarrow> fl_channel s \<or>
        (case fl_phase s of
           Parked \<Rightarrow> pi_completed_flush_seq g = owed
         | Checking t \<Rightarrow> t = owed
         | Reporting (Synced q) \<Rightarrow> q = owed
         | _ \<Rightarrow> True)) \<and>
      (case fl_phase s of
         Checking t \<Rightarrow> t \<le> owed | Reporting (Synced q) \<Rightarrow> q \<le> owed | Rearmed q \<Rightarrow> q = owed | _ \<Rightarrow> True))"

lemmas wake_simps = wake_ok_def Let_def finish_frames

lemma wake_cong:
  "fl_phase s' = fl_phase s \<Longrightarrow> fl_sending s' = fl_sending s \<Longrightarrow> fl_channel s' = fl_channel s \<Longrightarrow>
   pi_flush_err (fl_inner s') = pi_flush_err (fl_inner s) \<Longrightarrow>
   pi_completed_flush_seq (fl_inner s') = pi_completed_flush_seq (fl_inner s) \<Longrightarrow>
   pi_requested_flush_seq (fl_inner s') = pi_requested_flush_seq (fl_inner s) \<Longrightarrow> wake_ok s' = wake_ok s"
  by (simp add: wake_ok_def Let_def cong: committer_phase.case_cong sync_outcome.case_cong)

lemma wake_committer: "wake_ok s \<Longrightarrow> wake_ok (committer_step io s)"
proof (cases "fl_phase s")
  case Syncing
  assume ok: "wake_ok s"
  show ?thesis
  proof (cases rule: fsync_task_cases [of io s])
    case (synced s1)
    then obtain b where "fl_inner s1 = (fl_inner s)\<lparr>pi_last_checkpoint_byte := b\<rparr>" by blast
    with synced ok Syncing show ?thesis by (simp add: committer_step_def wake_simps)
  next
    case (failed e)
    with ok Syncing show ?thesis by (simp add: committer_step_def wake_simps)
  qed
next
  case Probing
  assume "wake_ok s"
  with Probing show ?thesis
    by (cases "io_fails io Probe_write"; cases "sync_log io (fl_active s)")
      (simp_all add: committer_step_def wake_simps rearm_sync_def)
qed (auto simp: committer_step_def wake_simps split: sync_outcome.splits)

lemma wake_append:
  assumes inv: "flush_inv s" and ok: "appendable s batch" and wake: "wake_ok s"
  shows "wake_ok (flush_append io epoch batch acks s)"
proof -
  let ?s' = "flush_append io epoch batch acks s"
  obtain res dir' p' where ap: "append io (fl_dir s) (fl_part s) epoch batch = (res, dir', p')"
    using prod_cases3 by blast
  note F = flush_append_cases [OF ap, of acks]
  have eff: "append_effect (pd_files (fl_dir s)) (fl_inner s) batch res (pd_files dir') (p_inner p')"
    using append_effects [OF ap] inv ok by (simp add: flush_inv_def appendable_def)
  show ?thesis
  proof (cases "\<exists>assigned seq. res = Inr (assigned, seq, True)")
    case True
    then obtain assigned seq where res: "res = Inr (assigned, seq, True)" by blast
    have g: "pi_flush_err (fl_inner ?s') = pi_flush_err (fl_inner s)" "pi_flush_err (fl_inner s) = None"
      "pi_completed_flush_seq (fl_inner ?s') = pi_completed_flush_seq (fl_inner s)"
      "pi_requested_flush_seq (fl_inner ?s') = pi_requested_flush_seq (fl_inner s) + 1"
      "fl_sending ?s' = fl_sending s + 1" "fl_phase ?s' = fl_phase s"
      using eff res F by (simp_all add: append_effect_def)
    show ?thesis
      using wake g by (cases "fl_phase s") (auto simp: wake_ok_def Let_def split: sync_outcome.splits)
  next
    case False
    then have "fl_sending ?s' = fl_sending s" "pi_requested_flush_seq (p_inner p') = pi_requested_flush_seq (fl_inner s)"
      using F eff by (auto simp: append_effect_def split: sum.splits prod.splits bool.splits)
    with F eff have "wake_ok ?s' = wake_ok s" by (intro wake_cong) (simp_all add: append_effect_def)
    with wake show ?thesis by simp
  qed
qed

lemma wake_step: "flush_step s s' \<Longrightarrow> flush_inv s \<Longrightarrow> wake_ok s \<Longrightarrow> wake_ok s'"
proof (induction s s' rule: flush_step.induct)
  case (flush_step_append s batch io epoch acks)
  then show ?case by (intro wake_append)
next
  case (flush_step_send s)
  then show ?case by (simp add: wake_ok_def Let_def flush_send_def)
next
  case (flush_step_committer s io)
  then show ?case by (intro wake_committer)
next
  case (flush_step_elapsed s)
  then show ?case by (simp add: wake_ok_def Let_def)
next
  case (flush_step_late s r)
  then show ?case by (simp add: wake_ok_def Let_def)
next
  case (flush_step_orphan s io)
  have "wake_ok ((snd (fsync_task io s))\<lparr>fl_orphans := fl_orphans s - 1\<rparr>) = wake_ok s"
  proof (cases rule: fsync_task_cases [of io s])
    case (synced s1)
    then obtain b where "fl_inner s1 = (fl_inner s)\<lparr>pi_last_checkpoint_byte := b\<rparr>" by blast
    with synced show ?thesis by (intro wake_cong) simp_all
  next
    case (failed e)
    then show ?thesis by (intro wake_cong) simp_all
  qed
  with flush_step_orphan show ?case by simp
next
  case (flush_step_answer s ws1 w ws2 r)
  have "wake_ok (s\<lparr>fl_waiters := ws1 @ ws2, fl_answered := (w, r) # fl_answered s\<rparr>) = wake_ok s"
    by (rule wake_cong) simp_all
  with flush_step_answer show ?case by simp
qed

lemma flush_reachable_wake: "flush_reachable s \<Longrightarrow> wake_ok s"
proof (induction rule: flush_reachable.induct)
  case (flush_start s)
  then show ?case by (simp add: flush_initial_def wake_ok_def)
next
  case (flush_next s s')
  then show ?case using flush_reachable_inv wake_step by blast
qed

text \<open>How many steps the committer is away from having covered every request.\<close>

definition committer_rank :: "flush_system \<Rightarrow> nat" where
  "committer_rank s =
     (let g = fl_inner s in
      case fl_phase s of
        Parked \<Rightarrow> 5 | Woken \<Rightarrow> 4 | Syncing \<Rightarrow> 2 | Probing \<Rightarrow> 2 | Rearmed q \<Rightarrow> 1
      | Checking t \<Rightarrow> if t = pi_completed_flush_seq g then 6 else 3
      | Reporting r \<Rightarrow> (case r of Synced q \<Rightarrow> if q = pi_requested_flush_seq g then 1 else 6 | _ \<Rightarrow> 3))"

definition all_covered :: "flush_system \<Rightarrow> bool" where
  "all_covered s \<longleftrightarrow> pi_flush_err (fl_inner s) = None \<and>
     pi_completed_flush_seq (fl_inner s) = pi_requested_flush_seq (fl_inner s)"

lemma committer_progress:
  assumes ok: "wake_ok s" "fl_sending s = 0" "as_log (fl_active s)" "\<not> all_covered s"
    and io: "\<not> io_fails io Sync_log" "\<not> io_fails io Probe_write"
  shows "fl_sending (committer_step io s) = 0 \<and> as_log (fl_active (committer_step io s)) \<and>
    pi_requested_flush_seq (fl_inner (committer_step io s)) = pi_requested_flush_seq (fl_inner s) \<and>
    (all_covered (committer_step io s) \<or> committer_rank (committer_step io s) < committer_rank s)"
proof (cases "fl_phase s")
  case Syncing
  have "sync_log io (fl_active s) = Inr ()" using ok io by (simp add: sync_log_def)
  then show ?thesis
  proof (cases rule: fsync_task_cases [of io s])
    case (synced s1)
    then obtain b where "fl_inner s1 = (fl_inner s)\<lparr>pi_last_checkpoint_byte := b\<rparr>" by blast
    with synced ok Syncing show ?thesis by (simp add: committer_step_def committer_rank_def Let_def)
  qed auto
next
  case Probing
  have "sync_log io (fl_active s) = Inr ()" using ok io by (simp add: sync_log_def)
  with Probing ok io show ?thesis
    by (simp add: committer_step_def rearm_sync_def committer_rank_def Let_def)
qed (use ok in \<open>auto simp: committer_step_def wake_simps all_covered_def committer_rank_def
    split: sync_outcome.splits\<close>)

lemma committer_covers:
  assumes "\<not> io_fails io Sync_log" "\<not> io_fails io Probe_write"
  shows "wake_ok s \<Longrightarrow> fl_sending s = 0 \<Longrightarrow> as_log (fl_active s) \<Longrightarrow>
    \<exists>n \<le> committer_rank s. all_covered ((committer_step io ^^ n) s) \<and>
      pi_requested_flush_seq (fl_inner ((committer_step io ^^ n) s)) = pi_requested_flush_seq (fl_inner s)"
proof (induction "committer_rank s" arbitrary: s rule: less_induct)
  case less
  let ?s' = "committer_step io s"
  show ?case
  proof (cases "all_covered s")
    case True
    then show ?thesis by (intro exI [of _ 0]) simp
  next
    case False
    note P = committer_progress [OF less.prems False assms]
    show ?thesis
    proof (cases "all_covered ?s'")
      case True
      moreover have "1 \<le> committer_rank s"
        by (auto simp: committer_rank_def Let_def split: committer_phase.splits sync_outcome.splits)
      ultimately show ?thesis using P by (intro exI [of _ 1]) simp
    next
      case False
      with P have r: "committer_rank ?s' < committer_rank s" "fl_sending ?s' = 0" "as_log (fl_active ?s')"
        by blast+
      obtain n where "n \<le> committer_rank ?s'" "all_covered ((committer_step io ^^ n) ?s')"
        "pi_requested_flush_seq (fl_inner ((committer_step io ^^ n) ?s')) = pi_requested_flush_seq (fl_inner ?s')"
        using less.hyps [OF r(1) wake_committer [OF less.prems(1)] r(2,3)] by blast
      with P r(1) show ?thesis
        by (intro exI [of _ "Suc n"]) (simp add: funpow_swap1)
    qed
  qed
qed

lemma committer_rank_le: "committer_rank s \<le> 6"
  by (auto simp: committer_rank_def Let_def split: committer_phase.splits sync_outcome.splits)

section \<open>Properties\<close>


text \<open>C15: no flush request is lost. From every reachable state in which the appenders have sent
  their requests, six steps of the committer on a disk that works again answer every parked append
  with \<open>Ok\<close>, whatever phase the committer was in, stalled and probing included. The one exception is
  a partition whose roll failed half-way, which has no log handle to sync.\<close>

theorem parked_append_answered:
  assumes "flush_reachable s" "fl_sending s = 0" "w \<in> set (fl_waiters s)" "as_log (fl_active s)"
    and "\<not> io_fails io Sync_log" "\<not> io_fails io Probe_write"
  shows "\<exists>n \<le> 6. await_flush (fl_inner ((committer_step io ^^ n) s)) (fw_seq w) = Some (Inr ())"
proof -
  obtain n where n: "n \<le> committer_rank s" "all_covered ((committer_step io ^^ n) s)"
    "pi_requested_flush_seq (fl_inner ((committer_step io ^^ n) s)) = pi_requested_flush_seq (fl_inner s)"
    using committer_covers [OF assms(5,6) flush_reachable_wake [OF assms(1)] assms(2,4)] by blast
  have "fw_seq w \<le> pi_requested_flush_seq (fl_inner s)"
    using flush_reachable_inv [OF assms(1)] assms(3) by (auto simp: flush_inv_def tracked_def batch_safe_def)
  then show ?thesis
    using n committer_rank_le [of s] by (intro exI [of _ n]) (simp add: await_flush_def all_covered_def)
qed

section \<open>Witnesses\<close>

text \<open>One append of \<open>acks = -1\<close>, its request, a committer cycle and the answer.\<close>

definition demo_flush :: flush_system where
  "demo_flush = \<lparr>fl_dir = demo_part_dir, fl_part = demo_part, fl_disk = [], fl_channel = False,
     fl_sending = 0, fl_phase = Parked, fl_orphans = 0, fl_waiters = [], fl_answered = []\<rparr>"

definition demo_parked :: flush_system where
  "demo_parked = flush_send (flush_append healthy_io 0 (demo_batch 77 1) (-1) demo_flush)"

definition demo_waiter :: flush_waiter where
  "demo_waiter = \<lparr>fw_seq = 1, fw_path = segment_log_path 4 0, fw_pos = 0, fw_bytes = demo_batch 4 1\<rparr>"

lemma demo_parked_facts:
  "fl_waiters demo_parked = [demo_waiter] \<and> fl_sending demo_parked = 0 \<and> as_log (fl_active demo_parked)"
  by code_simp

lemma demo_flush_reachable: "flush_reachable demo_flush"
proof (rule flush_start)
  show "flush_initial demo_flush"
    using demo_log_ok
    by (auto simp: flush_initial_def demo_flush_def demo_part_simps demo_inner_def opened_inner_def int_bounds)
qed

lemma demo_flush_parts: "fl_dir demo_flush = demo_part_dir" "fl_part demo_flush = demo_part"
  by (simp_all add: demo_flush_def)

lemma demo_parked_reachable: "flush_reachable demo_parked"
proof -
  have "appendable demo_flush (demo_batch 77 1)"
    using demo_append_result by (simp add: appendable_def demo_flush_def demo_part_simps int_bounds u64_MAX_def)
  moreover obtain dir' p' where sent:
    "append healthy_io (fl_dir demo_flush) (fl_part demo_flush) 0 (demo_batch 77 1) = (Inr (4, 1, True), dir', p')"
    using demo_append_run demo_flush_parts by metis
  ultimately have "flush_reachable (flush_append healthy_io 0 (demo_batch 77 1) (-1) demo_flush)"
    by (intro flush_next [OF demo_flush_reachable flush_step_append])
  then show ?thesis
    unfolding demo_parked_def
    by (rule flush_next [OF _ flush_step_send])
      (simp add: flush_append_cases(7) [OF sent])
qed

lemma committer_run_reachable: "flush_reachable s \<Longrightarrow> flush_reachable ((committer_step io ^^ n) s)"
  by (induction n) (auto intro: flush_next flush_step_committer)

lemma committer_step_waiters: "fl_waiters (committer_step io s) = fl_waiters s"
proof (cases "fl_phase s = Syncing")
  case True
  then show ?thesis
    by (cases rule: fsync_task_cases [of io s]) (simp_all add: committer_step_def)
qed (auto simp: committer_step_def Let_def split: committer_phase.splits sum.splits)

lemma committer_run_waiters: "fl_waiters ((committer_step io ^^ n) s) = fl_waiters s"
  by (induction n) (simp_all add: committer_step_waiters)


theorem parked_append_answered_witness:
  "\<exists>n \<le> 6. await_flush (fl_inner ((committer_step healthy_io ^^ n) demo_parked)) 1 = Some (Inr ())"
  using parked_append_answered [OF demo_parked_reachable, of demo_waiter healthy_io] demo_parked_facts
  by (simp add: demo_waiter_def)

end
