(* ===== verification/GroupCoordinator.thy ===== *)
theory GroupCoordinator
  imports SegmentNames
begin

text \<open>
  The consumer-group state machine (\<open>crates/kaas-coordinator/src/group.rs\<close>): members, the JoinGroup
  waiters of the running rebalance, the SyncGroup round and the two kinds of timers. Every operation
  is what its Rust counterpart does under the group mutex. A oneshot channel is a ticket: what was
  sent on it is in \<open>g_join_replies\<close> or \<open>g_sync_wakeups\<close>. The \<open>Arc<Mutex<SyncRound>>\<close> values live in
  \<open>g_rounds\<close>, so a SyncGroup call that is parked keeps its round when the group moves on. A timer is
  the deadline it is armed for; its body is an operation of its own.
\<close>

section \<open>State\<close>

definition INITIAL_REBALANCE_DELAY_MS :: int where "INITIAL_REBALANCE_DELAY_MS = 3000"
definition DEFAULT_REBALANCE_TIMEOUT_MS :: int where "DEFAULT_REBALANCE_TIMEOUT_MS = 30000"
definition DEFAULT_SESSION_TIMEOUT_MS :: int where "DEFAULT_SESSION_TIMEOUT_MS = 30000"

definition NONE :: int where "NONE = 0"
definition UNKNOWN_MEMBER_ID :: int where "UNKNOWN_MEMBER_ID = 25"
definition REBALANCE_IN_PROGRESS :: int where "REBALANCE_IN_PROGRESS = 27"
definition ILLEGAL_GENERATION :: int where "ILLEGAL_GENERATION = 22"

lemmas group_codes = NONE_def UNKNOWN_MEMBER_ID_def REBALANCE_IN_PROGRESS_def ILLEGAL_GENERATION_def

datatype group_state = Empty | PreparingRebalance | CompletingRebalance | Stable | Dead

definition state_str :: "group_state \<Rightarrow> string" where
  "state_str s = (case s of Empty \<Rightarrow> ''Empty'' | PreparingRebalance \<Rightarrow> ''PreparingRebalance''
     | CompletingRebalance \<Rightarrow> ''CompletingRebalance'' | Stable \<Rightarrow> ''Stable'' | Dead \<Rightarrow> ''Dead'')"

record protocol_metadata =
  pm_name :: string
  pm_metadata :: bytes

record group_member =
  gm_id :: string
  gm_client_id :: string
  gm_client_host :: string
  gm_group_instance_id :: "string option"
  gm_session_timeout_ms :: int
  gm_rebalance_timeout_ms :: int
  gm_protocols :: "protocol_metadata list"
  gm_assignment :: bytes
  gm_heartbeat_handle :: "int option"

record join_waiter =
  jw_member_id :: string
  jw_tx :: nat

record sync_round =
  sr_assignments :: "(string, bytes) hash_map"
  sr_delivered :: bool
  sr_canceled :: bool
  sr_waiters :: "nat list"

definition default_round :: sync_round where
  "default_round = \<lparr>sr_assignments = [], sr_delivered = False, sr_canceled = False, sr_waiters = []\<rparr>"

record joined_member =
  jm_member_id :: string
  jm_group_instance_id :: "string option"
  jm_metadata :: bytes

record join_outcome =
  jo_error_code :: int
  jo_generation_id :: int
  jo_leader :: string
  jo_member_id :: string
  jo_protocol_type :: string
  jo_protocol_name :: string
  jo_members :: "joined_member list"

record join_request =
  jr_member_id :: string
  jr_group_instance_id :: "string option"
  jr_session_timeout_ms :: int
  jr_rebalance_timeout_ms :: int
  jr_protocol_type :: string
  jr_protocols :: "protocol_metadata list"
  jr_client_id :: string
  jr_client_host :: string

record sync_request =
  sq_member_id :: string
  sq_generation_id :: int
  sq_assignments :: "(string \<times> bytes) list"

record sync_reply =
  so_error_code :: int
  so_protocol_type :: string
  so_protocol_name :: string
  so_assignment :: bytes

record heartbeat_request =
  hr_member_id :: string
  hr_generation_id :: int

record group_inner =
  gi_id :: string
  gi_state :: group_state
  gi_generation_id :: int
  gi_protocol_type :: string
  gi_protocol_name :: string
  gi_leader_id :: string
  gi_members :: "(string, group_member) hash_map"
  gi_join_waiters :: "join_waiter list"
  gi_current_sync :: "nat option"
  gi_rebalance_handle :: "int option"
  gi_initial_rebalance :: bool
  gi_initial_rebalance_deadline :: "int option"

record group =
  g_inner :: group_inner
  g_rounds :: "sync_round list"
  g_join_replies :: "(nat \<times> join_outcome) list"
  g_sync_wakeups :: "nat list"

definition new_group :: "string \<Rightarrow> group" where
  "new_group gid =
     \<lparr>g_inner = \<lparr>gi_id = gid, gi_state = Empty, gi_generation_id = 0, gi_protocol_type = [],
        gi_protocol_name = [], gi_leader_id = [], gi_members = [], gi_join_waiters = [],
        gi_current_sync = None, gi_rebalance_handle = None, gi_initial_rebalance = True,
        gi_initial_rebalance_deadline = None\<rparr>,
      g_rounds = [], g_join_replies = [], g_sync_wakeups = []\<rparr>"

definition upd_inner :: "(group_inner \<Rightarrow> group_inner) \<Rightarrow> group \<Rightarrow> group" where
  "upd_inner f g = g\<lparr>g_inner := f (g_inner g)\<rparr>"

record member_snapshot =
  ms_member_id :: string
  ms_client_id :: string
  ms_group_instance_id :: "string option"
  ms_assignment :: bytes

record group_snapshot =
  gs_id :: string
  gs_state :: string
  gs_protocol_type :: string
  gs_protocol_name :: string
  gs_generation_id :: int
  gs_members :: "member_snapshot list"

definition describe_group :: "group \<Rightarrow> group_snapshot" where
  "describe_group g =
     (let s = g_inner g in
      \<lparr>gs_id = gi_id s, gs_state = state_str (gi_state s), gs_protocol_type = gi_protocol_type s,
       gs_protocol_name = gi_protocol_name s, gs_generation_id = gi_generation_id s,
       gs_members = map (\<lambda>(_, m). \<lparr>ms_member_id = gm_id m, ms_client_id = gm_client_id m,
         ms_group_instance_id = gm_group_instance_id m, ms_assignment = gm_assignment m\<rparr>) (gi_members s)\<rparr>)"

section \<open>Helpers\<close>

definition hex2 :: "int \<Rightarrow> string" where
  "hex2 b = [digit_char (nat (b div 16)), digit_char (nat (b mod 16))]"

definition generate_member_id :: "string \<Rightarrow> int \<Rightarrow> string" where
  "generate_member_id client_id n =
     client_id @ ''-'' @ concat (map (\<lambda>i. hex2 (n div 256 ^ i mod 256)) [0, 1, 2, 3, 4, 5, 6, 7])"

definition max_rebalance_timeout :: "group_inner \<Rightarrow> int" where
  "max_rebalance_timeout s =
     (let m = foldl (\<lambda>acc (_, m). if acc < gm_rebalance_timeout_ms m then gm_rebalance_timeout_ms m else acc)
                0 (gi_members s)
      in if m \<le> 0 then DEFAULT_REBALANCE_TIMEOUT_MS else m)"

definition supports :: "(string, group_member) hash_map \<Rightarrow> string \<Rightarrow> join_waiter \<Rightarrow> bool" where
  "supports members name w =
     (case hm_get members (jw_member_id w) of
        Some m \<Rightarrow> list_ex (\<lambda>mp. pm_name mp = name) (gm_protocols m) | None \<Rightarrow> False)"

definition select_protocol ::
  "(string, group_member) hash_map \<Rightarrow> join_waiter list \<Rightarrow> string option" where
  "select_protocol members waiters =
     (case waiters of
        [] \<Rightarrow> None
      | first # rest \<Rightarrow>
          (case hm_get members (jw_member_id first) of
             None \<Rightarrow> None
           | Some leader \<Rightarrow>
               map_option pm_name (List.find (\<lambda>p. list_all (supports members (pm_name p)) rest)
                 (gm_protocols leader))))"

definition unknown_member :: "string \<Rightarrow> join_outcome" where
  "unknown_member mid =
     \<lparr>jo_error_code = UNKNOWN_MEMBER_ID, jo_generation_id = 0, jo_leader = [], jo_member_id = mid,
      jo_protocol_type = [], jo_protocol_name = [], jo_members = []\<rparr>"

definition cancel_sync :: "nat \<Rightarrow> group \<Rightarrow> group" where
  "cancel_sync k g =
     (let r = g_rounds g ! k in
      if sr_delivered r \<or> sr_canceled r then g
      else g\<lparr>g_rounds := (g_rounds g)[k := r\<lparr>sr_canceled := True, sr_waiters := []\<rparr>],
             g_sync_wakeups := g_sync_wakeups g @ sr_waiters r\<rparr>)"

text \<open>Remove the first waiter of a member and answer it.\<close>

fun drain_waiter :: "string \<Rightarrow> join_waiter list \<Rightarrow> join_waiter list \<times> (nat \<times> join_outcome) list" where
  "drain_waiter mid [] = ([], [])"
| "drain_waiter mid (w # ws) =
     (if jw_member_id w = mid then (ws, [(jw_tx w, unknown_member mid)])
      else (let (ws', out) = drain_waiter mid ws in (w # ws', out)))"

definition remove_member :: "string \<Rightarrow> group \<Rightarrow> group" where
  "remove_member mid g =
     (let s = g_inner g; (ws, out) = drain_waiter mid (gi_join_waiters s) in
      g\<lparr>g_inner := s\<lparr>gi_members := hm_remove mid (gi_members s), gi_join_waiters := ws\<rparr>,
        g_join_replies := g_join_replies g @ out\<rparr>)"

section \<open>Rebalance\<close>

definition leader_payload :: "group_inner \<Rightarrow> string \<Rightarrow> join_waiter \<Rightarrow> joined_member" where
  "leader_payload s protocol_name w =
     (let m = hm_get (gi_members s) (jw_member_id w) in
      \<lparr>jm_member_id = jw_member_id w,
       jm_group_instance_id = (case m of Some m \<Rightarrow> gm_group_instance_id m | None \<Rightarrow> None),
       jm_metadata = (case m of
          Some m \<Rightarrow> (case List.find (\<lambda>p. pm_name p = protocol_name) (gm_protocols m) of
                       Some p \<Rightarrow> pm_metadata p | None \<Rightarrow> [])
        | None \<Rightarrow> [])\<rparr>)"

definition complete_rebalance :: "group \<Rightarrow> group" where
  "complete_rebalance g =
     (let s = g_inner g; waiters = gi_join_waiters s;
          protocol_name = (case select_protocol (gi_members s) waiters of Some p \<Rightarrow> p | None \<Rightarrow> []);
          leader_id = (case waiters of w # _ \<Rightarrow> jw_member_id w | [] \<Rightarrow> gi_leader_id s);
          generation = wrap32 (gi_generation_id s + 1);
          payload = map (leader_payload s protocol_name) waiters;
          outcome = (\<lambda>w. \<lparr>jo_error_code = NONE, jo_generation_id = generation, jo_leader = leader_id,
            jo_member_id = jw_member_id w, jo_protocol_type = gi_protocol_type s,
            jo_protocol_name = protocol_name,
            jo_members = if jw_member_id w = leader_id then payload else []\<rparr>)
      in g\<lparr>g_inner := s\<lparr>gi_state := CompletingRebalance, gi_rebalance_handle := None,
             gi_initial_rebalance := False, gi_initial_rebalance_deadline := None,
             gi_generation_id := generation, gi_join_waiters := [], gi_protocol_name := protocol_name,
             gi_leader_id := leader_id, gi_current_sync := Some (length (g_rounds g))\<rparr>,
           g_rounds := g_rounds g @ [default_round],
           g_join_replies := g_join_replies g @ map (\<lambda>w. (jw_tx w, outcome w)) waiters\<rparr>)"

definition maybe_complete_rebalance :: "group \<Rightarrow> group" where
  "maybe_complete_rebalance g =
     (let s = g_inner g in
      if gi_initial_rebalance s then g
      else if gi_state s = PreparingRebalance \<and> length (gi_members s) \<le> length (gi_join_waiters s)
      then complete_rebalance g else g)"

definition evict_non_rejoining_members :: "group \<Rightarrow> group" where
  "evict_non_rejoining_members g =
     (let s = g_inner g in
      if length (gi_members s) = length (gi_join_waiters s) then g
      else
        let rejoined = map jw_member_id (gi_join_waiters s);
            stale = map fst (filter (\<lambda>(mid, m). mid \<notin> set rejoined \<and> gm_group_instance_id m = None) (gi_members s))
        in fold remove_member stale g)"

definition start_rebalance_timer :: "int \<Rightarrow> bool \<Rightarrow> group_inner \<Rightarrow> group_inner" where
  "start_rebalance_timer now initial s =
     (let budget0 = max_rebalance_timeout s;
          budget1 = (if initial \<and> INITIAL_REBALANCE_DELAY_MS < budget0 then INITIAL_REBALANCE_DELAY_MS
                     else budget0);
          budget2 = (case (initial, gi_initial_rebalance_deadline s) of
             (True, Some deadline) \<Rightarrow>
               (let remaining = min i32_MAX (max 0 (deadline - now))
                in if remaining < budget1 then remaining else budget1)
           | _ \<Rightarrow> budget1);
          budget = (if budget2 < 0 then 0 else budget2)
      in s\<lparr>gi_rebalance_handle := Some (now + budget)\<rparr>)"

text \<open>The body of the rebalance timer.\<close>

definition rebalance_timer_fires :: "group \<Rightarrow> group" where
  "rebalance_timer_fires g0 =
     (let g = upd_inner (\<lambda>s. s\<lparr>gi_rebalance_handle := None\<rparr>) g0; s = g_inner g in
      if gi_state s = PreparingRebalance \<and> gi_join_waiters s \<noteq> []
      then complete_rebalance (evict_non_rejoining_members g) else g)"

section \<open>Session timers\<close>

definition reset_heartbeat_timer :: "int \<Rightarrow> string \<Rightarrow> group_inner \<Rightarrow> group_inner" where
  "reset_heartbeat_timer now mid s =
     (case hm_get (gi_members s) mid of
        None \<Rightarrow> s
      | Some m \<Rightarrow>
          let timeout = (if gm_session_timeout_ms m \<le> 0 then DEFAULT_SESSION_TIMEOUT_MS
                         else gm_session_timeout_ms m)
          in s\<lparr>gi_members := hm_insert mid (m\<lparr>gm_heartbeat_handle := Some (now + timeout)\<rparr>) (gi_members s)\<rparr>)"

text \<open>What a removal leads to, shared by LeaveGroup and the session timer.\<close>

definition after_removal :: "int \<Rightarrow> group \<Rightarrow> group" where
  "after_removal now g =
     (let s = g_inner g in
      if gi_members s = [] then upd_inner (\<lambda>s. s\<lparr>gi_state := Empty, gi_rebalance_handle := None\<rparr>) g
      else if gi_state s = Stable
      then upd_inner (\<lambda>s. start_rebalance_timer now False (s\<lparr>gi_state := PreparingRebalance\<rparr>)) g
      else g)"

text \<open>The body of a member's session timer.\<close>

definition session_timer_fires :: "int \<Rightarrow> string \<Rightarrow> group \<Rightarrow> group" where
  "session_timer_fires now mid g =
     (if hm_get (gi_members (g_inner g)) mid = None then g
      else after_removal now (remove_member mid g))"

section \<open>Requests\<close>

definition upsert_member :: "string \<Rightarrow> join_request \<Rightarrow> group_inner \<Rightarrow> group_inner" where
  "upsert_member mid req s =
     (let m = (case hm_get (gi_members s) mid of
           Some m \<Rightarrow> m
         | None \<Rightarrow> \<lparr>gm_id = mid, gm_client_id = jr_client_id req, gm_client_host = jr_client_host req,
             gm_group_instance_id = jr_group_instance_id req,
             gm_session_timeout_ms = jr_session_timeout_ms req,
             gm_rebalance_timeout_ms = jr_rebalance_timeout_ms req, gm_protocols = jr_protocols req,
             gm_assignment = [], gm_heartbeat_handle = None\<rparr>);
          m' = m\<lparr>gm_group_instance_id := jr_group_instance_id req,
                 gm_session_timeout_ms := jr_session_timeout_ms req,
                 gm_rebalance_timeout_ms := jr_rebalance_timeout_ms req,
                 gm_protocols := jr_protocols req\<rparr>;
          s1 = s\<lparr>gi_members := hm_insert mid m' (gi_members s)\<rparr>
      in if jr_protocol_type req \<noteq> [] then s1\<lparr>gi_protocol_type := jr_protocol_type req\<rparr> else s1)"

text \<open>The state-machine arm of a join on a group that is alive.\<close>

definition join_transition :: "int \<Rightarrow> bool \<Rightarrow> group \<Rightarrow> group" where
  "join_transition now is_new g =
     (let s = g_inner g in
      case gi_state s of
        Empty \<Rightarrow>
          upd_inner (\<lambda>s. start_rebalance_timer now True (s\<lparr>gi_state := PreparingRebalance,
            gi_initial_rebalance_deadline := Some (now + max_rebalance_timeout s)\<rparr>)) g
      | PreparingRebalance \<Rightarrow>
          if gi_initial_rebalance s \<and> is_new then upd_inner (start_rebalance_timer now True) g else g
      | Dead \<Rightarrow> g
      | _ \<Rightarrow>
          let g1 = upd_inner (\<lambda>s. (start_rebalance_timer now False (s\<lparr>gi_state := PreparingRebalance\<rparr>))
                     \<lparr>gi_current_sync := None\<rparr>) g
          in (case gi_current_sync s of Some k \<Rightarrow> cancel_sync k g1 | None \<Rightarrow> g1))"

text \<open>JoinGroup up to the release of the lock: an answer at once, or the ticket is parked. \<open>n\<close> is
  the member-id counter.\<close>

definition group_join :: "int \<Rightarrow> int \<Rightarrow> nat \<Rightarrow> join_request \<Rightarrow> group \<Rightarrow> join_outcome option \<times> group" where
  "group_join now n ticket req g =
     (let mid = (if jr_member_id req = [] then generate_member_id (jr_client_id req) n else jr_member_id req);
          is_new = (hm_get (gi_members (g_inner g)) mid = None);
          g1 = upd_inner (\<lambda>s. reset_heartbeat_timer now mid (upsert_member mid req s)) g
      in if gi_state (g_inner g) = Dead then (Some (unknown_member mid), g1)
      else
        let g2 = join_transition now is_new g1;
            g3 = upd_inner (\<lambda>s. s\<lparr>gi_join_waiters := gi_join_waiters s @
                   [\<lparr>jw_member_id = mid, jw_tx = ticket\<rparr>]\<rparr>) g2
        in (None, maybe_complete_rebalance g3))"

definition sync_error :: "int \<Rightarrow> sync_reply" where
  "sync_error code = \<lparr>so_error_code = code, so_protocol_type = [], so_protocol_name = [], so_assignment = []\<rparr>"

text \<open>What a SyncGroup call keeps while it is parked: its round and what it answers with.\<close>

record sync_call =
  sc_round :: nat
  sc_member_id :: string
  sc_protocol_type :: string
  sc_protocol_name :: string

text \<open>The leader stores the assignments and wakes the followers.\<close>

definition publish_assignments :: "sync_request \<Rightarrow> nat \<Rightarrow> group \<Rightarrow> group" where
  "publish_assignments req k g =
     (let r = g_rounds g ! k;
          a1 = foldl (\<lambda>m (mid, a). hm_insert mid a m) (sr_assignments r) (sq_assignments req);
          a2 = foldl (\<lambda>m mid. if hm_get m mid = None then hm_insert mid [] m else m) a1
                 (map fst (gi_members (g_inner g)))
      in (upd_inner (\<lambda>s. s\<lparr>gi_state := Stable\<rparr>) g)
           \<lparr>g_rounds := (g_rounds g)[k := r\<lparr>sr_assignments := a2, sr_delivered := True, sr_waiters := []\<rparr>],
            g_sync_wakeups := g_sync_wakeups g @ sr_waiters r\<rparr>)"

definition park_sync :: "nat \<Rightarrow> nat \<Rightarrow> group \<Rightarrow> group" where
  "park_sync ticket k g =
     (let r = g_rounds g ! k in
      if sr_delivered r \<or> sr_canceled r then g\<lparr>g_sync_wakeups := g_sync_wakeups g @ [ticket]\<rparr>
      else g\<lparr>g_rounds := (g_rounds g)[k := r\<lparr>sr_waiters := sr_waiters r @ [ticket]\<rparr>]\<rparr>)"

definition group_sync :: "nat \<Rightarrow> sync_request \<Rightarrow> group \<Rightarrow> (sync_reply + sync_call) \<times> group" where
  "group_sync ticket req g =
     (let s = g_inner g in
      if hm_get (gi_members s) (sq_member_id req) = None then (Inl (sync_error UNKNOWN_MEMBER_ID), g)
      else if sq_generation_id req \<noteq> gi_generation_id s then (Inl (sync_error ILLEGAL_GENERATION), g)
      else if gi_state s \<noteq> CompletingRebalance \<and> gi_state s \<noteq> Stable
      then (Inl (sync_error REBALANCE_IN_PROGRESS), g)
      else case gi_current_sync s of
        None \<Rightarrow> (Inl (sync_error REBALANCE_IN_PROGRESS), g)
      | Some k \<Rightarrow>
          let g1 = (if sq_member_id req = gi_leader_id s then publish_assignments req k g else g)
          in (Inr \<lparr>sc_round = k, sc_member_id = sq_member_id req, sc_protocol_type = gi_protocol_type s,
                 sc_protocol_name = gi_protocol_name s\<rparr>, park_sync ticket k g1))"

text \<open>The rest of a SyncGroup call, once its ticket was woken.\<close>

definition sync_finish :: "sync_call \<Rightarrow> group \<Rightarrow> sync_reply" where
  "sync_finish c g =
     (let r = g_rounds g ! sc_round c in
      if sr_canceled r then sync_error REBALANCE_IN_PROGRESS
      else \<lparr>so_error_code = NONE, so_protocol_type = sc_protocol_type c, so_protocol_name = sc_protocol_name c,
            so_assignment = (case hm_get (sr_assignments r) (sc_member_id c) of Some a \<Rightarrow> a | None \<Rightarrow> [])\<rparr>)"

definition group_heartbeat :: "int \<Rightarrow> heartbeat_request \<Rightarrow> group \<Rightarrow> int \<times> group" where
  "group_heartbeat now req g =
     (let s = g_inner g in
      if gi_state s = Empty \<or> gi_state s = Dead then (UNKNOWN_MEMBER_ID, g)
      else if hm_get (gi_members s) (hr_member_id req) = None then (UNKNOWN_MEMBER_ID, g)
      else if hr_generation_id req \<noteq> gi_generation_id s then (ILLEGAL_GENERATION, g)
      else
        (if gi_state s = PreparingRebalance \<or> gi_state s = CompletingRebalance
         then REBALANCE_IN_PROGRESS else NONE,
         upd_inner (reset_heartbeat_timer now (hr_member_id req)) g))"

fun leave_members :: "string list \<Rightarrow> group \<Rightarrow> (string \<times> int) list \<times> group" where
  "leave_members [] g = ([], g)"
| "leave_members (mid # mids) g =
     (if hm_get (gi_members (g_inner g)) mid = None
      then (let (out, g') = leave_members mids g in ((mid, UNKNOWN_MEMBER_ID) # out, g'))
      else (let (out, g') = leave_members mids (remove_member mid g) in ((mid, NONE) # out, g')))"

definition group_leave :: "int \<Rightarrow> string list \<Rightarrow> group \<Rightarrow> (string \<times> int) list \<times> group" where
  "group_leave now mids g = (let (out, g1) = leave_members mids g in (out, after_removal now g1))"

definition group_shutdown :: "group \<Rightarrow> group" where
  "group_shutdown g =
     (let g1 = fold remove_member (map fst (gi_members (g_inner g))) g;
          g2 = (case gi_current_sync (g_inner g1) of Some k \<Rightarrow> cancel_sync k g1 | None \<Rightarrow> g1)
      in upd_inner (\<lambda>s. s\<lparr>gi_rebalance_handle := None, gi_current_sync := None, gi_state := Dead,
                          gi_members := []\<rparr>) g2)"

section \<open>Runs\<close>

datatype group_event =
    Ev_join int int nat join_request
  | Ev_sync nat sync_request
  | Ev_heartbeat int heartbeat_request
  | Ev_leave int "string list"
  | Ev_session int string
  | Ev_rebalance
  | Ev_shutdown

fun group_apply :: "group \<Rightarrow> group_event \<Rightarrow> group" where
  "group_apply g (Ev_join now n ticket req) = snd (group_join now n ticket req g)"
| "group_apply g (Ev_sync ticket req) = snd (group_sync ticket req g)"
| "group_apply g (Ev_heartbeat now req) = snd (group_heartbeat now req g)"
| "group_apply g (Ev_leave now mids) = snd (group_leave now mids g)"
| "group_apply g (Ev_session now mid) = session_timer_fires now mid g"
| "group_apply g Ev_rebalance = rebalance_timer_fires g"
| "group_apply g Ev_shutdown = group_shutdown g"

section \<open>Steps that complete no rebalance\<close>

text \<open>Such a step answers joiners with an error at most, and leaves generation, leader, rounds and
  their assignments alone.\<close>

definition quiet :: "group \<Rightarrow> group \<Rightarrow> bool" where
  "quiet g g' \<longleftrightarrow>
     gi_generation_id (g_inner g') = gi_generation_id (g_inner g) \<and>
     gi_leader_id (g_inner g') = gi_leader_id (g_inner g) \<and>
     (gi_current_sync (g_inner g') = gi_current_sync (g_inner g) \<or> gi_current_sync (g_inner g') = None) \<and>
     map sr_assignments (g_rounds g') = map sr_assignments (g_rounds g) \<and>
     (\<exists>out. g_join_replies g' = g_join_replies g @ out \<and> (\<forall>(t, x) \<in> set out. jo_error_code x \<noteq> NONE))"

lemma quiet_refl [simp]: "quiet g g"
  by (simp add: quiet_def)

lemma quiet_trans: "quiet g1 g2 \<Longrightarrow> quiet g2 g3 \<Longrightarrow> quiet g1 g3"
  unfolding quiet_def by fastforce

lemma quiet_inner:
  assumes "\<And>s. gi_generation_id (f s) = gi_generation_id s" "\<And>s. gi_leader_id (f s) = gi_leader_id s"
    and "\<And>s. gi_current_sync (f s) = gi_current_sync s \<or> gi_current_sync (f s) = None"
  shows "quiet g (upd_inner f g)"
  using assms by (simp add: quiet_def upd_inner_def)

lemma drain_waiter_codes: "(t, x) \<in> set (snd (drain_waiter mid ws)) \<Longrightarrow> jo_error_code x \<noteq> NONE"
  by (induction ws) (auto simp: unknown_member_def group_codes split: if_splits prod.splits)

lemma quiet_remove_member: "quiet g (remove_member mid g)"
  using drain_waiter_codes [of _ _ mid "gi_join_waiters (g_inner g)"]
  by (auto simp: quiet_def remove_member_def Let_def split: prod.splits)

lemma quiet_fold_remove: "quiet g (fold remove_member mids g)"
proof (induction mids arbitrary: g)
  case (Cons m mids)
  show ?case using quiet_trans [OF quiet_remove_member [of g m] Cons.IH] by simp
qed simp

lemma start_timer_frame [simp]:
  "gi_generation_id (start_rebalance_timer now i s) = gi_generation_id s"
  "gi_leader_id (start_rebalance_timer now i s) = gi_leader_id s"
  "gi_current_sync (start_rebalance_timer now i s) = gi_current_sync s"
  "gi_members (start_rebalance_timer now i s) = gi_members s"
  "gi_join_waiters (start_rebalance_timer now i s) = gi_join_waiters s"
  "gi_state (start_rebalance_timer now i s) = gi_state s"
  "gi_initial_rebalance (start_rebalance_timer now i s) = gi_initial_rebalance s"
  by (simp_all add: start_rebalance_timer_def Let_def)

lemma reset_timer_frame [simp]:
  "gi_generation_id (reset_heartbeat_timer now mid s) = gi_generation_id s"
  "gi_leader_id (reset_heartbeat_timer now mid s) = gi_leader_id s"
  "gi_current_sync (reset_heartbeat_timer now mid s) = gi_current_sync s"
  "gi_join_waiters (reset_heartbeat_timer now mid s) = gi_join_waiters s"
  "gi_state (reset_heartbeat_timer now mid s) = gi_state s"
  "gi_initial_rebalance (reset_heartbeat_timer now mid s) = gi_initial_rebalance s"
  by (simp_all add: reset_heartbeat_timer_def Let_def split: option.splits)

lemma upsert_frame [simp]:
  "gi_generation_id (upsert_member mid req s) = gi_generation_id s"
  "gi_leader_id (upsert_member mid req s) = gi_leader_id s"
  "gi_current_sync (upsert_member mid req s) = gi_current_sync s"
  "gi_join_waiters (upsert_member mid req s) = gi_join_waiters s"
  "gi_state (upsert_member mid req s) = gi_state s"
  "gi_initial_rebalance (upsert_member mid req s) = gi_initial_rebalance s"
  by (simp_all add: upsert_member_def Let_def)

lemma quiet_after_removal: "quiet g (after_removal now g)"
  by (auto simp: after_removal_def Let_def intro!: quiet_inner)

lemma map_update_same: "f y = f (xs ! k) \<Longrightarrow> map f (xs[k := y]) = map f xs"
  by (cases "k < length xs") (simp_all add: map_update list_update_same_conv list_update_beyond not_less)

lemma quiet_cancel_sync: "quiet g (cancel_sync k g)"
  by (simp add: quiet_def cancel_sync_def Let_def map_update_same)

lemma quiet_join_transition: "quiet g (join_transition now is_new g)"
proof -
  have "quiet g (upd_inner (\<lambda>s. (start_rebalance_timer now False (s\<lparr>gi_state := PreparingRebalance\<rparr>))
      \<lparr>gi_current_sync := None\<rparr>) g)" by (rule quiet_inner) simp_all
  then show ?thesis
    using quiet_trans quiet_cancel_sync
    by (auto simp: join_transition_def Let_def intro!: quiet_inner split: group_state.splits option.splits)
qed

lemma quiet_evict: "quiet g (evict_non_rejoining_members g)"
  by (simp add: evict_non_rejoining_members_def Let_def quiet_fold_remove)

lemma quiet_leave_members: "quiet g (snd (leave_members mids g))"
proof (induction mids g rule: leave_members.induct)
  case (2 mid mids g)
  then show ?case
    using quiet_trans [OF quiet_remove_member [of g mid]]
    by (auto split: prod.splits)
qed simp

lemma quiet_shutdown: "quiet g (group_shutdown g)"
proof -
  let ?g1 = "fold remove_member (map fst (gi_members (g_inner g))) g"
  let ?g2 = "case gi_current_sync (g_inner ?g1) of Some k \<Rightarrow> cancel_sync k ?g1 | None \<Rightarrow> ?g1"
  have "quiet ?g1 ?g2" by (simp add: quiet_cancel_sync split: option.splits)
  then have "quiet g ?g2" by (rule quiet_trans [OF quiet_fold_remove])
  moreover have "quiet ?g2 (group_shutdown g)"
    unfolding group_shutdown_def Let_def by (rule quiet_inner) simp_all
  ultimately show ?thesis by (rule quiet_trans)
qed

text \<open>Every event is a quiet step, a quiet step that a completion follows, or the leader publishing.\<close>

definition publishes :: "group \<Rightarrow> group_event \<Rightarrow> nat \<Rightarrow> bool" where
  "publishes g e k \<longleftrightarrow>
     (\<exists>ticket req. e = Ev_sync ticket req \<and> sq_member_id req = gi_leader_id (g_inner g) \<and>
        sq_generation_id req = gi_generation_id (g_inner g) \<and>
        hm_get (gi_members (g_inner g)) (sq_member_id req) \<noteq> None \<and>
        gi_current_sync (g_inner g) = Some k)"

lemma quiet_park: "quiet g (park_sync ticket k g)"
  by (simp add: quiet_def park_sync_def Let_def map_update_same)

lemma publish_frame:
  "gi_generation_id (g_inner (publish_assignments req k g)) = gi_generation_id (g_inner g)"
  "gi_leader_id (g_inner (publish_assignments req k g)) = gi_leader_id (g_inner g)"
  "gi_current_sync (g_inner (publish_assignments req k g)) = gi_current_sync (g_inner g)"
  "g_join_replies (publish_assignments req k g) = g_join_replies g"
  "length (g_rounds (publish_assignments req k g)) = length (g_rounds g)"
  "j \<noteq> k \<Longrightarrow> g_rounds (publish_assignments req k g) ! j = g_rounds g ! j"
  by (simp_all add: publish_assignments_def Let_def upd_inner_def)

lemma group_join_cases:
  obtains (stays) "quiet g (snd (group_join now n ticket req g))"
  | (completes) g1 where "quiet g g1" "snd (group_join now n ticket req g) = complete_rebalance g1"
proof -
  define mid where "mid = (if jr_member_id req = [] then generate_member_id (jr_client_id req) n
    else jr_member_id req)"
  define g1 where "g1 = upd_inner (\<lambda>s. reset_heartbeat_timer now mid (upsert_member mid req s)) g"
  define g2 where "g2 = join_transition now (hm_get (gi_members (g_inner g)) mid = None) g1"
  define g3 where "g3 = upd_inner (\<lambda>s. s\<lparr>gi_join_waiters := gi_join_waiters s @
    [\<lparr>jw_member_id = mid, jw_tx = ticket\<rparr>]\<rparr>) g2"
  have q1: "quiet g g1" unfolding g1_def by (rule quiet_inner) simp_all
  have "quiet g1 g2" unfolding g2_def by (rule quiet_join_transition)
  moreover have "quiet g2 g3" unfolding g3_def by (rule quiet_inner) simp_all
  ultimately have q3: "quiet g g3" using quiet_trans [OF q1] quiet_trans [of g1 g2 g3] by simp
  have join: "snd (group_join now n ticket req g) =
      (if gi_state (g_inner g) = Dead then g1 else maybe_complete_rebalance g3)"
    by (simp add: group_join_def Let_def mid_def [symmetric] g1_def [symmetric] g2_def [symmetric]
        g3_def [symmetric])
  consider "snd (group_join now n ticket req g) = g1" | "snd (group_join now n ticket req g) = g3"
    | "snd (group_join now n ticket req g) = complete_rebalance g3"
    unfolding join maybe_complete_rebalance_def Let_def by presburger
  then show thesis
    using q1 q3 by cases (simp_all add: stays completes [of g3])
qed

lemma group_sync_cases:
  obtains (refused) e where "group_sync ticket req g = (Inl (sync_error e), g)" "e \<noteq> NONE"
  | (called) k where "group_sync ticket req g =
        (Inr \<lparr>sc_round = k, sc_member_id = sq_member_id req, sc_protocol_type = gi_protocol_type (g_inner g),
             sc_protocol_name = gi_protocol_name (g_inner g)\<rparr>,
         park_sync ticket k (if sq_member_id req = gi_leader_id (g_inner g)
           then publish_assignments req k g else g))"
      "gi_current_sync (g_inner g) = Some k" "sq_generation_id req = gi_generation_id (g_inner g)"
      "hm_get (gi_members (g_inner g)) (sq_member_id req) \<noteq> None"
      "gi_state (g_inner g) = CompletingRebalance \<or> gi_state (g_inner g) = Stable"
proof -
  let ?s = "g_inner g"
  consider (err) e where "group_sync ticket req g = (Inl (sync_error e), g)" "e \<noteq> NONE"
    | (ok) k where "hm_get (gi_members ?s) (sq_member_id req) \<noteq> None"
      "sq_generation_id req = gi_generation_id ?s"
      "gi_state ?s = CompletingRebalance \<or> gi_state ?s = Stable" "gi_current_sync ?s = Some k"
    by (cases "hm_get (gi_members ?s) (sq_member_id req) = None";
        cases "sq_generation_id req = gi_generation_id ?s"; cases "gi_current_sync ?s"; cases "gi_state ?s")
      (simp_all add: group_sync_def Let_def group_codes)
  then show thesis
  proof cases
    case err
    then show thesis by (rule refused)
  next
    case (ok k)
    show thesis by (rule called [of k]) (use ok in \<open>simp_all add: group_sync_def Let_def\<close>)
  qed
qed

lemma group_apply_cases:
  obtains
    (quiet) "quiet g (group_apply g e)"
  | (completed) g1 where "quiet g g1" "group_apply g e = complete_rebalance g1"
  | (published) k ticket req where "publishes g e k" "e = Ev_sync ticket req"
      "quiet (publish_assignments req k g) (group_apply g e)"
proof (cases e)
  case (Ev_join now n ticket req)
  then show thesis
    using quiet completed by (cases rule: group_join_cases [of g now n ticket req]) simp_all
next
  case (Ev_sync ticket req)
  show thesis
  proof (cases rule: group_sync_cases [of ticket req g])
    case (refused err)
    then show thesis using Ev_sync by (intro quiet) simp
  next
    case (called k)
    show thesis
    proof (cases "sq_member_id req = gi_leader_id (g_inner g)")
      case True
      show thesis
      proof (rule published [OF _ Ev_sync])
        show "publishes g e k" using called True Ev_sync by (simp add: publishes_def)
        show "quiet (publish_assignments req k g) (group_apply g e)"
          using called(1) True Ev_sync quiet_park by simp
      qed
    next
      case False
      then show thesis using called(1) Ev_sync quiet_park by (intro quiet) simp
    qed
  qed
next
  case (Ev_heartbeat now req)
  have "quiet g (upd_inner (reset_heartbeat_timer now (hr_member_id req)) g)" by (rule quiet_inner) simp_all
  then show thesis using Ev_heartbeat by (intro quiet) (simp add: group_heartbeat_def Let_def)
next
  case (Ev_leave now mids)
  have "group_apply g e = after_removal now (snd (leave_members mids g))"
    using Ev_leave by (simp add: group_leave_def Let_def split: prod.splits)
  then show thesis
    using quiet_trans [OF quiet_leave_members [of g mids] quiet_after_removal [of _ now]] by (intro quiet) simp
next
  case (Ev_session now mid)
  then show thesis
    using quiet_trans [OF quiet_remove_member [of g mid] quiet_after_removal [of _ now]]
    by (intro quiet) (simp add: session_timer_fires_def)
next
  case Ev_rebalance
  define g1 where "g1 = upd_inner (\<lambda>s. s\<lparr>gi_rebalance_handle := None\<rparr>) g"
  have q: "quiet g g1" unfolding g1_def by (rule quiet_inner) simp_all
  have "group_apply g e = rebalance_timer_fires g" using Ev_rebalance by simp
  then consider "group_apply g e = g1" | "group_apply g e = complete_rebalance (evict_non_rejoining_members g1)"
    unfolding rebalance_timer_fires_def Let_def g1_def [symmetric] by presburger
  then show thesis
    using q quiet_trans [OF q quiet_evict] by cases (simp_all add: quiet completed)
next
  case Ev_shutdown
  then show thesis using quiet_shutdown by (intro quiet) simp
qed

section \<open>Agreement\<close>

text \<open>The replies that carry a generation.\<close>

definition good_replies :: "group \<Rightarrow> join_outcome list" where
  "good_replies g = filter (\<lambda>x. jo_error_code x = NONE) (map snd (g_join_replies g))"

definition agrees :: "join_outcome list \<Rightarrow> join_outcome \<Rightarrow> bool" where
  "agrees xs x \<longleftrightarrow>
     (\<forall>y \<in> set xs. jo_generation_id y = jo_generation_id x \<longrightarrow>
        jo_leader y = jo_leader x \<and> jo_protocol_name y = jo_protocol_name x \<and>
        jo_protocol_type y = jo_protocol_type x) \<and>
     (\<exists>y \<in> set xs. jo_generation_id y = jo_generation_id x \<and> jo_member_id y = jo_leader x) \<and>
     (if jo_member_id x = jo_leader x
      then set (map jm_member_id (jo_members x)) =
        jo_member_id ` {y \<in> set xs. jo_generation_id y = jo_generation_id x}
      else jo_members x = [])"

definition group_inv :: "group \<Rightarrow> bool" where
  "group_inv g \<longleftrightarrow> int (length (g_rounds g)) \<le> i32_MAX \<longrightarrow>
     gi_generation_id (g_inner g) = int (length (g_rounds g)) \<and>
     (\<forall>k. gi_current_sync (g_inner g) = Some k \<longrightarrow> Suc k = length (g_rounds g)) \<and>
     (\<forall>x \<in> set (good_replies g). jo_generation_id x \<le> gi_generation_id (g_inner g) \<and> agrees (good_replies g) x)"

lemma quiet_good: "quiet g g' \<Longrightarrow> good_replies g' = good_replies g"
  by (fastforce simp: quiet_def good_replies_def filter_empty_conv)

lemma quiet_rounds: "quiet g g' \<Longrightarrow> length (g_rounds g') = length (g_rounds g)"
  unfolding quiet_def by (metis length_map)

lemma group_inv_quiet: "quiet g g' \<Longrightarrow> group_inv g \<Longrightarrow> group_inv g'"
  using quiet_good [of g g'] quiet_rounds [of g g'] by (auto simp: group_inv_def quiet_def)

text \<open>The replies of one completed rebalance.\<close>

definition completion_replies :: "group \<Rightarrow> join_outcome list" where
  "completion_replies g = map snd (drop (length (g_join_replies g)) (g_join_replies (complete_rebalance g)))"

lemma completion_shape:
  assumes "x \<in> set (completion_replies g)"
  shows "jo_error_code x = NONE" "jo_generation_id x = wrap32 (gi_generation_id (g_inner g) + 1)"
    "jo_leader x = gi_leader_id (g_inner (complete_rebalance g))"
    "jo_protocol_name x = gi_protocol_name (g_inner (complete_rebalance g))"
    "jo_protocol_type x = gi_protocol_type (g_inner g)"
    "jo_member_id x \<in> jw_member_id ` set (gi_join_waiters (g_inner g))"
    "jo_members x = (if jo_member_id x = jo_leader x
       then map (leader_payload (g_inner g) (jo_protocol_name x)) (gi_join_waiters (g_inner g)) else [])"
  using assms by (auto simp: completion_replies_def complete_rebalance_def Let_def)

lemma completion_members:
  "jo_member_id ` set (completion_replies g) = jw_member_id ` set (gi_join_waiters (g_inner g))"
  "gi_join_waiters (g_inner g) = w # ws \<Longrightarrow> gi_leader_id (g_inner (complete_rebalance g)) = jw_member_id w"
  by (auto simp: completion_replies_def complete_rebalance_def Let_def image_iff)

lemma completion_good: "good_replies (complete_rebalance g) = good_replies g @ completion_replies g"
proof -
  let ?old = "g_join_replies g" and ?all = "g_join_replies (complete_rebalance g)"
  have "?all = ?old @ drop (length ?old) ?all" by (simp add: complete_rebalance_def Let_def)
  then have "map snd ?all = map snd ?old @ completion_replies g"
    unfolding completion_replies_def by (metis map_append)
  moreover have "filter (\<lambda>x. jo_error_code x = NONE) (completion_replies g) = completion_replies g"
    using completion_shape(1) by (simp add: filter_id_conv)
  ultimately show ?thesis by (simp add: good_replies_def)
qed

lemma completion_agrees:
  assumes x: "x \<in> set (completion_replies g)"
    and old: "\<forall>y \<in> set ys. jo_generation_id y \<noteq> jo_generation_id x"
  shows "agrees (ys @ completion_replies g) x"
proof -
  let ?new = "completion_replies g"
  have same: "{y \<in> set (ys @ ?new). jo_generation_id y = jo_generation_id x} = set ?new"
    using old completion_shape(2) [OF x] completion_shape(2) [of _ g] by auto
  obtain w ws where ws: "gi_join_waiters (g_inner g) = w # ws"
    using completion_shape(6) [OF x] by (cases "gi_join_waiters (g_inner g)") auto
  have lead: "jo_leader x = jw_member_id w"
    using completion_shape(3) [OF x] completion_members(2) [OF ws] by simp
  have "jw_member_id w \<in> jo_member_id ` set ?new" unfolding completion_members(1) ws by simp
  then obtain y where y: "y \<in> set ?new" "jo_member_id y = jo_leader x" using lead by force
  have payload: "set (map jm_member_id (jo_members x)) = jo_member_id ` set ?new" if "jo_member_id x = jo_leader x"
    unfolding completion_members(1) using completion_shape(7) [OF x] that
    by (simp add: image_image leader_payload_def Let_def)
  have eq: "jo_leader y = jo_leader x \<and> jo_protocol_name y = jo_protocol_name x \<and>
      jo_protocol_type y = jo_protocol_type x" if "y \<in> set ?new" for y
    using completion_shape(3-5) [OF x] completion_shape(3-5) [OF that] by simp
  have all: "\<forall>y \<in> set (ys @ ?new). jo_generation_id y = jo_generation_id x \<longrightarrow> jo_leader y = jo_leader x \<and>
      jo_protocol_name y = jo_protocol_name x \<and> jo_protocol_type y = jo_protocol_type x"
    using old eq by auto
  have gen: "jo_generation_id y = jo_generation_id x"
    using completion_shape(2) [OF x] completion_shape(2) [OF y(1)] by simp
  have lead: "\<exists>y \<in> set (ys @ ?new). jo_generation_id y = jo_generation_id x \<and> jo_member_id y = jo_leader x"
    using y gen by auto
  have "jo_members x = []" if "jo_member_id x \<noteq> jo_leader x" using completion_shape(7) [OF x] that by simp
  with payload show ?thesis unfolding agrees_def same by (intro conjI all lead) simp
qed

lemma group_inv_complete:
  assumes inv: "group_inv g"
  shows "group_inv (complete_rebalance g)"
proof -
  let ?g' = "complete_rebalance g" and ?n = "length (g_rounds g)"
  have rounds: "length (g_rounds ?g') = Suc ?n" and gen: "gi_generation_id (g_inner ?g') = wrap32 (gi_generation_id (g_inner g) + 1)"
    and cur: "gi_current_sync (g_inner ?g') = Some ?n"
    by (simp_all add: complete_rebalance_def Let_def)
  show ?thesis
    unfolding group_inv_def
  proof (intro impI)
    assume "int (length (g_rounds ?g')) \<le> i32_MAX"
    then have small: "int ?n + 1 \<le> i32_MAX" "int ?n \<le> i32_MAX" using rounds by simp_all
    then have g: "gi_generation_id (g_inner g) = int ?n"
      and old: "\<forall>x \<in> set (good_replies g). jo_generation_id x \<le> int ?n \<and> agrees (good_replies g) x"
      using inv by (auto simp: group_inv_def)
    have wrap: "wrap32 (gi_generation_id (g_inner g) + 1) = int ?n + 1"
      using small g by (simp add: in_i32_def int_bounds)
    have new: "agrees (good_replies ?g') x \<and> jo_generation_id x = int ?n + 1" if "x \<in> set (completion_replies g)" for x
      unfolding completion_good
      using completion_agrees [OF that, of "good_replies g"] completion_shape(2) [OF that] wrap old by force
    have "agrees (good_replies ?g') x" if "x \<in> set (good_replies g)" for x
    proof -
      have a: "agrees (good_replies g) x" and le: "jo_generation_id x \<le> int ?n" using old that by auto
      have "{y \<in> set (good_replies ?g'). jo_generation_id y = jo_generation_id x} =
          {y \<in> set (good_replies g). jo_generation_id y = jo_generation_id x}"
        unfolding completion_good using le completion_shape(2) wrap by fastforce
      then show ?thesis using a unfolding agrees_def by (smt (verit) mem_Collect_eq)
    qed
    with new old g wrap rounds gen cur completion_good [of g]
    show "gi_generation_id (g_inner ?g') = int (length (g_rounds ?g')) \<and>
        (\<forall>k. gi_current_sync (g_inner ?g') = Some k \<longrightarrow> Suc k = length (g_rounds ?g')) \<and>
        (\<forall>x \<in> set (good_replies ?g'). jo_generation_id x \<le> gi_generation_id (g_inner ?g') \<and> agrees (good_replies ?g') x)"
      by force
  qed
qed

lemma group_inv_apply: "group_inv g \<Longrightarrow> group_inv (group_apply g e)"
proof (cases rule: group_apply_cases [of g e])
  case (published k ticket req)
  assume "group_inv g"
  moreover have "good_replies (publish_assignments req k g) = good_replies g"
    by (simp add: good_replies_def publish_frame)
  ultimately have "group_inv (publish_assignments req k g)" by (auto simp: group_inv_def publish_frame)
  with published(3) show ?thesis by (rule group_inv_quiet)
qed (auto intro: group_inv_quiet group_inv_complete)

interpretation consumer_group: step_invariant group_apply group_inv
  by unfold_locales (rule group_inv_apply)

lemma group_inv_new: "group_inv (new_group gid)"
  by (simp add: group_inv_def new_group_def good_replies_def)

lemma rounds_grow: "length (g_rounds (group_apply g e)) \<le> Suc (length (g_rounds g))"
proof (cases rule: group_apply_cases [of g e])
  case (published k ticket req)
  then show ?thesis using quiet_rounds [OF published(3)] by (simp add: publish_frame)
next
  case (completed g1)
  then show ?thesis using quiet_rounds [OF completed(1)] by (simp add: complete_rebalance_def Let_def)
qed (simp add: quiet_rounds)

lemma rounds_bound: "length (g_rounds (foldl group_apply g es)) \<le> length (g_rounds g) + length es"
proof (induction es arbitrary: g)
  case (Cons e es)
  show ?case using Cons.IH [of "group_apply g e"] rounds_grow [of g e] by simp
qed simp

lemma group_inv_run:
  assumes "int (length es) \<le> i32_MAX"
  shows "group_inv (foldl group_apply (new_group gid) es) \<and>
    int (length (g_rounds (foldl group_apply (new_group gid) es))) \<le> i32_MAX"
  using consumer_group.run_keeps [OF group_inv_new, of gid es] rounds_bound [of "new_group gid" es] assms
  by (simp add: new_group_def)

section \<open>Waiters and timers\<close>

text \<open>A client has one JoinGroup outstanding at a time.\<close>

definition member_of :: "int \<Rightarrow> join_request \<Rightarrow> string" where
  "member_of n req = (if jr_member_id req = [] then generate_member_id (jr_client_id req) n else jr_member_id req)"

fun one_join_at_a_time :: "group \<Rightarrow> group_event \<Rightarrow> bool" where
  "one_join_at_a_time g (Ev_join now n ticket req) =
     (member_of n req \<notin> jw_member_id ` set (gi_join_waiters (g_inner g)))"
| "one_join_at_a_time g _ = True"

inductive group_reachable :: "group \<Rightarrow> bool" where
  group_start: "group_reachable (new_group gid)"
| group_next: "group_reachable g \<Longrightarrow> one_join_at_a_time g e \<Longrightarrow> group_reachable (group_apply g e)"

definition all_armed :: "(string, group_member) hash_map \<Rightarrow> bool" where
  "all_armed ms \<longleftrightarrow> (\<forall>mid m. hm_get ms mid = Some m \<longrightarrow> gm_heartbeat_handle m \<noteq> None)"

lemma all_armed_simps [simp]:
  "all_armed []" "all_armed ms \<Longrightarrow> gm_heartbeat_handle m \<noteq> None \<Longrightarrow> all_armed (hm_insert k m ms)"
  "all_armed ms \<Longrightarrow> all_armed (hm_remove k ms)"
  by (simp_all add: all_armed_def)

definition waiters_ok :: "group \<Rightarrow> bool" where
  "waiters_ok g \<longleftrightarrow>
     (let s = g_inner g; ids = map jw_member_id (gi_join_waiters s) in
      hm_wf (gi_members s) \<and> distinct ids \<and> set ids \<subseteq> dom (hm_get (gi_members s)) \<and>
      (ids \<noteq> [] \<longrightarrow> gi_state s = PreparingRebalance) \<and>
      all_armed (gi_members s))"

lemma waiters_ok_cong:
  assumes "gi_members (g_inner g') = gi_members (g_inner g)"
    and "gi_join_waiters (g_inner g') = gi_join_waiters (g_inner g)"
    and "gi_state (g_inner g') = gi_state (g_inner g) \<or> gi_join_waiters (g_inner g) = [] \<or>
      gi_state (g_inner g') = PreparingRebalance"
  shows "waiters_ok g \<Longrightarrow> waiters_ok g'"
  using assms by (auto simp: waiters_ok_def Let_def)

lemma drain_waiter_ids:
  assumes "distinct (map jw_member_id ws)"
  shows "map jw_member_id (fst (drain_waiter mid ws)) = remove1 mid (map jw_member_id ws)"
    "jw_member_id w = mid \<Longrightarrow> w \<in> set ws \<Longrightarrow> (jw_tx w, unknown_member mid) \<in> set (snd (drain_waiter mid ws))"
  using assms by (induction ws) (auto split: prod.splits simp: rev_image_eqI)

lemma waiters_ok_remove: "waiters_ok g \<Longrightarrow> waiters_ok (remove_member mid g)"
proof -
  assume ok: "waiters_ok g"
  let ?ws = "gi_join_waiters (g_inner g)"
  have d: "distinct (map jw_member_id ?ws)" using ok by (simp add: waiters_ok_def Let_def)
  have g': "gi_members (g_inner (remove_member mid g)) = hm_remove mid (gi_members (g_inner g))"
    "gi_join_waiters (g_inner (remove_member mid g)) = fst (drain_waiter mid ?ws)"
    "gi_state (g_inner (remove_member mid g)) = gi_state (g_inner g)"
    by (simp_all add: remove_member_def Let_def split: prod.splits)
  have "set (remove1 mid (map jw_member_id ?ws)) = set (map jw_member_id ?ws) - {mid}"
    using d by (rule set_remove1_eq)
  then show ?thesis
    using ok drain_waiter_ids(1) [OF d, of mid]
    by (auto simp: waiters_ok_def Let_def g' distinct_remove1 simp del: set_map map_is_Nil_conv
        split: if_splits)
qed

lemma waiters_ok_fold_remove: "waiters_ok g \<Longrightarrow> waiters_ok (fold remove_member mids g)"
  by (induction mids arbitrary: g) (auto intro: waiters_ok_remove)

lemma waiters_ok_evict: "waiters_ok g \<Longrightarrow> waiters_ok (evict_non_rejoining_members g)"
  by (simp add: evict_non_rejoining_members_def Let_def waiters_ok_fold_remove)

lemma waiters_ok_complete: "waiters_ok g \<Longrightarrow> waiters_ok (complete_rebalance g)"
  by (simp add: waiters_ok_def complete_rebalance_def Let_def)

lemma waiters_ok_after_removal: "waiters_ok g \<Longrightarrow> waiters_ok (after_removal now g)"
  by (auto simp: after_removal_def Let_def waiters_ok_def upd_inner_def)

lemma waiters_ok_leave: "waiters_ok g \<Longrightarrow> waiters_ok (snd (leave_members mids g))"
proof (induction mids g rule: leave_members.induct)
  case (2 mid mids g)
  then show ?case using waiters_ok_remove [of g mid] by (auto split: prod.splits)
qed simp

lemma remove_member_frame:
  "gi_members (g_inner (remove_member mid g)) = hm_remove mid (gi_members (g_inner g))"
  "gi_current_sync (g_inner (remove_member mid g)) = gi_current_sync (g_inner g)"
  "gi_state (g_inner (remove_member mid g)) = gi_state (g_inner g)"
  by (simp_all add: remove_member_def Let_def split: prod.splits)

lemma fold_remove_members:
  "hm_get (gi_members (g_inner (fold remove_member mids g))) =
     hm_get (gi_members (g_inner g)) |` (- set mids)"
proof (induction mids arbitrary: g)
  case (Cons m mids)
  then show ?case
    by (simp add: remove_member_frame restrict_map_def fun_eq_iff)
qed (simp add: restrict_map_def)

lemma waiters_ok_empty_members:
  "waiters_ok g \<Longrightarrow> hm_get (gi_members (g_inner g)) = Map.empty \<Longrightarrow> gi_join_waiters (g_inner g) = []"
  by (auto simp: waiters_ok_def Let_def)

lemma cancel_sync_frame [simp]: "g_inner (cancel_sync k g) = g_inner g" "g_join_replies (cancel_sync k g) = g_join_replies g"
  by (simp_all add: cancel_sync_def Let_def)

lemma waiters_ok_shutdown: "waiters_ok g \<Longrightarrow> waiters_ok (group_shutdown g)"
proof -
  assume ok: "waiters_ok g"
  let ?g1 = "fold remove_member (map fst (gi_members (g_inner g))) g"
  have "hm_get (gi_members (g_inner ?g1)) = Map.empty"
    by (auto simp: fold_remove_members restrict_map_def fun_eq_iff map_of_eq_None_iff)
  then have "gi_join_waiters (g_inner ?g1) = []"
    by (rule waiters_ok_empty_members [OF waiters_ok_fold_remove [OF ok]])
  then show ?thesis
    by (simp add: group_shutdown_def Let_def waiters_ok_def upd_inner_def split: option.splits)
qed

lemma upsert_members:
  "gi_members (upsert_member mid req s) = hm_insert mid (the (hm_get (gi_members (upsert_member mid req s)) mid)) (gi_members s)"
  by (simp add: upsert_member_def Let_def)

lemma armed_members:
  "\<exists>m. gi_members (reset_heartbeat_timer now mid (upsert_member mid req s)) = hm_insert mid m (gi_members s) \<and>
     gm_heartbeat_handle m \<noteq> None"
proof -
  obtain m where m: "gi_members (upsert_member mid req s) = hm_insert mid m (gi_members s)"
    using upsert_members by blast
  then have "hm_get (gi_members (upsert_member mid req s)) mid = Some m" by simp
  then have "gi_members (reset_heartbeat_timer now mid (upsert_member mid req s)) =
      hm_insert mid (m\<lparr>gm_heartbeat_handle := Some (now +
        (if gm_session_timeout_ms m \<le> 0 then DEFAULT_SESSION_TIMEOUT_MS else gm_session_timeout_ms m))\<rparr>)
        (gi_members s)"
    by (simp add: reset_heartbeat_timer_def Let_def m)
  then show ?thesis by fastforce
qed

lemma join_transition_frame:
  "gi_members (g_inner (join_transition now is_new g)) = gi_members (g_inner g)"
  "gi_join_waiters (g_inner (join_transition now is_new g)) = gi_join_waiters (g_inner g)"
  "gi_state (g_inner g) \<noteq> Dead \<Longrightarrow> gi_state (g_inner (join_transition now is_new g)) = PreparingRebalance"
  by (auto simp: join_transition_def Let_def upd_inner_def split: group_state.splits option.splits)

lemma waiters_ok_join:
  assumes ok: "waiters_ok g" and one: "member_of n req \<notin> jw_member_id ` set (gi_join_waiters (g_inner g))"
  shows "waiters_ok (snd (group_join now n ticket req g))"
proof -
  define mid where "mid = member_of n req"
  define g1 where "g1 = upd_inner (\<lambda>s. reset_heartbeat_timer now mid (upsert_member mid req s)) g"
  define g2 where "g2 = join_transition now (hm_get (gi_members (g_inner g)) mid = None) g1"
  define g3 where "g3 = upd_inner (\<lambda>s. s\<lparr>gi_join_waiters := gi_join_waiters s @
    [\<lparr>jw_member_id = mid, jw_tx = ticket\<rparr>]\<rparr>) g2"
  obtain m where m: "gi_members (g_inner g1) = hm_insert mid m (gi_members (g_inner g))" "gm_heartbeat_handle m \<noteq> None"
    using armed_members [of now mid req "g_inner g"] by (auto simp: g1_def upd_inner_def)
  have s1: "gi_state (g_inner g1) = gi_state (g_inner g)" "gi_join_waiters (g_inner g1) = gi_join_waiters (g_inner g)"
    by (simp_all add: g1_def upd_inner_def)
  have ok1: "waiters_ok g1" using ok m s1 by (auto simp: waiters_ok_def Let_def split: if_splits)
  have join: "snd (group_join now n ticket req g) =
      (if gi_state (g_inner g) = Dead then g1 else maybe_complete_rebalance g3)"
    by (simp add: group_join_def Let_def member_of_def [symmetric] mid_def [symmetric] g1_def [symmetric]
        g2_def [symmetric] g3_def [symmetric])
  have ok3: "waiters_ok g3" if alive: "gi_state (g_inner g) \<noteq> Dead"
  proof -
    have "gi_members (g_inner g3) = gi_members (g_inner g1)"
      "gi_join_waiters (g_inner g3) = gi_join_waiters (g_inner g) @ [\<lparr>jw_member_id = mid, jw_tx = ticket\<rparr>]"
      "gi_state (g_inner g3) = PreparingRebalance"
      using alive s1 by (simp_all add: g3_def g2_def upd_inner_def join_transition_frame)
    then show ?thesis using ok1 m one s1 by (auto simp: waiters_ok_def Let_def mid_def)
  qed
  then show ?thesis
    unfolding join maybe_complete_rebalance_def Let_def using ok1 by (simp add: waiters_ok_complete)
qed

lemma waiters_ok_reset:
  "waiters_ok g \<Longrightarrow> waiters_ok (upd_inner (reset_heartbeat_timer now mid) g)"
  by (cases "hm_get (gi_members (g_inner g)) mid")
    (auto simp: waiters_ok_def Let_def upd_inner_def reset_heartbeat_timer_def simp del: map_of_eq_Some_iff)

lemma waiters_ok_sync: "waiters_ok g \<Longrightarrow> waiters_ok (snd (group_sync ticket req g))"
proof (cases rule: group_sync_cases [of ticket req g])
  case (called k)
  assume ok: "waiters_ok g"
  let ?g' = "snd (group_sync ticket req g)"
  have "gi_members (g_inner ?g') = gi_members (g_inner g)" "gi_join_waiters (g_inner ?g') = gi_join_waiters (g_inner g)"
    unfolding called(1) by (simp_all add: park_sync_def publish_assignments_def upd_inner_def Let_def)
  moreover have "gi_join_waiters (g_inner g) = []" using ok called(5) by (auto simp: waiters_ok_def Let_def)
  ultimately show ?thesis using ok by (intro waiters_ok_cong [of ?g' g]) simp_all
qed simp

lemma waiters_ok_rebalance: "waiters_ok g \<Longrightarrow> waiters_ok (rebalance_timer_fires g)"
proof -
  assume "waiters_ok g"
  then have "waiters_ok (upd_inner (\<lambda>s. s\<lparr>gi_rebalance_handle := None\<rparr>) g)"
    by (simp add: waiters_ok_def upd_inner_def Let_def)
  then show ?thesis
    unfolding rebalance_timer_fires_def Let_def
    by (simp only: waiters_ok_complete waiters_ok_evict split: if_splits) simp
qed

lemma waiters_ok_apply:
  assumes ok: "waiters_ok g" and one: "one_join_at_a_time g e"
  shows "waiters_ok (group_apply g e)"
proof (cases e)
  case (Ev_join now n ticket req)
  have "waiters_ok (snd (group_join now n ticket req g))"
    by (rule waiters_ok_join [OF ok]) (use one Ev_join in simp)
  with Ev_join show ?thesis by simp
next
  case (Ev_sync ticket req)
  with waiters_ok_sync [OF ok] show ?thesis by simp
next
  case (Ev_heartbeat now req)
  with waiters_ok_reset [OF ok] ok show ?thesis by (simp add: group_heartbeat_def Let_def)
next
  case (Ev_leave now mids)
  then have "group_apply g e = after_removal now (snd (leave_members mids g))"
    by (simp add: group_leave_def Let_def split: prod.splits)
  with waiters_ok_after_removal [OF waiters_ok_leave [OF ok]] show ?thesis by simp
next
  case (Ev_session now mid)
  with waiters_ok_after_removal [OF waiters_ok_remove [OF ok]] ok show ?thesis
    by (simp add: session_timer_fires_def)
next
  case Ev_rebalance
  with waiters_ok_rebalance [OF ok] show ?thesis by simp
next
  case Ev_shutdown
  with waiters_ok_shutdown [OF ok] show ?thesis by simp
qed

lemma group_reachable_waiters: "group_reachable g \<Longrightarrow> waiters_ok g"
proof (induction rule: group_reachable.induct)
  case (group_start gid)
  show ?case by (simp add: waiters_ok_def new_group_def)
next
  case (group_next g e)
  then show ?case by (intro waiters_ok_apply)
qed

lemma after_removal_replies: "g_join_replies (after_removal now g) = g_join_replies g"
  by (simp add: after_removal_def Let_def upd_inner_def)

lemma drain_other: "mid \<notin> jw_member_id ` set ws \<Longrightarrow> drain_waiter mid ws = (ws, [])"
  by (induction ws) auto

lemma fold_remove_others:
  "set mids \<inter> jw_member_id ` set (gi_join_waiters (g_inner g)) = {} \<Longrightarrow>
   gi_join_waiters (g_inner (fold remove_member mids g)) = gi_join_waiters (g_inner g)"
proof (induction mids arbitrary: g)
  case (Cons m mids)
  have "gi_join_waiters (g_inner (remove_member m g)) = gi_join_waiters (g_inner g)"
    using Cons.prems by (simp add: remove_member_def drain_other Let_def)
  with Cons.IH [of "remove_member m g"] Cons.prems show ?case by simp
qed simp

lemma evict_waiters: "gi_join_waiters (g_inner (evict_non_rejoining_members g)) = gi_join_waiters (g_inner g)"
  by (auto simp: evict_non_rejoining_members_def Let_def intro!: fold_remove_others)

lemma completion_answers:
  assumes "w \<in> set (gi_join_waiters (g_inner g))"
  shows "\<exists>x. (jw_tx w, x) \<in> set (g_join_replies (complete_rebalance g)) \<and> jo_error_code x = NONE \<and>
    jo_generation_id x = wrap32 (gi_generation_id (g_inner g) + 1)"
  using assms by (force simp: complete_rebalance_def Let_def)

section \<open>Properties\<close>

text \<open>C19: members agree on a generation. Along every run of requests and timers (at most 2 \<open>^\<close> 31 - 1
  of them, the range of the generation counter) any two successful JoinGroup replies of one generation
  name the same leader and the same protocol, that leader was itself answered in that generation, and
  it alone is given a member list, which lists exactly the members answered in that generation.\<close>

theorem group_members_agree:
  assumes "int (length es) \<le> i32_MAX"
    and "x \<in> set (good_replies (foldl group_apply (new_group gid) es))"
  shows "agrees (good_replies (foldl group_apply (new_group gid) es)) x"
  using group_inv_run [OF assms(1), of gid] assms(2) by (auto simp: group_inv_def)

text \<open>C20: only the leader of a generation assigns. After any such run, whatever event comes next, the
  assignments of the sync round of generation \<open>k + 1\<close> change only when a SyncGroup of that very
  generation arrives from its leader while it is the current generation: a zombie leader of an older
  generation, a follower and every other request leave the assignments of all rounds as they are.\<close>

theorem only_leader_assigns:
  assumes "int (length es) \<le> i32_MAX" "g = foldl group_apply (new_group gid) es"
    and "k < length (g_rounds g)"
    and "sr_assignments (g_rounds (group_apply g e) ! k) \<noteq> sr_assignments (g_rounds g ! k)"
  shows "\<exists>ticket req. e = Ev_sync ticket req \<and> sq_member_id req = gi_leader_id (g_inner g) \<and>
    sq_generation_id req = int k + 1 \<and> gi_generation_id (g_inner g) = int k + 1"
proof -
  have same: "sr_assignments (g_rounds g2 ! k) = sr_assignments (g_rounds g1 ! k)"
    if "quiet g1 g2" "k < length (g_rounds g1)" for g1 g2
    using that quiet_rounds [OF that(1)] unfolding quiet_def by (metis nth_map)
  have inv: "group_inv g" "int (length (g_rounds g)) \<le> i32_MAX" using group_inv_run [OF assms(1)] assms(2) by auto
  show ?thesis
  proof (cases rule: group_apply_cases [of g e])
    case quiet
    with same assms(3,4) show ?thesis by blast
  next
    case (completed g1)
    have "g_rounds (complete_rebalance g1) = g_rounds g1 @ [default_round]"
      by (simp add: complete_rebalance_def Let_def)
    then have "sr_assignments (g_rounds (group_apply g e) ! k) = sr_assignments (g_rounds g1 ! k)"
      using completed quiet_rounds [OF completed(1)] assms(3) by (simp add: nth_append)
    with same [OF completed(1) assms(3)] assms(4) show ?thesis by simp
  next
    case (published j ticket req)
    have "k = j"
      using same [OF published(3)] publish_frame(5) [of req j g] publish_frame(6) [of k j req g] assms(3,4) by metis
    moreover have "Suc j = length (g_rounds g)" "gi_generation_id (g_inner g) = int (length (g_rounds g))"
      using published(1) inv by (auto simp: group_inv_def publishes_def)
    ultimately show ?thesis using published(1,2) by (auto simp: publishes_def)
  qed
qed


section \<open>What modelling showed\<close>

definition demo_join :: "string \<Rightarrow> join_request" where
  "demo_join mid = \<lparr>jr_member_id = mid, jr_group_instance_id = None, jr_session_timeout_ms = 10000,
     jr_rebalance_timeout_ms = 60000, jr_protocol_type = ''consumer'',
     jr_protocols = [\<lparr>pm_name = ''range'', pm_metadata = [1]\<rparr>], jr_client_id = ''c'', jr_client_host = ''h''\<rparr>"

definition demo_sync :: "string \<Rightarrow> (string \<times> bytes) list \<Rightarrow> sync_request" where
  "demo_sync mid as = \<lparr>sq_member_id = mid, sq_generation_id = 1, sq_assignments = as\<rparr>"

text \<open>Two members through their first rebalance.\<close>

definition demo_round :: "group_event list" where
  "demo_round = [Ev_join 0 0 1 (demo_join ''a''), Ev_join 0 0 2 (demo_join ''b''), Ev_rebalance]"

text \<open>A JoinGroup that reaches a group after its shutdown registers the member and arms its timer
  before the state is looked at; when the timer fires the dead group is \<open>Empty\<close> again.\<close>

lemma dead_group_revives:
  "gi_state (g_inner (foldl group_apply (new_group ''g'') [Ev_shutdown])) = Dead \<and>
   gi_state (g_inner (foldl group_apply (new_group ''g'')
     [Ev_shutdown, Ev_join 0 0 1 (demo_join ''a''), Ev_session 10000 ''a''])) = Empty"
  by code_simp

text \<open>A follower parked in SyncGroup is forgotten when every member expires before the leader
  synced: the round is neither delivered nor cancelled, and the next generation replaces it.\<close>

lemma parked_sync_forgotten:
  "let g = foldl group_apply (new_group ''g'') (demo_round @
     [Ev_sync 10 (demo_sync ''b'' []), Ev_session 10000 ''a'', Ev_session 10000 ''b'',
      Ev_join 20000 0 3 (demo_join ''c'')])
   in gi_current_sync (g_inner g) = Some 1 \<and> sr_waiters (g_rounds g ! 0) = [10] \<and>
      \<not> sr_canceled (g_rounds g ! 0) \<and> g_sync_wakeups g = []"
  by code_simp

text \<open>A leader that repeats its SyncGroup in the stable state overwrites assignments that followers
  have already been answered with.\<close>

lemma leader_retry_overwrites:
  "let g = foldl group_apply (new_group ''g'') (demo_round @
     [Ev_sync 10 (demo_sync ''b'' []), Ev_sync 11 (demo_sync ''a'' [(''b'', [7])])]);
       g' = group_apply g (Ev_sync 12 (demo_sync ''a'' [(''b'', [8])]))
   in 10 \<in> set (g_sync_wakeups g) \<and> hm_get (sr_assignments (g_rounds g ! 0)) ''b'' = Some [7] \<and>
      hm_get (sr_assignments (g_rounds g' ! 0)) ''b'' = Some [8]"
  by code_simp

text \<open>A repeated JoinGroup of one member counts for another that has not rejoined, and the rebalance
  completes without it.\<close>

lemma duplicate_join_completes_early:
  "let g = foldl group_apply (new_group ''g'') (demo_round @
     [Ev_sync 11 (demo_sync ''a'' []), Ev_join 1 0 3 (demo_join ''a''), Ev_join 2 0 4 (demo_join ''a'')])
   in gi_generation_id (g_inner g) = 2 \<and> map fst (gi_members (g_inner g)) = [''a'', ''b''] \<and>
      map jo_member_id (filter (\<lambda>x. jo_generation_id x = 2) (good_replies g)) = [''a'', ''a'']"
  by code_simp

text \<open>Only the first of a member's waiters goes with it: the other may become the leader of a
  generation the member is not part of, and no one can then publish assignments.\<close>

lemma departed_member_leads:
  "let g = foldl group_apply (new_group ''g'')
     [Ev_join 0 0 1 (demo_join ''a''), Ev_join 0 0 2 (demo_join ''a''), Ev_session 10000 ''a'',
      Ev_join 10001 0 3 (demo_join ''b''), Ev_rebalance]
   in gi_leader_id (g_inner g) = ''a'' \<and> map fst (gi_members (g_inner g)) = [''b'']"
  by code_simp

section \<open>Witnesses\<close>

theorem group_members_agree_witness:
  "agrees (good_replies (foldl group_apply (new_group ''g'') demo_round))
     (hd (good_replies (foldl group_apply (new_group ''g'') demo_round)))"
proof -
  have "good_replies (foldl group_apply (new_group ''g'') demo_round) \<noteq> []" by code_simp
  then show ?thesis
    using group_members_agree [of demo_round "hd (good_replies (foldl group_apply (new_group ''g'') demo_round))" "''g''"]
    by (simp add: demo_round_def int_bounds)
qed

theorem only_leader_assigns_witness:
  "\<exists>ticket req. Ev_sync 11 (demo_sync ''a'' [(''b'', [7])]) = Ev_sync ticket req \<and>
     sq_member_id req = gi_leader_id (g_inner (foldl group_apply (new_group ''g'') demo_round)) \<and>
     sq_generation_id req = int 0 + 1 \<and>
     gi_generation_id (g_inner (foldl group_apply (new_group ''g'') demo_round)) = int 0 + 1"
proof (rule only_leader_assigns [of demo_round])
  show "int (length demo_round) \<le> i32_MAX" by (simp add: demo_round_def int_bounds)
  show "0 < length (g_rounds (foldl group_apply (new_group ''g'') demo_round))" by code_simp
  show "sr_assignments (g_rounds (group_apply (foldl group_apply (new_group ''g'') demo_round)
      (Ev_sync 11 (demo_sync ''a'' [(''b'', [7])]))) ! 0) \<noteq>
    sr_assignments (g_rounds (foldl group_apply (new_group ''g'') demo_round) ! 0)" by code_simp
qed (rule refl)


end
