(* ===== verification/TxnState.thy ===== *)
theory TxnState
  imports Prelude
begin

text \<open>
  The transaction coordinator's durable state (\<open>crates/kaas-coordinator/src/txn_state.rs\<close>): one
  JSON file per slot on the shared volume, each a map from transactional ids to entries; an id
  lives in the slot its FNV-1a hash selects. Every operation of \<open>TxnStateStore\<close> is a function from
  the store to a result and the new store, under an environment that says which slot files cannot
  be read or written. The offset hook is an output: the list of calls \<open>complete_end_txn\<close> makes.

  The second half relates the operations to the life cycle of a transaction: \<open>entry_step\<close> is the
  transition relation of one entry, the store's operations refine it, and what holds of every
  sequence of operations (a prepared decision is irrevocable, an old epoch stays fenced) follows
  by rule induction over it.
\<close>

section \<open>Data\<close>

datatype txn_state = TxnEmpty | Ongoing | PrepareCommit | PrepareAbort | CompleteCommit | CompleteAbort

record txn_topic =
  tt_topic :: string
  tt_partitions :: "int list"

record txn_entry =
  te_pid :: int
  te_epoch :: int
  te_partitions :: "txn_topic list"
  te_ongoing_since_ms :: int
  te_transaction_timeout_ms :: int
  te_state :: txn_state
  te_groups :: "string list"

record pending_marker_dispatch =
  pm_txn_id :: string
  pm_pid :: int
  pm_epoch :: int
  pm_commit :: bool
  pm_partitions :: "txn_topic list"

record txn_abort_record =
  ta_txn_id :: string
  ta_pid :: int
  ta_old_epoch :: int
  ta_new_epoch :: int
  ta_groups :: "string list"

record end_txn_outcome =
  eo_partitions :: "txn_topic list"
  eo_groups :: "string list"
  eo_transition_fired :: bool

datatype txn_state_error =
    EmptyTxnId | UnknownProducer | EpochFenced | Concurrent | InvalidState | Txn_io | Txn_decode

text \<open>A slot file on the volume: missing, of zero length, not JSON, or a map.\<close>

datatype slot_file = No_file | Empty_file | Bad_json | Slot "(string, txn_entry) hash_map"

record txn_store =
  ts_num_slots :: nat
  ts_slots :: "nat \<Rightarrow> slot_file"
  ts_hook :: bool

record slot_io =
  si_read_fails :: "nat \<Rightarrow> bool"
  si_write_fails :: "nat \<Rightarrow> bool"

definition healthy_slots :: slot_io where
  "healthy_slots = \<lparr>si_read_fails = (\<lambda>_. False), si_write_fails = (\<lambda>_. False)\<rparr>"

type_synonym hook_call = "string \<times> int \<times> bool"

section \<open>Slots\<close>

definition DEFAULT_NUM_SLOTS :: nat where "DEFAULT_NUM_SLOTS = 50"

definition txn_store_open :: "(nat \<Rightarrow> slot_file) \<Rightarrow> nat \<Rightarrow> txn_store" where
  "txn_store_open files num_slots =
     \<lparr>ts_num_slots = (if num_slots = 0 then DEFAULT_NUM_SLOTS else num_slots),
      ts_slots = files, ts_hook = False\<rparr>"

definition set_offset_hook :: "txn_store \<Rightarrow> txn_store" where
  "set_offset_hook st = st\<lparr>ts_hook := True\<rparr>"

definition fnv1a_32 :: "string \<Rightarrow> 32 word" where
  "fnv1a_32 bs = foldl (\<lambda>h b. xor h (of_char b) * 0x01000193) 0x811c9dc5 bs"

definition slot_for :: "txn_store \<Rightarrow> string \<Rightarrow> nat" where
  "slot_for st txn_id = nat (uint (fnv1a_32 txn_id) mod int (ts_num_slots st))"

definition load_slot ::
  "slot_io \<Rightarrow> txn_store \<Rightarrow> nat \<Rightarrow> txn_state_error + (string, txn_entry) hash_map" where
  "load_slot io st slot =
     (if si_read_fails io slot then Inl Txn_io
      else case ts_slots st slot of
        No_file \<Rightarrow> Inr [] | Empty_file \<Rightarrow> Inr [] | Bad_json \<Rightarrow> Inl Txn_decode | Slot m \<Rightarrow> Inr m)"

definition persist_slot ::
  "slot_io \<Rightarrow> txn_store \<Rightarrow> nat \<Rightarrow> (string, txn_entry) hash_map \<Rightarrow> (txn_state_error + unit) \<times> txn_store" where
  "persist_slot io st slot m =
     (if si_write_fails io slot then (Inl Txn_io, st)
      else (Inr (), st\<lparr>ts_slots := (ts_slots st)(slot := Slot m)\<rparr>))"

section \<open>Operations\<close>

definition get_or_allocate_with_timeout ::
  "slot_io \<Rightarrow> txn_store \<Rightarrow> string \<Rightarrow> int \<Rightarrow> ('c \<Rightarrow> int \<times> 'c) \<Rightarrow> 'c \<Rightarrow>
   (txn_state_error + int \<times> int) \<times> txn_store \<times> 'c" where
  "get_or_allocate_with_timeout io st txn_id timeout_ms alloc c =
     (if txn_id = [] then (Inl EmptyTxnId, st, c)
      else let slot = slot_for st txn_id in
        case load_slot io st slot of
          Inl e \<Rightarrow> (Inl e, st, c)
        | Inr m \<Rightarrow>
            let (entry, c') =
              (case hm_get m txn_id of
                 None \<Rightarrow>
                   let (pid, c') = alloc c in
                   (\<lparr>te_pid = pid, te_epoch = 0, te_partitions = [], te_ongoing_since_ms = 0,
                     te_transaction_timeout_ms = 0, te_state = TxnEmpty, te_groups = []\<rparr>, c')
               | Some existing \<Rightarrow>
                   if te_epoch existing = i16_MAX then
                     let (pid, c') = alloc c in
                     (\<lparr>te_pid = pid, te_epoch = 0, te_partitions = [], te_ongoing_since_ms = 0,
                       te_transaction_timeout_ms = te_transaction_timeout_ms existing,
                       te_state = TxnEmpty, te_groups = []\<rparr>, c')
                   else (existing\<lparr>te_epoch := te_epoch existing + 1\<rparr>, c));
                entry = (if timeout_ms > 0 then entry\<lparr>te_transaction_timeout_ms := timeout_ms\<rparr> else entry)
            in case persist_slot io st slot (hm_insert txn_id entry m) of
                 (Inl e, st') \<Rightarrow> (Inl e, st', c')
               | (Inr _, st') \<Rightarrow> (Inr (te_pid entry, te_epoch entry), st', c'))"

definition get_or_allocate ::
  "slot_io \<Rightarrow> txn_store \<Rightarrow> string \<Rightarrow> ('c \<Rightarrow> int \<times> 'c) \<Rightarrow> 'c \<Rightarrow>
   (txn_state_error + int \<times> int) \<times> txn_store \<times> 'c" where
  "get_or_allocate io st txn_id alloc c = get_or_allocate_with_timeout io st txn_id 0 alloc c"

text \<open>The validation prefix every operation on an existing transaction shares: load the slot, find
  the entry, compare producer id and epoch.\<close>

definition checked_entry ::
  "slot_io \<Rightarrow> txn_store \<Rightarrow> string \<Rightarrow> int \<Rightarrow> int \<Rightarrow>
   txn_state_error + (string, txn_entry) hash_map \<times> txn_entry" where
  "checked_entry io st txn_id pid epoch =
     (case load_slot io st (slot_for st txn_id) of
        Inl e \<Rightarrow> Inl e
      | Inr m \<Rightarrow>
          (case hm_get m txn_id of
             None \<Rightarrow> Inl UnknownProducer
           | Some entry \<Rightarrow>
               if te_pid entry \<noteq> pid then Inl UnknownProducer
               else if te_epoch entry \<noteq> epoch then Inl EpochFenced
               else Inr (m, entry)))"

text \<open>\<open>merge_partitions\<close>: the union in place, and whether anything was added. The first topic entry
  of a name receives the partitions, a name not yet present is pushed at the end.\<close>

definition push_new :: "int list \<Rightarrow> int list \<Rightarrow> int list" where
  "push_new ps adds = foldl (\<lambda>ps p. if p \<in> set ps then ps else ps @ [p]) ps adds"

fun merge_topic :: "txn_topic list \<Rightarrow> txn_topic \<Rightarrow> txn_topic list \<times> bool" where
  "merge_topic [] add = ([\<lparr>tt_topic = tt_topic add, tt_partitions = tt_partitions add\<rparr>], True)"
| "merge_topic (t # ts) add =
     (if tt_topic t = tt_topic add
      then (t\<lparr>tt_partitions := push_new (tt_partitions t) (tt_partitions add)\<rparr> # ts,
            \<exists>p \<in> set (tt_partitions add). p \<notin> set (tt_partitions t))
      else let (ts', changed) = merge_topic ts add in (t # ts', changed))"

definition merge_partitions :: "txn_topic list \<Rightarrow> txn_topic list \<Rightarrow> txn_topic list \<times> bool" where
  "merge_partitions parts additions =
     foldl (\<lambda>(ps, changed) add. let (ps', c) = merge_topic ps add in (ps', changed \<or> c))
       (parts, False) additions"

definition add_partitions ::
  "slot_io \<Rightarrow> txn_store \<Rightarrow> string \<Rightarrow> int \<Rightarrow> int \<Rightarrow> txn_topic list \<Rightarrow> int \<Rightarrow>
   (txn_state_error + unit) \<times> txn_store" where
  "add_partitions io st txn_id pid epoch additions now_ms =
     (if txn_id = [] then (Inl EmptyTxnId, st)
      else case checked_entry io st txn_id pid epoch of
        Inl e \<Rightarrow> (Inl e, st)
      | Inr (m, entry) \<Rightarrow>
          if te_state entry \<in> {PrepareCommit, PrepareAbort} then (Inl Concurrent, st)
          else
            let (parts, merged) = merge_partitions (te_partitions entry) additions;
                entry1 = entry\<lparr>te_partitions := parts\<rparr>;
                was_not_ongoing = te_state entry \<noteq> Ongoing;
                entry2 = (if was_not_ongoing
                          then entry1\<lparr>te_state := Ongoing, te_ongoing_since_ms := now_ms\<rparr> else entry1)
            in if \<not> merged \<and> \<not> was_not_ongoing then (Inr (), st)
               else persist_slot io st (slot_for st txn_id) (hm_insert txn_id entry2 m))"

definition add_offsets_to_txn ::
  "slot_io \<Rightarrow> txn_store \<Rightarrow> string \<Rightarrow> int \<Rightarrow> int \<Rightarrow> string \<Rightarrow> int \<Rightarrow>
   (txn_state_error + unit) \<times> txn_store" where
  "add_offsets_to_txn io st txn_id pid epoch group_id now_ms =
     (if txn_id = [] then (Inl EmptyTxnId, st)
      else if group_id = [] then (Inl InvalidState, st)
      else case checked_entry io st txn_id pid epoch of
        Inl e \<Rightarrow> (Inl e, st)
      | Inr (m, entry) \<Rightarrow>
          if te_state entry \<in> {PrepareCommit, PrepareAbort} then (Inl Concurrent, st)
          else
            let already_recorded = group_id \<in> set (te_groups entry);
                needs_state_advance = te_state entry \<noteq> Ongoing
            in if already_recorded \<and> \<not> needs_state_advance then (Inr (), st)
               else
                 let entry1 = (if already_recorded then entry
                               else entry\<lparr>te_groups := te_groups entry @ [group_id]\<rparr>);
                     entry2 = (if needs_state_advance
                               then entry1\<lparr>te_state := Ongoing, te_ongoing_since_ms := now_ms\<rparr> else entry1)
                 in persist_slot io st (slot_for st txn_id) (hm_insert txn_id entry2 m))"

definition prepare_state :: "bool \<Rightarrow> txn_state" where
  "prepare_state commit = (if commit then PrepareCommit else PrepareAbort)"

definition complete_state :: "bool \<Rightarrow> txn_state" where
  "complete_state commit = (if commit then CompleteCommit else CompleteAbort)"

definition default_outcome :: end_txn_outcome where
  "default_outcome = \<lparr>eo_partitions = [], eo_groups = [], eo_transition_fired = False\<rparr>"

definition prepare_end_txn ::
  "slot_io \<Rightarrow> txn_store \<Rightarrow> string \<Rightarrow> int \<Rightarrow> int \<Rightarrow> bool \<Rightarrow>
   (txn_state_error + end_txn_outcome) \<times> txn_store" where
  "prepare_end_txn io st txn_id pid epoch commit =
     (if txn_id = [] then (Inl EmptyTxnId, st)
      else case checked_entry io st txn_id pid epoch of
        Inl e \<Rightarrow> (Inl e, st)
      | Inr (m, entry) \<Rightarrow>
          let outcome = \<lparr>eo_partitions = te_partitions entry, eo_groups = te_groups entry,
                         eo_transition_fired = True\<rparr> in
          (case te_state entry of
             Ongoing \<Rightarrow>
               (case persist_slot io st (slot_for st txn_id)
                       (hm_insert txn_id (entry\<lparr>te_state := prepare_state commit\<rparr>) m) of
                  (Inl e, st') \<Rightarrow> (Inl e, st')
                | (Inr _, st') \<Rightarrow> (Inr outcome, st'))
           | PrepareCommit \<Rightarrow> (if commit then Inr outcome else Inl InvalidState, st)
           | PrepareAbort \<Rightarrow> (if commit then Inl InvalidState else Inr outcome, st)
           | CompleteCommit \<Rightarrow> (if commit then Inr default_outcome else Inl InvalidState, st)
           | CompleteAbort \<Rightarrow> (if commit then Inl InvalidState else Inr default_outcome, st)
           | TxnEmpty \<Rightarrow> (Inl InvalidState, st)))"

definition complete_end_txn ::
  "slot_io \<Rightarrow> txn_store \<Rightarrow> string \<Rightarrow> int \<Rightarrow> int \<Rightarrow> bool \<Rightarrow>
   (txn_state_error + unit) \<times> txn_store \<times> hook_call list" where
  "complete_end_txn io st txn_id pid epoch commit =
     (if txn_id = [] then (Inl EmptyTxnId, st, [])
      else case checked_entry io st txn_id pid epoch of
        Inl e \<Rightarrow> (Inl e, st, [])
      | Inr (m, entry) \<Rightarrow>
          if te_state entry = complete_state commit then (Inr (), st, [])
          else if te_state entry \<noteq> prepare_state commit then (Inl InvalidState, st, [])
          else
            (case persist_slot io st (slot_for st txn_id)
                    (hm_insert txn_id
                      (entry\<lparr>te_state := complete_state commit, te_groups := [],
                             te_partitions := [], te_ongoing_since_ms := 0\<rparr>) m) of
               (Inl e, st') \<Rightarrow> (Inl e, st', [])
             | (Inr _, st') \<Rightarrow>
                 (Inr (), st', if ts_hook st then map (\<lambda>g. (g, pid, commit)) (te_groups entry) else [])))"

definition end_txn ::
  "slot_io \<Rightarrow> txn_store \<Rightarrow> string \<Rightarrow> int \<Rightarrow> int \<Rightarrow> bool \<Rightarrow>
   (txn_state_error + end_txn_outcome) \<times> txn_store \<times> hook_call list" where
  "end_txn io st txn_id pid epoch commit =
     (case prepare_end_txn io st txn_id pid epoch commit of
        (Inl e, st') \<Rightarrow> (Inl e, st', [])
      | (Inr outcome, st') \<Rightarrow>
          if eo_transition_fired outcome then
            (case complete_end_txn io st' txn_id pid epoch commit of
               (Inl e, st'', calls) \<Rightarrow> (Inl e, st'', calls)
             | (Inr _, st'', calls) \<Rightarrow> (Inr outcome, st'', calls))
          else (Inr outcome, st', []))"

section \<open>Sweeps over the slots\<close>

definition owned :: "(string \<Rightarrow> bool) option \<Rightarrow> string \<Rightarrow> bool" where
  "owned owns_txn txn_id = (case owns_txn of None \<Rightarrow> True | Some owns \<Rightarrow> owns txn_id)"

definition pending_of_entry ::
  "(string \<Rightarrow> bool) option \<Rightarrow> string \<times> txn_entry \<Rightarrow> pending_marker_dispatch list" where
  "pending_of_entry owns_txn = (\<lambda>(txn_id, entry).
     if te_state entry \<in> {PrepareCommit, PrepareAbort} \<and> te_partitions entry \<noteq> [] \<and> owned owns_txn txn_id
     then [\<lparr>pm_txn_id = txn_id, pm_pid = te_pid entry, pm_epoch = te_epoch entry,
            pm_commit = (te_state entry = PrepareCommit), pm_partitions = te_partitions entry\<rparr>]
     else [])"

definition pending_marker_dispatches ::
  "slot_io \<Rightarrow> txn_store \<Rightarrow> (string \<Rightarrow> bool) option \<Rightarrow> pending_marker_dispatch list" where
  "pending_marker_dispatches io st owns_txn =
     concat (map (\<lambda>slot. case load_slot io st slot of
         Inl _ \<Rightarrow> [] | Inr m \<Rightarrow> concat (map (pending_of_entry owns_txn) m)) [0..<ts_num_slots st])"

definition overdue :: "int \<Rightarrow> txn_entry \<Rightarrow> bool" where
  "overdue now_ms entry \<longleftrightarrow>
     te_state entry = Ongoing \<and> te_ongoing_since_ms entry \<noteq> 0 \<and> te_transaction_timeout_ms entry > 0 \<and>
     te_ongoing_since_ms entry + te_transaction_timeout_ms entry \<le> now_ms"

definition reaped :: "txn_entry \<Rightarrow> txn_entry" where
  "reaped entry = entry\<lparr>te_state := PrepareAbort, te_ongoing_since_ms := 0,
     te_epoch := if te_epoch entry = i16_MAX then 0 else te_epoch entry + 1\<rparr>"

definition abort_candidate ::
  "int \<Rightarrow> (string \<Rightarrow> bool) option \<Rightarrow>
   (string, txn_entry) hash_map \<times> bool \<times> txn_abort_record list \<Rightarrow> string \<Rightarrow>
   (string, txn_entry) hash_map \<times> bool \<times> txn_abort_record list" where
  "abort_candidate now_ms owns_txn = (\<lambda>(m, changed, aborted) txn_id.
     case hm_get m txn_id of
       None \<Rightarrow> (m, changed, aborted)
     | Some entry \<Rightarrow>
         if owned owns_txn txn_id \<and> overdue now_ms entry then
           (hm_insert txn_id (reaped entry) m, True,
            aborted @ [\<lparr>ta_txn_id = txn_id, ta_pid = te_pid entry, ta_old_epoch = te_epoch entry,
                        ta_new_epoch = te_epoch (reaped entry), ta_groups = te_groups entry\<rparr>])
         else (m, changed, aborted))"

definition abort_slot ::
  "slot_io \<Rightarrow> int \<Rightarrow> (string \<Rightarrow> bool) option \<Rightarrow> txn_store \<times> txn_abort_record list \<Rightarrow> nat \<Rightarrow>
   txn_store \<times> txn_abort_record list" where
  "abort_slot io now_ms owns_txn = (\<lambda>(st, aborted) slot.
     case load_slot io st slot of
       Inl _ \<Rightarrow> (st, aborted)
     | Inr m \<Rightarrow>
         let (m', changed, aborted') =
           foldl (abort_candidate now_ms owns_txn) (m, False, aborted) (map fst m)
         in (if changed then snd (persist_slot io st slot m') else st, aborted'))"

definition abort_overdue_owned ::
  "slot_io \<Rightarrow> txn_store \<Rightarrow> int \<Rightarrow> (string \<Rightarrow> bool) option \<Rightarrow> txn_abort_record list \<times> txn_store" where
  "abort_overdue_owned io st now_ms owns_txn =
     (let (st', aborted) = foldl (abort_slot io now_ms owns_txn) (st, []) [0..<ts_num_slots st]
      in (aborted, st'))"

definition abort_overdue :: "slot_io \<Rightarrow> txn_store \<Rightarrow> int \<Rightarrow> txn_abort_record list \<times> txn_store" where
  "abort_overdue io st now_ms = abort_overdue_owned io st now_ms None"

definition txn_snapshot :: "slot_io \<Rightarrow> txn_store \<Rightarrow> (string, txn_entry) hash_map" where
  "txn_snapshot io st =
     foldl (\<lambda>out slot. case load_slot io st slot of
         Inl _ \<Rightarrow> out | Inr m \<Rightarrow> foldl (\<lambda>out (k, v). hm_insert k v out) out m) [] [0..<ts_num_slots st]"

section \<open>The store as one map\<close>

text \<open>What the slot files say about a transaction: the entry in the file its id hashes to.\<close>

definition txn_entry_of :: "txn_store \<Rightarrow> string \<Rightarrow> txn_entry option" where
  "txn_entry_of st txn_id =
     (case ts_slots st (slot_for st txn_id) of Slot m \<Rightarrow> hm_get m txn_id | _ \<Rightarrow> None)"

lemma slot_for_bound: "0 < ts_num_slots st \<Longrightarrow> slot_for st txn_id < ts_num_slots st"
  by (simp add: slot_for_def nat_less_iff)

lemma slot_for_cong: "ts_num_slots st' = ts_num_slots st \<Longrightarrow> slot_for st' = slot_for st"
  by (rule ext) (simp add: slot_for_def)

lemma slot_for_update [simp]: "slot_for (st\<lparr>ts_slots := x\<rparr>) = slot_for st"
  by (rule slot_for_cong) simp

lemma load_slot_entry:
  "load_slot io st (slot_for st t) = Inr m \<Longrightarrow> hm_get m t = txn_entry_of st t"
  by (auto simp: load_slot_def txn_entry_of_def split: if_splits slot_file.splits)

lemma persist_entry:
  assumes "load_slot io st (slot_for st t) = Inr m"
    and "persist_slot io st (slot_for st t) (hm_insert t e m) = (r, st')"
  shows "ts_num_slots st' = ts_num_slots st \<and>
    (if r = Inr () then txn_entry_of st' = (txn_entry_of st)(t \<mapsto> e) else st' = st)"
proof (cases "si_write_fails io (slot_for st t)")
  case False
  then have st': "st' = st\<lparr>ts_slots := (ts_slots st)(slot_for st t := Slot (hm_insert t e m))\<rparr>" "r = Inr ()"
    using assms(2) by (auto simp: persist_slot_def)
  have "txn_entry_of st' u = ((txn_entry_of st)(t \<mapsto> e)) u" for u
  proof (cases "slot_for st u = slot_for st t")
    case True
    have "hm_get m u = txn_entry_of st u" by (rule load_slot_entry [of io]) (simp add: True assms(1))
    with True show ?thesis by (simp add: txn_entry_of_def st')
  next
    case False
    then show ?thesis by (auto simp: txn_entry_of_def st')
  qed
  with st' show ?thesis by (simp add: fun_eq_iff)
qed (use assms(2) in \<open>auto simp: persist_slot_def\<close>)

lemma checked_entry_Inr:
  assumes "checked_entry io st t pid epoch = Inr (m, e)"
  shows "load_slot io st (slot_for st t) = Inr m" "txn_entry_of st t = Some e"
    "te_pid e = pid" "te_epoch e = epoch"
  using assms load_slot_entry [of io st t]
  by (auto simp: checked_entry_def split: sum.splits option.splits if_splits)

lemma checked_entry_Inl:
  assumes "checked_entry io st t pid epoch = Inl err"
  shows "err \<in> {Txn_io, Txn_decode, UnknownProducer, EpochFenced}"
    and "txn_entry_of st t = Some e \<Longrightarrow> te_pid e = pid \<Longrightarrow> err \<in> {Txn_io, Txn_decode, EpochFenced}"
  using assms load_slot_entry [of io st t]
  by (auto simp: checked_entry_def load_slot_def txn_entry_of_def
      split: sum.splits option.splits if_splits slot_file.splits)

section \<open>The life cycle of a transaction\<close>

text \<open>The partitions and groups of an entry, as sets.\<close>

definition owed :: "txn_topic list \<Rightarrow> (string \<times> int) set" where
  "owed ts = set (concat (map (\<lambda>t. map (Pair (tt_topic t)) (tt_partitions t)) ts))"

lemma owed_simps [simp]:
  "owed [] = {}"
  "owed (t # ts) = Pair (tt_topic t) ` set (tt_partitions t) \<union> owed ts"
  by (auto simp: owed_def)

text \<open>The operations as events, each with the environment it runs in.\<close>

datatype txn_op =
    Init string int int
  | Add_partitions string int int "txn_topic list" int
  | Add_offsets string int int string int
  | Prepare string int int bool
  | Complete string int int bool
  | Reap int "(string \<Rightarrow> bool) option"

fun txn_apply :: "txn_store \<Rightarrow> slot_io \<times> txn_op \<Rightarrow> txn_store" where
  "txn_apply st (io, Init t ms fresh) =
     fst (snd (get_or_allocate_with_timeout io st t ms (\<lambda>c. (fresh, c)) ()))"
| "txn_apply st (io, Add_partitions t pid epoch adds now) = snd (add_partitions io st t pid epoch adds now)"
| "txn_apply st (io, Add_offsets t pid epoch g now) = snd (add_offsets_to_txn io st t pid epoch g now)"
| "txn_apply st (io, Prepare t pid epoch c) = snd (prepare_end_txn io st t pid epoch c)"
| "txn_apply st (io, Complete t pid epoch c) = fst (snd (complete_end_txn io st t pid epoch c))"
| "txn_apply st (io, Reap now owns) = snd (abort_overdue_owned io st now owns)"

text \<open>One transition of an entry, labelled with the operation that takes it. No rule leads out of a
  prepared state but \<open>complete\<close> with the prepared decision and the producer id rotation at the end
  of the epoch range.\<close>

inductive entry_step :: "txn_op \<Rightarrow> txn_entry option \<Rightarrow> txn_entry \<Rightarrow> bool" where
  init_new: "te_pid e' = fresh \<Longrightarrow> te_epoch e' = 0 \<Longrightarrow> te_state e' = TxnEmpty \<Longrightarrow>
    te_partitions e' = [] \<Longrightarrow> te_groups e' = [] \<Longrightarrow> entry_step (Init t ms fresh) None e'"
| init_exhausted: "te_epoch e = i16_MAX \<Longrightarrow> te_pid e' = fresh \<Longrightarrow> te_epoch e' = 0 \<Longrightarrow>
    te_state e' = TxnEmpty \<Longrightarrow> te_partitions e' = [] \<Longrightarrow> te_groups e' = [] \<Longrightarrow>
    entry_step (Init t ms fresh) (Some e) e'"
| init_bump: "te_epoch e \<noteq> i16_MAX \<Longrightarrow>
    e' = e\<lparr>te_epoch := te_epoch e + 1, te_transaction_timeout_ms := ms'\<rparr> \<Longrightarrow>
    entry_step (Init t ms fresh) (Some e) e'"
| extend_partitions: "te_state e \<notin> {PrepareCommit, PrepareAbort} \<Longrightarrow>
    te_pid e' = pid \<Longrightarrow> te_pid e = pid \<Longrightarrow> te_epoch e' = epoch \<Longrightarrow> te_epoch e = epoch \<Longrightarrow>
    te_state e' = Ongoing \<Longrightarrow> te_groups e' = te_groups e \<Longrightarrow>
    owed (te_partitions e') = owed (te_partitions e) \<union> owed adds \<Longrightarrow>
    entry_step (Add_partitions t pid epoch adds now) (Some e) e'"
| extend_groups: "te_state e \<notin> {PrepareCommit, PrepareAbort} \<Longrightarrow>
    te_pid e' = pid \<Longrightarrow> te_pid e = pid \<Longrightarrow> te_epoch e' = epoch \<Longrightarrow> te_epoch e = epoch \<Longrightarrow>
    te_state e' = Ongoing \<Longrightarrow> te_partitions e' = te_partitions e \<Longrightarrow>
    set (te_groups e') = insert g (set (te_groups e)) \<Longrightarrow>
    entry_step (Add_offsets t pid epoch g now) (Some e) e'"
| prepare: "te_state e = Ongoing \<Longrightarrow> te_pid e = pid \<Longrightarrow> te_epoch e = epoch \<Longrightarrow>
    e' = e\<lparr>te_state := prepare_state commit\<rparr> \<Longrightarrow> entry_step (Prepare t pid epoch commit) (Some e) e'"
| complete: "te_state e = prepare_state commit \<Longrightarrow> te_pid e = pid \<Longrightarrow> te_epoch e = epoch \<Longrightarrow>
    e' = e\<lparr>te_state := complete_state commit, te_groups := [], te_partitions := [], te_ongoing_since_ms := 0\<rparr> \<Longrightarrow>
    entry_step (Complete t pid epoch commit) (Some e) e'"
| reap: "overdue now e \<Longrightarrow> e' = reaped e \<Longrightarrow> entry_step (Reap now owns) (Some e) e'"

inductive_cases entry_stepE: "entry_step op (Some e) e'"

text \<open>What one event may do to the map: each entry stays or takes one step of the life cycle.\<close>

definition moves :: "txn_op \<Rightarrow> (string \<Rightarrow> bool) \<Rightarrow> txn_store \<Rightarrow> txn_store \<Rightarrow> bool" where
  "moves op P st st' \<longleftrightarrow> ts_num_slots st' = ts_num_slots st \<and>
     (\<forall>u. txn_entry_of st' u = txn_entry_of st u \<or>
        P u \<and> (\<exists>e'. txn_entry_of st' u = Some e' \<and> entry_step op (txn_entry_of st u) e'))"

lemma moves_refl [simp]: "moves op P st st"
  by (simp add: moves_def)

lemma moves_put:
  assumes "load_slot io st (slot_for st t) = Inr m" "entry_step op (txn_entry_of st t) e"
  shows "moves op ((=) t) st (snd (persist_slot io st (slot_for st t) (hm_insert t e m)))"
proof -
  obtain r st' where p: "persist_slot io st (slot_for st t) (hm_insert t e m) = (r, st')"
    by (rule prod.exhaust)
  from persist_entry [OF assms(1) p] assms(2) show ?thesis
    by (auto simp: p moves_def split: if_splits)
qed

lemma owed_push_new:
  "set (push_new ps adds) = set ps \<union> set adds"
  by (induction adds arbitrary: ps) (auto simp: push_new_def)

lemma owed_merge_topic:
  "owed (fst (merge_topic ts add)) = owed ts \<union> Pair (tt_topic add) ` set (tt_partitions add)"
  by (induction ts add rule: merge_topic.induct)
    (auto simp: owed_push_new image_Un split: prod.splits)

lemma owed_merge_acc:
  "owed (fst (foldl (\<lambda>(ps, changed) add. let (ps', c) = merge_topic ps add in (ps', changed \<or> c)) (ts, ch) adds))
   = owed ts \<union> owed adds"
proof (induction adds arbitrary: ts ch)
  case (Cons a adds)
  obtain ps c where "merge_topic ts a = (ps, c)" by (rule prod.exhaust)
  then show ?case using Cons [of ps] owed_merge_topic [of ts a] by (auto simp: Let_def)
qed simp

lemma owed_merge: "owed (fst (merge_partitions ts adds)) = owed ts \<union> owed adds"
  unfolding merge_partitions_def by (rule owed_merge_acc)

subsection \<open>Each operation takes its own entry one step\<close>

lemma moves_init: "moves (Init t ms fresh) ((=) t) st (txn_apply st (io, Init t ms fresh))"
proof (cases "t = [] \<or> (\<exists>e. load_slot io st (slot_for st t) = Inl e)")
  case True
  then show ?thesis by (auto simp: get_or_allocate_with_timeout_def Let_def)
next
  case False
  then obtain m where m: "load_slot io st (slot_for st t) = Inr m" "t \<noteq> []"
    by (metis sum.exhaust)
  note get = load_slot_entry [OF m(1)]
  have put: "snd (case persist_slot io st (slot_for st t) m' of
      (Inl e, st') \<Rightarrow> (Inl e, st', c) | (Inr _, st') \<Rightarrow> (Inr x, st', c))
    = (snd (persist_slot io st (slot_for st t) m'), c)" for m' c x
    by (auto split: prod.splits sum.splits)
  show ?thesis
  proof (cases "txn_entry_of st t")
    case None
    show ?thesis
      using m get None
      by (auto simp: get_or_allocate_with_timeout_def Let_def put
          intro!: moves_put [OF m(1)] init_new)
  next
    case (Some e)
    show ?thesis
    proof (cases "te_epoch e = i16_MAX")
      case True
      then show ?thesis
        using m get Some
        by (auto simp: get_or_allocate_with_timeout_def Let_def put
            intro!: moves_put [OF m(1)] init_exhausted)
    next
      case False
      have bump: "entry_step (Init t ms fresh) (Some e) (e\<lparr>te_epoch := te_epoch e + 1, te_transaction_timeout_ms := x\<rparr>)" for x
        by (rule init_bump [OF False refl])
      have "e\<lparr>te_epoch := te_epoch e + 1\<rparr> =
          e\<lparr>te_epoch := te_epoch e + 1, te_transaction_timeout_ms := te_transaction_timeout_ms e\<rparr>"
        by simp
      with bump [of "te_transaction_timeout_ms e"]
      have bump0: "entry_step (Init t ms fresh) (Some e) (e\<lparr>te_epoch := te_epoch e + 1\<rparr>)" by metis
      show ?thesis
        using m get Some False bump [of ms] bump0
        by (auto simp: get_or_allocate_with_timeout_def Let_def put intro!: moves_put [OF m(1)])
    qed
  qed
qed

lemma moves_add_partitions: "moves (Add_partitions t pid epoch adds now) ((=) t) st (txn_apply st (io, Add_partitions t pid epoch adds now))"
proof (cases "checked_entry io st t pid epoch")
  case (Inr x)
  obtain m e where x: "x = (m, e)" by (rule prod.exhaust)
  note ce = checked_entry_Inr [OF Inr [unfolded x]]
  obtain parts merged where mp: "merge_partitions (te_partitions e) adds = (parts, merged)"
    by (rule prod.exhaust)
  have "owed parts = owed (te_partitions e) \<union> owed adds"
    using owed_merge [of "te_partitions e" adds] by (simp add: mp)
  then have step: "te_state e \<notin> {PrepareCommit, PrepareAbort} \<Longrightarrow>
      entry_step (Add_partitions t pid epoch adds now) (Some e) (let e1 = e\<lparr>te_partitions := parts\<rparr> in if te_state e \<noteq> Ongoing
        then e1\<lparr>te_state := Ongoing, te_ongoing_since_ms := now\<rparr> else e1)"
    using ce(3,4) by (intro extend_partitions) (simp_all add: Let_def)
  show ?thesis
    using Inr x mp moves_put [OF ce(1)] step ce(2) by (simp add: add_partitions_def Let_def)
qed (simp add: add_partitions_def)

lemma moves_add_offsets: "moves (Add_offsets t pid epoch g now) ((=) t) st (txn_apply st (io, Add_offsets t pid epoch g now))"
proof (cases "checked_entry io st t pid epoch")
  case (Inr x)
  obtain m e where x: "x = (m, e)" by (rule prod.exhaust)
  note ce = checked_entry_Inr [OF Inr [unfolded x]]
  have step: "te_state e \<notin> {PrepareCommit, PrepareAbort} \<Longrightarrow>
      entry_step (Add_offsets t pid epoch g now) (Some e)
        (let e1 = (if g \<in> set (te_groups e) then e else e\<lparr>te_groups := te_groups e @ [g]\<rparr>)
         in if te_state e \<noteq> Ongoing then e1\<lparr>te_state := Ongoing, te_ongoing_since_ms := now\<rparr> else e1)"
    using ce(3,4) by (intro extend_groups) (auto simp: Let_def)
  show ?thesis
    using Inr x moves_put [OF ce(1)] step ce(2) by (simp add: add_offsets_to_txn_def Let_def)
qed (simp add: add_offsets_to_txn_def)

lemma moves_prepare: "moves (Prepare t pid epoch c) ((=) t) st (txn_apply st (io, Prepare t pid epoch c))"
proof (cases "checked_entry io st t pid epoch")
  case (Inr x)
  obtain m e where x: "x = (m, e)" by (rule prod.exhaust)
  note ce = checked_entry_Inr [OF Inr [unfolded x]]
  have put: "snd (case persist_slot io st s m' of (Inl err, st') \<Rightarrow> (Inl err, st') | (Inr _, st') \<Rightarrow> (Inr y, st'))
    = snd (persist_slot io st s m')" for s m' y
    by (auto split: prod.splits sum.splits)
  show ?thesis
    using Inr x moves_put [OF ce(1)] ce(2) prepare [of e, OF _ ce(3,4) refl]
    by (cases "te_state e") (simp_all add: prepare_end_txn_def Let_def put)
qed (simp add: prepare_end_txn_def)

lemma moves_complete: "moves (Complete t pid epoch c) ((=) t) st (txn_apply st (io, Complete t pid epoch c))"
proof (cases "checked_entry io st t pid epoch")
  case (Inr x)
  obtain m e where x: "x = (m, e)" by (rule prod.exhaust)
  note ce = checked_entry_Inr [OF Inr [unfolded x]]
  have put: "fst (snd (case persist_slot io st s m' of
      (Inl err, st') \<Rightarrow> (Inl err, st', []) | (Inr _, st') \<Rightarrow> (Inr (), st', y)))
    = snd (persist_slot io st s m')" for s m' y
    by (auto split: prod.splits sum.splits)
  show ?thesis
    using Inr x moves_put [OF ce(1)] ce(2) complete [of e c, OF _ ce(3,4) refl]
    by (simp add: complete_end_txn_def put)
qed (simp add: complete_end_txn_def)

subsection \<open>The reaper\<close>

lemma abort_candidates_get:
  "hm_get (fst (foldl (abort_candidate now owns) (m, ch, recs) ids)) u =
     (case hm_get m u of
        Some e \<Rightarrow> if u \<in> set ids \<and> owned owns u \<and> overdue now e then Some (reaped e) else Some e
      | None \<Rightarrow> None)"
proof (induction ids arbitrary: m ch recs)
  case (Cons i ids)
  have no: "\<not> overdue now (reaped e)" for e by (simp add: overdue_def reaped_def)
  show ?case
  proof (cases "hm_get m i")
    case None
    then show ?thesis using Cons by (auto simp: abort_candidate_def split: option.splits)
  next
    case (Some e)
    then show ?thesis using Cons no by (auto simp: abort_candidate_def split: option.splits)
  qed
qed (auto split: option.splits)

text \<open>One slot of the sweep moves only entries of that slot.\<close>

lemma abort_slot_moves:
  "moves (Reap now owns) (\<lambda>u. slot_for st u = slot) st (fst (abort_slot io now owns (st, aborted) slot))"
proof (cases "load_slot io st slot")
  case (Inr m)
  obtain m' ch recs where f: "foldl (abort_candidate now owns) (m, False, aborted) (map fst m) = (m', ch, recs)"
    by (metis prod.exhaust)
  have get: "hm_get m' u = (case hm_get m u of
      Some e \<Rightarrow> if owned owns u \<and> overdue now e then Some (reaped e) else Some e | None \<Rightarrow> None)" for u
    using abort_candidates_get [of now owns m False aborted "map fst m" u] f
    by (force simp: split: option.splits dest: map_of_SomeD)
  show ?thesis
  proof (cases "ch \<and> \<not> si_write_fails io slot")
    case False
    then show ?thesis using Inr f by (auto simp: abort_slot_def persist_slot_def)
  next
    case True
    then have st': "fst (abort_slot io now owns (st, aborted) slot) =
        st\<lparr>ts_slots := (ts_slots st)(slot := Slot m')\<rparr>" (is "_ = ?st'")
      using Inr f by (simp add: abort_slot_def persist_slot_def)
    have "txn_entry_of ?st' u = txn_entry_of st u \<or> slot_for st u = slot \<and>
        (\<exists>e'. txn_entry_of ?st' u = Some e' \<and> entry_step (Reap now owns) (txn_entry_of st u) e')" for u
    proof (cases "slot_for st u = slot")
      case True
      then have "txn_entry_of ?st' u = hm_get m' u" "txn_entry_of st u = hm_get m u"
        using Inr by (auto simp: txn_entry_of_def load_slot_def split: if_splits slot_file.splits)
      with True get [of u] show ?thesis by (auto intro: reap split: option.splits)
    next
      case False
      then show ?thesis by (simp add: txn_entry_of_def)
    qed
    then show ?thesis by (simp add: st' moves_def)
  qed
qed (simp add: abort_slot_def)

lemma moves_compose:
  assumes "moves op P st st'" "moves op Q st' st''" "\<And>u. P u \<Longrightarrow> \<not> Q u"
  shows "moves op (\<lambda>u. P u \<or> Q u) st st''"
  using assms unfolding moves_def by metis

lemma moves_reap: "moves (Reap now owns) (\<lambda>_. True) st (txn_apply st (io, Reap now owns))"
proof -
  have "moves (Reap now owns) (\<lambda>u. slot_for st u < n) st (fst (foldl (abort_slot io now owns) (st, []) [0..<n]))" for n
  proof (induction n)
    case (Suc n)
    obtain s recs where f: "foldl (abort_slot io now owns) (st, []) [0..<n] = (s, recs)"
      by (rule prod.exhaust)
    have "moves (Reap now owns) (\<lambda>u. slot_for st u < n) st s" using Suc f by simp
    moreover from this have "slot_for s = slot_for st" by (intro slot_for_cong) (simp add: moves_def)
    ultimately have "moves (Reap now owns) (\<lambda>u. slot_for st u < n \<or> slot_for st u = n) st
        (fst (abort_slot io now owns (s, recs) n))"
      using abort_slot_moves [of now owns s n io recs] by (intro moves_compose) auto
    moreover have "slot_for st u < Suc n \<longleftrightarrow> slot_for st u < n \<or> slot_for st u = n" for u by auto
    ultimately show ?case by (simp add: f)
  qed simp
  then have "moves (Reap now owns) (\<lambda>u. slot_for st u < ts_num_slots st) st (txn_apply st (io, Reap now owns))"
    by (auto simp: abort_overdue_owned_def split: prod.splits) (metis fst_conv)
  then show ?thesis by (auto simp: moves_def)
qed

fun op_txn :: "txn_op \<Rightarrow> string \<Rightarrow> bool" where
  "op_txn (Init t _ _) u = (u = t)"
| "op_txn (Add_partitions t _ _ _ _) u = (u = t)"
| "op_txn (Add_offsets t _ _ _ _) u = (u = t)"
| "op_txn (Prepare t _ _ _) u = (u = t)"
| "op_txn (Complete t _ _ _) u = (u = t)"
| "op_txn (Reap _ _) u = True"

fun completes :: "string \<Rightarrow> txn_op \<Rightarrow> bool" where
  "completes t (Complete u _ _ _) = (u = t)"
| "completes t _ = False"

lemma txn_apply_moves: "moves op (op_txn op) st (txn_apply st (io, op))"
proof (cases op)
  case (Init t ms fresh)
  then show ?thesis using moves_init [of t ms fresh st io] by (simp add: moves_def) blast
next
  case (Add_partitions t pid epoch adds now)
  then show ?thesis using moves_add_partitions [of t pid epoch adds now st io]
    by (simp add: moves_def) blast
next
  case (Add_offsets t pid epoch g now)
  then show ?thesis using moves_add_offsets [of t pid epoch g now st io] by (simp add: moves_def) blast
next
  case (Prepare t pid epoch c)
  then show ?thesis using moves_prepare [of t pid epoch c st io] by (simp add: moves_def) blast
next
  case (Complete t pid epoch c)
  then show ?thesis using moves_complete [of t pid epoch c st io] by (simp add: moves_def) blast
next
  case (Reap now owns)
  then show ?thesis using moves_reap [of now owns st io] by (simp add: moves_def)
qed

lemma txn_apply_cases:
  obtains (same) "txn_entry_of (txn_apply st (io, op)) u = txn_entry_of st u"
  | (step) e' where "txn_entry_of (txn_apply st (io, op)) u = Some e'" "op_txn op u"
      "entry_step op (txn_entry_of st u) e'"
  using txn_apply_moves [of op st io] unfolding moves_def by blast

section \<open>What every run keeps\<close>

definition entry_wf :: "txn_entry \<Rightarrow> bool" where
  "entry_wf e \<longleftrightarrow> 0 \<le> te_epoch e \<and> te_epoch e \<le> i16_MAX \<and>
     (te_state e \<in> {TxnEmpty, CompleteCommit, CompleteAbort} \<longrightarrow>
        owed (te_partitions e) = {} \<and> te_groups e = [])"

definition txn_wf :: "txn_store \<Rightarrow> bool" where
  "txn_wf st \<longleftrightarrow> (\<forall>u e. txn_entry_of st u = Some e \<longrightarrow> entry_wf e)"

lemma entry_step_wf: "entry_step op x e' \<Longrightarrow> (\<And>e. x = Some e \<Longrightarrow> entry_wf e) \<Longrightarrow> entry_wf e'"
  by (induction rule: entry_step.induct)
    (auto simp: entry_wf_def int_bounds prepare_state_def reaped_def)

interpretation txn_types: step_invariant txn_apply txn_wf
proof
  fix st :: txn_store and ev :: "slot_io \<times> txn_op"
  assume wf: "txn_wf st"
  obtain io op where ev: "ev = (io, op)" by (rule prod.exhaust)
  show "txn_wf (txn_apply st ev)"
    unfolding txn_wf_def
  proof (intro allI impI)
    fix u e assume e: "txn_entry_of (txn_apply st ev) u = Some e"
    show "entry_wf e"
    proof (cases rule: txn_apply_cases [of st io op u])
      case same
      with wf e show ?thesis by (simp add: txn_wf_def ev)
    next
      case (step e')
      from entry_step_wf [OF step(3)] wf have "entry_wf e'" by (simp add: txn_wf_def)
      with step(1) e show ?thesis by (simp add: ev)
    qed
  qed
qed

text \<open>While the epoch range is not exhausted the producer id stays and the epoch only grows, by at
  most one per operation.\<close>

lemma step_epoch:
  assumes "entry_step op (Some e) e'" "te_epoch e < i16_MAX"
  shows "te_pid e' = te_pid e \<and> te_epoch e \<le> te_epoch e' \<and> te_epoch e' \<le> te_epoch e + 1"
  using assms by (auto elim!: entry_stepE simp: reaped_def)

lemma run_epoch:
  assumes "txn_entry_of st t = Some e" "te_epoch e + int (length ops) \<le> i16_MAX"
  shows "\<exists>e'. txn_entry_of (foldl txn_apply st ops) t = Some e' \<and> te_pid e' = te_pid e \<and>
    te_epoch e \<le> te_epoch e'"
  using assms
proof (induction ops arbitrary: st e)
  case (Cons ev ops)
  obtain io op where ev: "ev = (io, op)" by (rule prod.exhaust)
  have "\<exists>e1. txn_entry_of (txn_apply st ev) t = Some e1 \<and> te_pid e1 = te_pid e \<and>
      te_epoch e \<le> te_epoch e1 \<and> te_epoch e1 \<le> te_epoch e + 1"
  proof (cases rule: txn_apply_cases [of st io op t])
    case (step e1)
    with step_epoch [of op e e1] Cons.prems show ?thesis by (simp add: ev)
  qed (use Cons.prems in \<open>simp add: ev\<close>)
  then obtain e1 where e1: "txn_entry_of (txn_apply st ev) t = Some e1" "te_pid e1 = te_pid e"
    "te_epoch e \<le> te_epoch e1" "te_epoch e1 \<le> te_epoch e + 1" by blast
  from Cons.IH [OF e1(1)] e1 Cons.prems show ?case by fastforce
qed auto

lemma step_prepared:
  assumes "entry_step op (Some e) e'" "te_state e = prepare_state c" "te_epoch e < i16_MAX"
    and "\<And>t pid epoch c'. op \<noteq> Complete t pid epoch c'"
  shows "te_state e' = te_state e \<and> te_partitions e' = te_partitions e \<and> te_groups e' = te_groups e"
  using assms by (auto elim!: entry_stepE simp: prepare_state_def overdue_def split: if_splits)

lemma prepared_validation:
  assumes "txn_entry_of st t = Some e" "te_state e = prepare_state c" "t \<noteq> []"
    and "\<not> si_read_fails io (slot_for st t)"
  shows "prepare_end_txn io st t (te_pid e) (te_epoch e) (\<not> c) = (Inl InvalidState, st)"
  using assms
  by (auto simp: prepare_end_txn_def checked_entry_def load_slot_def txn_entry_of_def prepare_state_def
      split: slot_file.splits if_splits)

text \<open>What a successful \<open>EndTxn\<close> leaves: the entry in the matching complete state, and one hook
  call per group the transaction had.\<close>

lemma end_txn_result:
  assumes "end_txn io st t pid epoch c = (Inr out, st', calls)"
  shows "t \<noteq> [] \<and> ts_num_slots st' = ts_num_slots st \<and>
    (\<exists>e'. txn_entry_of st' t = Some e' \<and> te_pid e' = pid \<and> te_epoch e' = epoch \<and>
      te_state e' = complete_state c) \<and>
    calls = (if eo_transition_fired out \<and> ts_hook st then map (\<lambda>g. (g, pid, c)) (eo_groups out) else [])"
proof -
  obtain s1 where p: "prepare_end_txn io st t pid epoch c = (Inr out, s1)"
    using assms by (auto simp: end_txn_def split: prod.splits sum.splits if_splits)
  then have t: "t \<noteq> []" by (auto simp: prepare_end_txn_def split: if_splits)
  obtain m e where ce: "checked_entry io st t pid epoch = Inr (m, e)"
    using p t by (auto simp: prepare_end_txn_def split: sum.splits)
  note e = checked_entry_Inr [OF ce]
  have s1: "ts_num_slots s1 = ts_num_slots st \<and> ts_hook s1 = ts_hook st"
    using p t ce by (auto simp: prepare_end_txn_def Let_def persist_slot_def
        split: txn_state.splits if_splits)
  show ?thesis
  proof (cases "eo_transition_fired out")
    case False
    with p t ce e assms show ?thesis
      by (auto simp: end_txn_def prepare_end_txn_def Let_def complete_state_def
          split: txn_state.splits if_splits prod.splits sum.splits)
  next
    case True
    then have c1: "complete_end_txn io s1 t pid epoch c = (Inr (), st', calls)"
      using assms p by (auto simp: end_txn_def split: prod.splits sum.splits)
    obtain m1 e1 where ce1: "checked_entry io s1 t pid epoch = Inr (m1, e1)"
      using c1 t by (auto simp: complete_end_txn_def split: sum.splits)
    note e1 = checked_entry_Inr [OF ce1]
    have "te_groups e1 = eo_groups out \<and> te_state e1 = prepare_state c"
    proof (cases "te_state e = Ongoing")
      case True
      then obtain r where r: "persist_slot io st (slot_for st t)
          (hm_insert t (e\<lparr>te_state := prepare_state c\<rparr>) m) = (Inr r, s1)"
        "eo_groups out = te_groups e"
        using p t ce by (auto simp: prepare_end_txn_def Let_def split: prod.splits sum.splits)
      from persist_entry [OF e(1) r(1)] e1 r(2) show ?thesis by auto
    next
      case False
      then have "s1 = st \<and> eo_groups out = te_groups e \<and> te_state e = prepare_state c"
        using p t ce \<open>eo_transition_fired out\<close>
        by (auto simp: prepare_end_txn_def Let_def prepare_state_def default_outcome_def
            split: txn_state.splits if_splits)
      with e e1 show ?thesis by simp
    qed
    moreover from this obtain r where "persist_slot io s1 (slot_for s1 t)
        (hm_insert t (e1\<lparr>te_state := complete_state c, te_groups := [], te_partitions := [],
          te_ongoing_since_ms := 0\<rparr>) m1) = (Inr r, st')"
      "calls = (if ts_hook s1 then map (\<lambda>g. (g, pid, c)) (te_groups e1) else [])"
      using c1 t ce1
      by (auto simp: complete_end_txn_def prepare_state_def complete_state_def
          split: prod.splits sum.splits if_splits)
    ultimately show ?thesis using persist_entry [OF e1(1), of _ "Inr r" st'] e1 s1 True t by auto
  qed
qed

section \<open>Properties\<close>

text \<open>C25: the slot files implement one map of transactions, and every operation is a transition of
  the documented life cycle: whatever the operation and whichever slot files fail, each
  transaction's entry either stays as it is or, when the operation is about that transaction (or is
  the timeout sweep), takes one labelled step: creation, epoch bump, producer id rotation, growing
  the owed partitions or groups, prepare, complete, or reaping.\<close>

theorem txn_store_refines_lifecycle:
  "txn_entry_of (txn_apply st (io, op)) u = txn_entry_of st u \<or>
   op_txn op u \<and> (\<exists>e'. txn_entry_of (txn_apply st (io, op)) u = Some e' \<and>
     entry_step op (txn_entry_of st u) e')"
  by (cases rule: txn_apply_cases [of st io op u]) blast+

text \<open>C26: entries stay well-typed along every run of operations: the epoch is a non-negative
  \<open>i16\<close>, and an entry that is empty or complete owes no partition a marker and no group its
  offsets.\<close>

theorem txn_entries_well_typed:
  "txn_wf st \<Longrightarrow> txn_entry_of (foldl txn_apply st ops) u = Some e \<Longrightarrow>
   0 \<le> te_epoch e \<and> te_epoch e \<le> i16_MAX \<and>
   (te_state e \<in> {TxnEmpty, CompleteCommit, CompleteAbort} \<longrightarrow>
      owed (te_partitions e) = {} \<and> te_groups e = [])"
  using txn_types.run_keeps [of st ops] unfolding txn_wf_def entry_wf_def by blast



text \<open>C18: \<open>EndTxn\<close> takes effect exactly once. When it succeeds, retrying it with the same decision
  answers success, writes nothing and calls the offset hook no second time; the other decision is
  refused; and the one call of the hook per group happened with the transaction's decision.\<close>

theorem end_txn_exactly_once:
  assumes "end_txn io st t pid epoch c = (Inr out, st', calls)"
    and "\<not> si_read_fails io' (slot_for st t)"
  shows "end_txn io' st' t pid epoch c = (Inr default_outcome, st', []) \<and>
    end_txn io' st' t pid epoch (\<not> c) = (Inl InvalidState, st', []) \<and>
    calls = (if eo_transition_fired out \<and> ts_hook st
             then map (\<lambda>g. (g, pid, c)) (eo_groups out) else [])"
proof -
  note fin = end_txn_result [OF assms(1)]
  then obtain e' where t: "t \<noteq> []" and e': "txn_entry_of st' t = Some e'" "te_pid e' = pid"
    "te_epoch e' = epoch" "te_state e' = complete_state c" and slots: "slot_for st' = slot_for st"
    using slot_for_cong [of st' st] by blast
  then obtain m' where "load_slot io' st' (slot_for st' t) = Inr m'" "hm_get m' t = Some e'"
    using assms(2) by (auto simp: load_slot_def txn_entry_of_def split: slot_file.splits)
  with e' t have "prepare_end_txn io' st' t pid epoch c' =
      (if c' = c then Inr default_outcome else Inl InvalidState, st')" for c'
    by (auto simp: prepare_end_txn_def checked_entry_def complete_state_def)
  with fin show ?thesis by (simp add: end_txn_def default_outcome_def)
qed

section \<open>Findings\<close>

text \<open>The timeout sweep bumps the epoch so that the stuck producer is fenced. At the end of the epoch
  range it goes back to 0 under the same producer id: a handle issued long ago is accepted again,
  and the next \<open>InitProducerId\<close> answers with a pair that was already given out.\<close>

lemma reap_reuses_epoch:
  assumes "te_epoch e = i16_MAX" "overdue now e"
  shows "te_pid (reaped e) = te_pid e \<and> te_epoch (reaped e) = 0"
  using assms by (simp add: reaped_def)

text \<open>\<open>InitProducerId\<close> at the end of the epoch range rotates the producer id and forgets the
  partitions a prepared transaction still owes a marker.\<close>

definition exhausted_store :: txn_store where
  "exhausted_store = \<lparr>ts_num_slots = 1, ts_slots = (\<lambda>_. Slot [(''tx'',
     \<lparr>te_pid = 7, te_epoch = i16_MAX, te_partitions = [\<lparr>tt_topic = ''a'', tt_partitions = [0]\<rparr>],
      te_ongoing_since_ms = 0, te_transaction_timeout_ms = 0, te_state = PrepareCommit, te_groups = []\<rparr>)]),
     ts_hook = False\<rparr>"

lemma rotation_forgets_owed_markers:
  "pending_marker_dispatches healthy_slots exhausted_store None \<noteq> [] \<and>
   pending_marker_dispatches healthy_slots
     (txn_apply exhausted_store (healthy_slots, Init ''tx'' 0 8)) None = []"
  by code_simp

section \<open>Witnesses\<close>

definition demo_txn_store :: txn_store where
  "demo_txn_store = foldl txn_apply (set_offset_hook (txn_store_open (\<lambda>_. No_file) 2))
     [(healthy_slots, Init ''tx'' 1000 7), (healthy_slots, Init ''tx'' 1000 8),
      (healthy_slots, Add_partitions ''tx'' 7 1 [\<lparr>tt_topic = ''a'', tt_partitions = [0, 1]\<rparr>] 5),
      (healthy_slots, Add_offsets ''tx'' 7 1 ''g'' 6)]"

definition demo_entry :: "txn_state \<Rightarrow> txn_entry" where
  "demo_entry s = \<lparr>te_pid = 7, te_epoch = 1, te_partitions = [\<lparr>tt_topic = ''a'', tt_partitions = [0, 1]\<rparr>],
     te_ongoing_since_ms = 5, te_transaction_timeout_ms = 1000, te_state = s, te_groups = [''g'']\<rparr>"

lemma demo_ongoing: "txn_entry_of demo_txn_store ''tx'' = Some (demo_entry Ongoing)"
  by code_simp

definition demo_prepared :: txn_store where
  "demo_prepared = txn_apply demo_txn_store (healthy_slots, Prepare ''tx'' 7 1 True)"

lemma demo_prepared_entry: "txn_entry_of demo_prepared ''tx'' = Some (demo_entry PrepareCommit)"
  by code_simp

theorem txn_entries_well_typed_witness:
  "let st = txn_store_open (\<lambda>_. No_file) 2; ops = [(healthy_slots, Init ''tx'' 1000 7)] in
   txn_wf st \<and> (\<exists>e. txn_entry_of (foldl txn_apply st ops) ''tx'' = Some e \<and>
     te_epoch e \<le> i16_MAX \<and> te_groups e = [])"
proof -
  let ?e = "\<lparr>te_pid = 7, te_epoch = 0, te_partitions = [], te_ongoing_since_ms = 0,
    te_transaction_timeout_ms = 1000, te_state = TxnEmpty, te_groups = []\<rparr>"
  have wf: "txn_wf (txn_store_open (\<lambda>_. No_file) 2)"
    by (simp add: txn_wf_def txn_entry_of_def txn_store_open_def)
  have "txn_entry_of (foldl txn_apply (txn_store_open (\<lambda>_. No_file) 2)
      [(healthy_slots, Init ''tx'' 1000 7)]) ''tx'' = Some ?e" by code_simp
  with txn_entries_well_typed [OF wf this] wf show ?thesis by (simp add: Let_def)
qed



theorem end_txn_exactly_once_witness:
  "let r = end_txn healthy_slots demo_txn_store ''tx'' 7 1 True in
   snd (snd r) = [(''g'', 7, True)] \<and>
   end_txn healthy_slots (fst (snd r)) ''tx'' 7 1 True = (Inr default_outcome, fst (snd r), [])"
proof -
  let ?r = "end_txn healthy_slots demo_txn_store ''tx'' 7 1 True"
  let ?out = "\<lparr>eo_partitions = te_partitions (demo_entry Ongoing), eo_groups = [''g''], eo_transition_fired = True\<rparr>"
  have r: "fst ?r = Inr ?out" "snd (snd ?r) = [(''g'', 7, True)]" by code_simp+
  then have "?r = (Inr ?out, fst (snd ?r), snd (snd ?r))" by (metis prod.collapse)
  from end_txn_exactly_once [OF this, of healthy_slots] r show ?thesis
    by (simp add: healthy_slots_def Let_def)
qed

end
