(* ===== verification/OffsetStore.thy ===== *)
theory OffsetStore
  imports SegmentNames "HOL-Library.Option_ord"
begin

text \<open>
  Committed consumer offsets (\<open>crates/kaas-coordinator/src/offset_store.rs\<close>): an in-memory cache per
  broker, the transactional offsets staged by \<open>TxnOffsetCommit\<close>, and one JSON file per group on the
  volume all brokers share. The file carries the stamp of the assignment it was written under, and
  \<open>write_group\<close> refuses to overwrite a newer stamp: it interprets \<open>fenced_store\<close>. The cache is
  write-through; \<open>write_through\<close> says what that means and \<open>step_invariant\<close> carries it along runs.
\<close>

section \<open>Data\<close>

text \<open>The derived order of \<open>FenceStamp\<close> is lexicographic in field order.\<close>

datatype fence_stamp = FenceStamp (controller_epoch: int) (assignment_version: int)

instantiation fence_stamp :: linorder
begin

definition less_eq_fence_stamp :: "fence_stamp \<Rightarrow> fence_stamp \<Rightarrow> bool" where
  "less_eq_fence_stamp a b \<longleftrightarrow>
     controller_epoch a < controller_epoch b \<or>
     controller_epoch a = controller_epoch b \<and> assignment_version a \<le> assignment_version b"

definition less_fence_stamp :: "fence_stamp \<Rightarrow> fence_stamp \<Rightarrow> bool" where
  "less_fence_stamp a b \<longleftrightarrow>
     controller_epoch a < controller_epoch b \<or>
     controller_epoch a = controller_epoch b \<and> assignment_version a < assignment_version b"

instance
  by standard (auto simp: less_eq_fence_stamp_def less_fence_stamp_def intro: fence_stamp.expand)

end

definition zero_stamp :: fence_stamp where "zero_stamp = FenceStamp 0 0"

record offset_file_v2 =
  of_offsets :: "(string, int) hash_map"
  of_metadata :: "(string, string) hash_map"
  of_fence :: fence_stamp

datatype offset_file = Undecodable | Envelope offset_file_v2

type_synonym offset_disk = "(string, offset_file) hash_map"

record offset_store =
  os_cache :: "(string, (string, int) hash_map) hash_map"
  os_metadata :: "(string, (string, string) hash_map) hash_map"
  os_pending :: "(string \<times> int, (string, int) hash_map) hash_map"
  os_dirty :: "string list"

datatype offset_error = Offset_io | Offset_decode | FencedOffsetWrite fence_stamp fence_stamp

record offset_io =
  oi_read_fails :: bool
  oi_write_fails :: bool
  oi_remove_fails :: bool

definition healthy_offsets :: offset_io where
  "healthy_offsets = \<lparr>oi_read_fails = False, oi_write_fails = False, oi_remove_fails = False\<rparr>"

lemma healthy_offsets_simps [simp]:
  "\<not> oi_read_fails healthy_offsets" "\<not> oi_write_fails healthy_offsets" "\<not> oi_remove_fails healthy_offsets"
  by (simp_all add: healthy_offsets_def)

definition new_offset_store :: offset_store where
  "new_offset_store = \<lparr>os_cache = [], os_metadata = [], os_pending = [], os_dirty = []\<rparr>"

record fetch_spec =
  fs_topic :: string
  fs_partitions :: "int list"

section \<open>Keys\<close>

definition fmt_int :: "int \<Rightarrow> string" where
  "fmt_int v = (if v < 0 then CHR ''-'' # map digit_char (nat_digits 10 (nat (- v)))
                else map digit_char (nat_digits 10 (nat v)))"

definition i32_from_dec :: "string \<Rightarrow> int option" where
  "i32_from_dec s =
     (if s \<noteq> [] \<and> hd s = CHR ''-'' then
        (case nonempty_digits 10 (tl s) of
           None \<Rightarrow> None | Some v \<Rightarrow> if i32_MIN \<le> - int v then Some (- int v) else None)
      else
        (case nonempty_digits 10 (if s \<noteq> [] \<and> hd s = CHR ''+'' then tl s else s) of
           None \<Rightarrow> None | Some v \<Rightarrow> if int v \<le> i32_MAX then Some (int v) else None))"

definition offset_key :: "string \<Rightarrow> int \<Rightarrow> string" where
  "offset_key topic p = topic @ ''/'' @ fmt_int p"

text \<open>\<open>rsplit_once\<close> splits at the last occurrence.\<close>

definition rsplit_once :: "char \<Rightarrow> string \<Rightarrow> (string \<times> string) option" where
  "rsplit_once c s =
     (case split_once c (rev s) of None \<Rightarrow> None | Some (b, a) \<Rightarrow> Some (rev a, rev b))"

definition key_has_topic :: "string \<Rightarrow> string \<Rightarrow> bool" where
  "key_has_topic key topic =
     (case rsplit_once CHR ''/'' key of
        Some (t, p) \<Rightarrow> t = topic \<and> i32_from_dec p \<noteq> None | None \<Rightarrow> False)"

section \<open>The one write path\<close>

definition on_disk_fence :: "offset_io \<Rightarrow> offset_disk \<Rightarrow> string \<Rightarrow> fence_stamp option" where
  "on_disk_fence io disk group_id =
     (if oi_read_fails io then None
      else case hm_get disk group_id of Some (Envelope f) \<Rightarrow> Some (of_fence f) | _ \<Rightarrow> None)"

definition write_group ::
  "offset_io \<Rightarrow> fence_stamp \<Rightarrow> offset_store \<Rightarrow> offset_disk \<Rightarrow> string \<Rightarrow>
   (string, int) hash_map \<Rightarrow> (string, string) hash_map \<Rightarrow>
   (offset_error + unit) \<times> offset_store \<times> offset_disk" where
  "write_group io local st disk group_id offsets meta =
     (let dirtied = st\<lparr>os_dirty := List.insert group_id (os_dirty st)\<rparr>;
          write = (if oi_write_fails io then (Inl Offset_io, dirtied, disk)
                   else (Inr (), st\<lparr>os_dirty := removeAll group_id (os_dirty st)\<rparr>,
                     hm_insert group_id
                       (Envelope \<lparr>of_offsets = offsets, of_metadata = meta, of_fence = local\<rparr>) disk))
      in case on_disk_fence io disk group_id of
           Some on_disk \<Rightarrow> if on_disk > local then (Inl (FencedOffsetWrite on_disk local), dirtied, disk) else write
         | None \<Rightarrow> write)"

section \<open>Committed offsets\<close>

definition or_default :: "('k, 'v list) hash_map \<Rightarrow> 'k \<Rightarrow> 'v list" where
  "or_default m k = (case hm_get m k of None \<Rightarrow> [] | Some v \<Rightarrow> v)"

definition merge_offsets ::
  "(string, int) hash_map \<Rightarrow> (string, int) hash_map \<Rightarrow> (string, int) hash_map \<times> bool" where
  "merge_offsets cached offsets =
     foldl (\<lambda>(m, changed) (k, v). (hm_insert k v m, changed \<or> hm_get m k \<noteq> Some v)) (cached, False) offsets"

definition merge_metadata ::
  "(string, string) hash_map \<Rightarrow> (string, string) hash_map \<Rightarrow> (string, string) hash_map \<times> bool" where
  "merge_metadata cached meta =
     foldl (\<lambda>(m, changed) (k, v).
         if v = [] then (hm_remove k m, changed \<or> hm_get m k \<noteq> None)
         else (hm_insert k v m, changed \<or> hm_get m k \<noteq> Some v)) (cached, False) meta"

definition commit_with_metadata ::
  "offset_io \<Rightarrow> fence_stamp \<Rightarrow> offset_store \<Rightarrow> offset_disk \<Rightarrow> string \<Rightarrow>
   (string, int) hash_map \<Rightarrow> (string, string) hash_map \<Rightarrow>
   (offset_error + unit) \<times> offset_store \<times> offset_disk" where
  "commit_with_metadata io local st disk group_id offsets metadata =
     (let (off, changed1) = merge_offsets (or_default (os_cache st) group_id) offsets;
          (meta, changed2) = merge_metadata (or_default (os_metadata st) group_id) metadata;
          st1 = st\<lparr>os_cache := hm_insert group_id off (os_cache st),
                   os_metadata := hm_insert group_id meta (os_metadata st)\<rparr>
      in if \<not> (changed1 \<or> changed2 \<or> group_id \<in> set (os_dirty st)) then (Inr (), st1, disk)
         else write_group io local st1 disk group_id off meta)"

definition commit ::
  "offset_io \<Rightarrow> fence_stamp \<Rightarrow> offset_store \<Rightarrow> offset_disk \<Rightarrow> string \<Rightarrow> (string, int) hash_map \<Rightarrow>
   (offset_error + unit) \<times> offset_store \<times> offset_disk" where
  "commit io local st disk group_id offsets = commit_with_metadata io local st disk group_id offsets []"

section \<open>Pending offsets\<close>

definition store_pending :: "offset_store \<Rightarrow> string \<Rightarrow> int \<Rightarrow> (string, int) hash_map \<Rightarrow> offset_store" where
  "store_pending st group_id producer_id offsets =
     st\<lparr>os_pending := hm_insert (group_id, producer_id)
         (foldl (\<lambda>m (k, v). hm_insert k v m) (or_default (os_pending st) (group_id, producer_id)) offsets)
         (os_pending st)\<rparr>"

definition commit_pending ::
  "offset_io \<Rightarrow> fence_stamp \<Rightarrow> offset_store \<Rightarrow> offset_disk \<Rightarrow> string \<Rightarrow> int \<Rightarrow>
   (offset_error + unit) \<times> offset_store \<times> offset_disk" where
  "commit_pending io local st disk group_id producer_id =
     (let st1 = st\<lparr>os_pending := hm_remove (group_id, producer_id) (os_pending st)\<rparr>
      in case hm_get (os_pending st) (group_id, producer_id) of
           None \<Rightarrow> (Inr (), st1, disk)
         | Some offsets \<Rightarrow> commit io local st1 disk group_id offsets)"

definition discard_pending :: "offset_store \<Rightarrow> string \<Rightarrow> int \<Rightarrow> offset_store" where
  "discard_pending st group_id producer_id =
     st\<lparr>os_pending := hm_remove (group_id, producer_id) (os_pending st)\<rparr>"

definition pending_for :: "offset_store \<Rightarrow> string \<Rightarrow> int \<Rightarrow> (string, int) hash_map option" where
  "pending_for st group_id producer_id = hm_get (os_pending st) (group_id, producer_id)"

section \<open>Fetching\<close>

definition spec_keys :: "fetch_spec list \<Rightarrow> string list" where
  "spec_keys specs = concat (map (\<lambda>s. map (offset_key (fs_topic s)) (fs_partitions s)) specs)"

definition offset_fetch :: "offset_store \<Rightarrow> string \<Rightarrow> fetch_spec list \<Rightarrow> (string, int) hash_map" where
  "offset_fetch st group_id specs =
     foldl (\<lambda>out k. hm_insert k
         (case hm_get (or_default (os_cache st) group_id) k of Some v \<Rightarrow> v | None \<Rightarrow> - 1) out)
       [] (spec_keys specs)"

definition fetch_metadata :: "offset_store \<Rightarrow> string \<Rightarrow> fetch_spec list \<Rightarrow> (string, string) hash_map" where
  "fetch_metadata st group_id specs =
     foldl (\<lambda>out k. case hm_get (or_default (os_metadata st) group_id) k of
         Some v \<Rightarrow> hm_insert k v out | None \<Rightarrow> out) [] (spec_keys specs)"

definition has_group :: "offset_store \<Rightarrow> string \<Rightarrow> bool" where
  "has_group st group_id \<longleftrightarrow> hm_get (os_cache st) group_id \<noteq> None"

section \<open>Deleting, purging, loading\<close>

definition offset_delete ::
  "offset_io \<Rightarrow> offset_store \<Rightarrow> offset_disk \<Rightarrow> string \<Rightarrow> (offset_error + unit) \<times> offset_store \<times> offset_disk" where
  "offset_delete io st disk group_id =
     (let st1 = st\<lparr>os_cache := hm_remove group_id (os_cache st),
                   os_metadata := hm_remove group_id (os_metadata st),
                   os_dirty := removeAll group_id (os_dirty st)\<rparr>
      in if hm_get disk group_id \<noteq> None \<and> oi_remove_fails io then (Inl Offset_io, st1, disk)
         else (Inr (), st1, hm_remove group_id disk))"

text \<open>Drop keys from the cached offsets and metadata of a group and return what is left.\<close>

definition drop_keys ::
  "offset_store \<Rightarrow> string \<Rightarrow> (string, int) hash_map \<Rightarrow> string list \<Rightarrow>
   offset_store \<times> (string, int) hash_map \<times> (string, string) hash_map" where
  "drop_keys st group_id g ks =
     (let off = foldl (\<lambda>m k. hm_remove k m) g ks;
          metas = (case hm_get (os_metadata st) group_id of
                     None \<Rightarrow> os_metadata st
                   | Some m \<Rightarrow> hm_insert group_id (foldl (\<lambda>m k. hm_remove k m) m ks) (os_metadata st))
      in (st\<lparr>os_cache := hm_insert group_id off (os_cache st), os_metadata := metas\<rparr>,
          off, or_default metas group_id))"

definition delete_partitions ::
  "offset_io \<Rightarrow> fence_stamp \<Rightarrow> offset_store \<Rightarrow> offset_disk \<Rightarrow> string \<Rightarrow> string list \<Rightarrow>
   (offset_error + string list) \<times> offset_store \<times> offset_disk" where
  "delete_partitions io local st disk group_id ks =
     (case hm_get (os_cache st) group_id of
        None \<Rightarrow> (Inr [], st, disk)
      | Some g \<Rightarrow>
          let removed = remdups (filter (\<lambda>k. hm_get g k \<noteq> None) ks);
              (st1, off, meta) = drop_keys st group_id g removed
          in case write_group io local st1 disk group_id off meta of
               (Inl e, st2, disk2) \<Rightarrow> (Inl e, st2, disk2)
             | (Inr _, st2, disk2) \<Rightarrow> (Inr removed, st2, disk2))"

definition group_ids_on_disk :: "offset_io \<Rightarrow> offset_disk \<Rightarrow> string list" where
  "group_ids_on_disk io disk = (if oi_read_fails io then [] else map fst disk)"

definition decode_offsets_file ::
  "offset_file \<Rightarrow> offset_error + (string, int) hash_map \<times> (string, string) hash_map option" where
  "decode_offsets_file f =
     (case f of
        Undecodable \<Rightarrow> Inl Offset_decode
      | Envelope v2 \<Rightarrow> Inr (of_offsets v2, if of_metadata v2 = [] then None else Some (of_metadata v2)))"

definition purge_topic ::
  "offset_io \<Rightarrow> fence_stamp \<Rightarrow> offset_store \<Rightarrow> offset_disk \<Rightarrow> string \<Rightarrow> string \<Rightarrow>
   (offset_error + nat) \<times> offset_store \<times> offset_disk" where
  "purge_topic io local st disk group_id topic =
     (case hm_get (os_cache st) group_id of
        Some g \<Rightarrow>
          let doomed = filter (\<lambda>k. key_has_topic k topic) (map fst g);
              (st1, off, meta) = drop_keys st group_id g doomed
          in if doomed = [] then (Inr 0, st1, disk)
             else (case write_group io local st1 disk group_id off meta of
                 (Inl e, st2, disk2) \<Rightarrow> (Inl e, st2, disk2)
               | (Inr _, st2, disk2) \<Rightarrow> (Inr (length doomed), st2, disk2))
      | None \<Rightarrow>
          (case hm_get disk group_id of
             None \<Rightarrow> (Inr 0, st, disk)
           | Some f \<Rightarrow>
               if oi_read_fails io then (Inl Offset_io, st, disk)
               else case decode_offsets_file f of
                 Inl e \<Rightarrow> (Inl e, st, disk)
               | Inr (offsets, metadata) \<Rightarrow>
                   let doomed = filter (\<lambda>k. key_has_topic k topic) (map fst offsets)
                   in if doomed = [] then (Inr 0, st, disk)
                      else
                        (case write_group io local st disk group_id
                                (foldl (\<lambda>m k. hm_remove k m) offsets doomed)
                                (foldl (\<lambda>m k. hm_remove k m) (case metadata of None \<Rightarrow> [] | Some m \<Rightarrow> m) doomed) of
                           (Inl e, st2, disk2) \<Rightarrow> (Inl e, st2, disk2)
                         | (Inr _, st2, disk2) \<Rightarrow> (Inr (length doomed), st2, disk2))))"

definition offset_load ::
  "offset_io \<Rightarrow> offset_store \<Rightarrow> offset_disk \<Rightarrow> string \<Rightarrow> (offset_error + unit) \<times> offset_store" where
  "offset_load io st disk group_id =
     (case hm_get disk group_id of
        None \<Rightarrow> (Inr (), st)
      | Some f \<Rightarrow>
          if oi_read_fails io then (Inl Offset_io, st)
          else case decode_offsets_file f of
            Inl e \<Rightarrow> (Inl e, st)
          | Inr (offsets, metadata) \<Rightarrow>
              (Inr (), st\<lparr>os_cache := hm_insert group_id offsets (os_cache st),
                         os_metadata := (case metadata of
                             Some m \<Rightarrow> hm_insert group_id m (os_metadata st)
                           | None \<Rightarrow> os_metadata st)\<rparr>))"

section \<open>What the store answers\<close>

definition committed :: "offset_store \<Rightarrow> string \<Rightarrow> string \<Rightarrow> int option" where
  "committed st group_id = hm_get (or_default (os_cache st) group_id)"

definition disk_offsets :: "offset_disk \<Rightarrow> string \<Rightarrow> string \<Rightarrow> int option" where
  "disk_offsets disk group_id =
     (case hm_get disk group_id of Some (Envelope f) \<Rightarrow> hm_get (of_offsets f) | _ \<Rightarrow> Map.empty)"

lemma or_default_insert [simp]:
  "or_default (hm_insert g v m) g' = (if g' = g then v else or_default m g')"
  by (simp add: or_default_def)

lemma or_default_remove [simp]:
  "or_default (hm_remove g m) g' = (if g' = g then [] else or_default m g')"
  by (simp add: or_default_def)

lemma or_default_Nil [simp]: "or_default [] g = []"
  by (simp add: or_default_def)

lemma fetch_get:
  "hm_get (offset_fetch st g specs) k =
     (if k \<in> set (spec_keys specs)
      then Some (case committed st g k of Some v \<Rightarrow> v | None \<Rightarrow> - 1) else None)"
proof -
  have "hm_get (foldl (\<lambda>out k. hm_insert k (f k) out) out ks) k =
      (if k \<in> set ks then Some (f k) else hm_get out k)" for f :: "string \<Rightarrow> int" and out ks
    by (induction ks arbitrary: out) auto
  then show ?thesis by (simp add: offset_fetch_def committed_def)
qed

lemma fetch_cong: "committed st g = committed st' g \<Longrightarrow> offset_fetch st g specs = offset_fetch st' g specs"
  by (simp add: offset_fetch_def committed_def fun_eq_iff)

lemma merge_offsets_acc:
  "hm_wf offs \<Longrightarrow>
   hm_get (fst (foldl (\<lambda>(m, ch) (k, v). (hm_insert k v m, ch \<or> hm_get m k \<noteq> Some v)) (m, ch) offs)) =
     hm_get m ++ hm_get offs"
proof (induction offs arbitrary: m ch)
  case (Cons x offs)
  obtain k v where x: "x = (k, v)" by (cases x)
  have "k \<notin> dom (map_of offs)" using Cons.prems x by (simp add: dom_map_of_conv_image_fst)
  then show ?case
    using Cons x by (auto simp: fun_eq_iff map_add_def split: option.splits)
qed simp

lemma merge_offsets_get: "hm_wf offs \<Longrightarrow> hm_get (fst (merge_offsets m offs)) = hm_get m ++ hm_get offs"
  unfolding merge_offsets_def by (rule merge_offsets_acc)

lemma merge_unchanged_acc:
  "snd (foldl (\<lambda>(m, ch) (k, v). (hm_insert k v m, ch \<or> hm_get m k \<noteq> Some v)) (m, ch) offs) = False \<Longrightarrow>
   \<not> ch \<and> hm_get (fst (foldl (\<lambda>(m, ch) (k, v). (hm_insert k v m, ch \<or> hm_get m k \<noteq> Some v)) (m, ch) offs)) = hm_get m"
proof (induction offs arbitrary: m ch)
  case (Cons x offs)
  obtain k v where x: "x = (k, v)" by (cases x)
  from Cons.IH [of "hm_insert k v m" "ch \<or> hm_get m k \<noteq> Some v"] Cons.prems show ?case
    by (auto simp: x fun_upd_idem_iff)
qed simp

lemma merge_unchanged: "\<not> snd (merge_offsets m offs) \<Longrightarrow> hm_get (fst (merge_offsets m offs)) = hm_get m"
  using merge_unchanged_acc [of m False offs] by (simp add: merge_offsets_def)

lemma merge_offsets_nonempty:
  assumes "offs \<noteq> []"
  shows "\<exists>k v. hm_get (fst (merge_offsets m offs)) k = Some v"
proof (cases offs rule: rev_cases)
  case (snoc xs x)
  obtain k v where "x = (k, v)" by (cases x)
  with snoc have "hm_get (fst (merge_offsets m offs)) k = Some v"
    by (simp add: merge_offsets_def split: prod.splits)
  then show ?thesis by blast
qed (use assms in simp)

lemma write_group_frame:
  assumes "write_group io local st disk g off meta = (r, st', disk')"
  shows "os_cache st' = os_cache st" "os_pending st' = os_pending st" "os_metadata st' = os_metadata st"
    "g' \<noteq> g \<Longrightarrow> hm_get disk' g' = hm_get disk g'"
    "g' \<noteq> g \<Longrightarrow> g' \<in> set (os_dirty st') \<longleftrightarrow> g' \<in> set (os_dirty st)"
    "g \<notin> set (os_dirty st') \<Longrightarrow> hm_get disk' g =
       Some (Envelope \<lparr>of_offsets = off, of_metadata = meta, of_fence = local\<rparr>)"
    "r = Inr () \<longleftrightarrow> g \<notin> set (os_dirty st')"
  using assms
  by (auto simp: write_group_def Let_def split: if_splits option.splits)

section \<open>The write-through cache\<close>

definition write_through :: "offset_store \<times> offset_disk \<Rightarrow> bool" where
  "write_through = (\<lambda>(st, disk). \<forall>g m. hm_get (os_cache st) g = Some m \<longrightarrow>
     g \<notin> set (os_dirty st) \<longrightarrow> hm_get m \<subseteq>\<^sub>m disk_offsets disk g)"

datatype offset_op =
    Op_commit string "(string, int) hash_map" "(string, string) hash_map"
  | Op_store_pending string int "(string, int) hash_map"
  | Op_commit_pending string int
  | Op_discard_pending string int
  | Op_delete string
  | Op_delete_partitions string "string list"
  | Op_purge string string
  | Op_load string

fun offset_apply ::
  "offset_store \<times> offset_disk \<Rightarrow> offset_io \<times> fence_stamp \<times> offset_op \<Rightarrow> offset_store \<times> offset_disk" where
  "offset_apply (st, disk) (io, local, Op_commit g offs meta) = snd (commit_with_metadata io local st disk g offs meta)"
| "offset_apply (st, disk) (io, local, Op_store_pending g pid offs) = (store_pending st g pid offs, disk)"
| "offset_apply (st, disk) (io, local, Op_commit_pending g pid) = snd (commit_pending io local st disk g pid)"
| "offset_apply (st, disk) (io, local, Op_discard_pending g pid) = (discard_pending st g pid, disk)"
| "offset_apply (st, disk) (io, local, Op_delete g) = snd (offset_delete io st disk g)"
| "offset_apply (st, disk) (io, local, Op_delete_partitions g ks) = snd (delete_partitions io local st disk g ks)"
| "offset_apply (st, disk) (io, local, Op_purge g topic) = snd (purge_topic io local st disk g topic)"
| "offset_apply (st, disk) (io, local, Op_load g) = (snd (offset_load io st disk g), disk)"

lemma write_through_write:
  assumes "write_through (st, disk)" "write_group io local st1 disk g off meta = (r, st', disk')"
    and "os_cache st1 = hm_insert g off (os_cache st) \<or>
      os_cache st1 = os_cache st \<and> hm_get (os_cache st) g = None"
    and "os_dirty st1 = os_dirty st"
  shows "write_through (st', disk')"
proof -
  note fr = write_group_frame [OF assms(2)]
  have "hm_get m \<subseteq>\<^sub>m disk_offsets disk' g'"
    if "hm_get (os_cache st') g' = Some m" "g' \<notin> set (os_dirty st')" for g' m
  proof (cases "g' = g")
    case True
    with that fr(1) assms(3) have "m = off" by auto
    with True that(2) fr(6) show ?thesis by (simp add: disk_offsets_def)
  next
    case False
    with that fr(1) assms(3) have "hm_get (os_cache st) g' = Some m" by auto
    with assms(1,4) that(2) fr(5) [OF False] have "hm_get m \<subseteq>\<^sub>m disk_offsets disk g'"
      by (simp add: write_through_def)
    with fr(4) [OF False] show ?thesis by (simp add: disk_offsets_def)
  qed
  then show ?thesis by (simp add: write_through_def)
qed

lemma commit_eq:
  assumes "merge_offsets (or_default (os_cache st) g) offs = (off, c1)"
    and "merge_metadata (or_default (os_metadata st) g) meta = (me, c2)"
  shows "commit_with_metadata io local st disk g offs meta =
    (if c1 \<or> c2 \<or> g \<in> set (os_dirty st)
     then write_group io local (st\<lparr>os_cache := hm_insert g off (os_cache st),
            os_metadata := hm_insert g me (os_metadata st)\<rparr>) disk g off me
     else (Inr (), st\<lparr>os_cache := hm_insert g off (os_cache st),
            os_metadata := hm_insert g me (os_metadata st)\<rparr>, disk))"
  using assms by (auto simp: commit_with_metadata_def Let_def)

lemma commit_frame:
  assumes "commit_with_metadata io local st disk g offs meta = (r, st', disk')"
  shows "os_cache st' = hm_insert g (fst (merge_offsets (or_default (os_cache st) g) offs)) (os_cache st)"
    "os_pending st' = os_pending st" "r = Inr () \<Longrightarrow> g \<notin> set (os_dirty st')"
proof -
  obtain off c1 where m1: "merge_offsets (or_default (os_cache st) g) offs = (off, c1)" by (rule prod.exhaust)
  obtain me c2 where m2: "merge_metadata (or_default (os_metadata st) g) meta = (me, c2)" by (rule prod.exhaust)
  let ?st1 = "st\<lparr>os_cache := hm_insert g off (os_cache st), os_metadata := hm_insert g me (os_metadata st)\<rparr>"
  from assms have "write_group io local ?st1 disk g off me = (r, st', disk') \<or>
      st' = ?st1 \<and> g \<notin> set (os_dirty st)"
    by (auto simp: commit_eq [OF m1 m2] split: if_splits)
  then show "os_cache st' = hm_insert g (fst (merge_offsets (or_default (os_cache st) g) offs)) (os_cache st)"
    "os_pending st' = os_pending st" "r = Inr () \<Longrightarrow> g \<notin> set (os_dirty st')"
    using write_group_frame(1,2,7) [of io local ?st1 disk g off me r st' disk'] by (auto simp: m1)
qed

lemma write_through_commit:
  assumes "write_through (st, disk)"
  shows "write_through (snd (commit_with_metadata io local st disk g offs meta))"
proof -
  obtain off c1 where m1: "merge_offsets (or_default (os_cache st) g) offs = (off, c1)" by (rule prod.exhaust)
  obtain me c2 where m2: "merge_metadata (or_default (os_metadata st) g) meta = (me, c2)" by (rule prod.exhaust)
  let ?st1 = "st\<lparr>os_cache := hm_insert g off (os_cache st), os_metadata := hm_insert g me (os_metadata st)\<rparr>"
  show ?thesis
  proof (cases "c1 \<or> c2 \<or> g \<in> set (os_dirty st)")
    case True
    obtain r st' disk' where w: "write_group io local ?st1 disk g off me = (r, st', disk')"
      by (metis prod.exhaust)
    have "write_through (st', disk')" by (rule write_through_write [OF assms w]) auto
    with True w show ?thesis by (simp add: commit_eq [OF m1 m2])
  next
    case False
    have off: "hm_get off = hm_get (or_default (os_cache st) g)"
      using merge_unchanged [of "or_default (os_cache st) g" offs] m1 False by simp
    have "hm_get off \<subseteq>\<^sub>m disk_offsets disk g"
      using assms False off unfolding write_through_def or_default_def by (auto split: option.splits)
    with assms False show ?thesis by (simp add: commit_eq [OF m1 m2] write_through_def)
  qed
qed

lemma write_through_cong:
  "write_through (st, disk) \<Longrightarrow> os_cache st' = os_cache st \<Longrightarrow> os_dirty st' = os_dirty st \<Longrightarrow>
   write_through (st', disk)"
  by (simp add: write_through_def)

lemma write_through_keys:
  assumes "write_through (st, disk)" "hm_get (os_cache st) g = Some m" "drop_keys st g m ks = (st1, off, meta)"
  shows "write_through (snd (case write_group io local st1 disk g off meta of
      (Inl e, st2, disk2) \<Rightarrow> (Inl e, st2, disk2) | (Inr _, st2, disk2) \<Rightarrow> (Inr x, st2, disk2)))"
proof -
  have st1: "os_cache st1 = hm_insert g off (os_cache st)" "os_dirty st1 = os_dirty st"
    using assms(3) by (auto simp: drop_keys_def Let_def)
  obtain r st' disk' where w: "write_group io local st1 disk g off meta = (r, st', disk')"
    by (metis prod.exhaust)
  have "write_through (st', disk')"
    by (rule write_through_write [OF assms(1) w]) (use st1 assms(2) in auto)
  then show ?thesis by (cases r) (simp_all add: w)
qed

lemma write_through_purge:
  assumes "write_through (st, disk)"
  shows "write_through (snd (purge_topic io local st disk g topic))"
proof (cases "hm_get (os_cache st) g")
  case (Some m)
  define doomed where "doomed = filter (\<lambda>k. key_has_topic k topic) (map fst m)"
  obtain st1 off meta where d: "drop_keys st g m doomed = (st1, off, meta)" by (metis prod.exhaust)
  show ?thesis
  proof (cases "doomed = []")
    case True
    then have "os_cache st1 = hm_insert g m (os_cache st)" "os_dirty st1 = os_dirty st"
      using d by (auto simp: drop_keys_def Let_def)
    with assms Some have "write_through (st1, disk)" by (simp add: write_through_def)
    then show ?thesis using Some d True by (simp add: purge_topic_def Let_def doomed_def [symmetric])
  next
    case False
    from write_through_keys [OF assms Some d] show ?thesis
      using Some d False by (simp add: purge_topic_def Let_def doomed_def [symmetric])
  qed
next
  case None
  have w: "write_through (snd (write_group io local st disk g off meta))" for off meta
  proof -
    obtain r st' disk' where w: "write_group io local st disk g off meta = (r, st', disk')"
      by (metis prod.exhaust)
    show ?thesis using write_through_write [OF assms w] None by (simp add: w)
  qed
  have c: "snd (case write_group io local st disk g off meta of
      (Inl e, st2, disk2) \<Rightarrow> (Inl e, st2, disk2) | (Inr _, st2, disk2) \<Rightarrow> (Inr n, st2, disk2)) =
    snd (write_group io local st disk g off meta)" for off meta and n :: nat
    by (auto split: prod.splits sum.splits)
  show ?thesis
    using assms None
    by (auto simp: purge_topic_def Let_def c w decode_offsets_file_def
        split: option.splits sum.splits prod.splits offset_file.splits)
qed

lemma write_through_load:
  assumes "write_through (st, disk)"
  shows "write_through (snd (offset_load io st disk g), disk)"
proof (cases "\<exists>f. hm_get disk g = Some (Envelope f) \<and> \<not> oi_read_fails io")
  case True
  then obtain f where f: "hm_get disk g = Some (Envelope f)" "\<not> oi_read_fails io" by blast
  then have "disk_offsets disk g = hm_get (of_offsets f)" by (simp add: disk_offsets_def)
  with assms f show ?thesis
    by (simp add: offset_load_def decode_offsets_file_def write_through_def)
next
  case False
  then have "snd (offset_load io st disk g) = st"
    by (auto simp: offset_load_def decode_offsets_file_def split: option.splits offset_file.splits)
  with assms show ?thesis by simp
qed

interpretation offset_cache: step_invariant offset_apply write_through
proof
  fix s :: "offset_store \<times> offset_disk" and ev :: "offset_io \<times> fence_stamp \<times> offset_op"
  assume wt: "write_through s"
  obtain st disk where s: "s = (st, disk)" by (rule prod.exhaust)
  obtain io local op where ev: "ev = (io, local, op)" by (metis prod.exhaust)
  note wt' = wt [unfolded s]
  show "write_through (offset_apply s ev)"
  proof (cases op)
    case (Op_commit_pending g pid)
    have "write_through (st\<lparr>os_pending := hm_remove (g, pid) (os_pending st)\<rparr>, disk)"
      by (rule write_through_cong [OF wt']) simp_all
    then show ?thesis
      by (auto simp: s ev Op_commit_pending commit_pending_def commit_def Let_def
          write_through_commit split: option.splits)
  next
    case (Op_delete g)
    with wt' show ?thesis
      by (auto simp: s ev offset_delete_def Let_def write_through_def disk_offsets_def)
  next
    case (Op_delete_partitions g ks)
    show ?thesis
    proof (cases "hm_get (os_cache st) g")
      case (Some m)
      obtain st1 off meta where "drop_keys st g m (remdups (filter (\<lambda>k. hm_get m k \<noteq> None) ks)) = (st1, off, meta)"
        by (metis prod.exhaust)
      with write_through_keys [OF wt' Some this] Some Op_delete_partitions show ?thesis
        by (simp add: s ev delete_partitions_def Let_def)
    qed (simp add: s ev Op_delete_partitions delete_partitions_def wt')
  qed (auto simp: s ev write_through_commit [OF wt'] write_through_purge [OF wt'] write_through_load [OF wt']
      store_pending_def discard_pending_def intro: write_through_cong [OF wt'])
qed

section \<open>The group file as a fenced store\<close>

definition offset_stamp :: "string \<Rightarrow> offset_disk \<Rightarrow> fence_stamp option" where
  "offset_stamp g disk = on_disk_fence healthy_offsets disk g"

definition offset_put ::
  "string \<Rightarrow> fence_stamp option \<Rightarrow> (string, int) hash_map \<times> (string, string) hash_map \<Rightarrow>
   offset_disk \<Rightarrow> offset_disk" where
  "offset_put g t v disk =
     (case t of None \<Rightarrow> disk
      | Some local \<Rightarrow> snd (snd (write_group healthy_offsets local new_offset_store disk g (fst v) (snd v))))"

lemma write_group_readable:
  assumes "\<not> oi_read_fails io"
  shows "write_group io local st disk g off meta =
    (if Some local < offset_stamp g disk
     then (Inl (FencedOffsetWrite (the (offset_stamp g disk)) local),
           st\<lparr>os_dirty := List.insert g (os_dirty st)\<rparr>, disk)
     else if oi_write_fails io then (Inl Offset_io, st\<lparr>os_dirty := List.insert g (os_dirty st)\<rparr>, disk)
     else (Inr (), st\<lparr>os_dirty := removeAll g (os_dirty st)\<rparr>,
       hm_insert g (Envelope \<lparr>of_offsets = off, of_metadata = meta, of_fence = local\<rparr>) disk))"
  using assms
  by (auto simp: write_group_def offset_stamp_def on_disk_fence_def Let_def
      split: option.splits offset_file.splits)

lemma offset_stamp_insert [simp]: "offset_stamp g (hm_insert g (Envelope f) disk) = Some (of_fence f)"
  by (simp add: offset_stamp_def on_disk_fence_def)

interpretation offset_fence: fenced_store "offset_stamp g" "offset_put g" for g
proof
  fix t :: "fence_stamp option" and s v
  show "offset_put g t v s = s" if "t < offset_stamp g s"
    using that by (cases t) (simp_all add: offset_put_def write_group_readable)
  show "offset_stamp g (offset_put g t v s) = t" if "offset_stamp g s \<le> t"
    using that by (cases t; cases "offset_stamp g s") (auto simp: offset_put_def write_group_readable)
qed

text \<open>Writes of several brokers, each with its own environment and assignment stamp.\<close>

definition offset_writers ::
  "string \<Rightarrow> (offset_io \<times> fence_stamp \<times> (string, int) hash_map \<times> (string, string) hash_map) list \<Rightarrow>
   offset_disk \<Rightarrow> offset_disk" where
  "offset_writers g ws disk =
     foldl (\<lambda>disk (io, local, off, meta). snd (snd (write_group io local new_offset_store disk g off meta))) disk ws"

lemma offset_writers_puts:
  assumes "list_all (\<lambda>(io, _). \<not> oi_read_fails io) ws"
  shows "offset_writers g ws disk =
    foldl (\<lambda>d (t, v). offset_put g t v d) disk
      (map (\<lambda>(io, local, v). (Some local, v)) (filter (\<lambda>(io, _). \<not> oi_write_fails io) ws))"
  using assms
proof (induction ws arbitrary: disk)
  case (Cons w ws)
  obtain io local off meta where w: "w = (io, local, off, meta)" by (metis prod.exhaust)
  have "snd (snd (write_group io local new_offset_store disk g off meta)) =
      (if oi_write_fails io then disk else offset_put g (Some local) (off, meta) disk)"
    using Cons.prems
    by (simp add: w offset_put_def write_group_readable)
  with Cons show ?case by (simp add: w offset_writers_def)
qed (simp add: offset_writers_def)

section \<open>Properties\<close>




section \<open>Findings\<close>

text \<open>A refused commit is visible: \<open>commit_with_metadata\<close> changes the cache before the write, so after
  a write that failed or was fenced \<open>OffsetFetch\<close> answers the offset whose commit was refused.\<close>

lemma refused_commit_visible:
  assumes "commit_with_metadata io local st disk g [(k, v)] [] = (Inl e, st', disk')"
  shows "committed st' g k = Some v"
  using commit_frame(1) [OF assms] merge_offsets_get [of "[(k, v)]" "or_default (os_cache st) g"]
  by (simp add: committed_def)

text \<open>\<open>load\<close> leaves the cached metadata of the group when the file has none, so metadata another
  coordinator cleared comes back.\<close>

lemma load_keeps_stale_metadata:
  "fetch_metadata (snd (offset_load healthy_offsets
      (new_offset_store\<lparr>os_metadata := [(''g'', [(''t/0'', ''old'')])]\<rparr>)
      [(''g'', Envelope \<lparr>of_offsets = [(''t/0'', 5)], of_metadata = [], of_fence = zero_stamp\<rparr>)] ''g''))
    ''g'' [\<lparr>fs_topic = ''t'', fs_partitions = [0]\<rparr>] = [(''t/0'', ''old'')]"
  by code_simp

section \<open>Witnesses\<close>

definition demo_offset_ops :: "(offset_io \<times> fence_stamp \<times> offset_op) list" where
  "demo_offset_ops =
     [(healthy_offsets\<lparr>oi_write_fails := True\<rparr>, FenceStamp 1 1, Op_commit ''g'' [(''t/0'', 4)] [])]"


definition demo_offset_disk :: offset_disk where
  "demo_offset_disk =
     [(''g'', Envelope \<lparr>of_offsets = [(''t/0'', 5)], of_metadata = [], of_fence = FenceStamp 2 1\<rparr>)]"



end
