(* ===== verification/Codec.thy ===== *)
theory Codec
  imports Prelude
begin

unbundle bit_operations_syntax

text \<open>
  The wire primitives of the Kafka protocol (\<open>crates/kaas-codec\<close>: \<open>primitives.rs\<close>, \<open>tagged.rs\<close>,
  \<open>headers.rs\<close>, \<open>frame.rs\<close>). A decoder is a function from the remaining buffer to an error or a
  value and the buffer after it; an encoder returns the bytes it appends, or an error. A \<open>str\<close> is
  its UTF-8 byte string, a \<open>u64\<close> a \<open>64 word\<close>, \<open>usize\<close> has 64 bits.

  \<open>wire_codec\<close> is the contract of an encoder/decoder pair: what was written is read back and the
  rest of the buffer is untouched. Its consequences (encodings are injective and self-delimiting,
  sequences round-trip) are proved once and every primitive interprets it.
\<close>

datatype codec_error =
    UnexpectedEof | InvalidUtf8 | InvalidLength int nat | InvalidUvarint | InvalidUuid
  | UnexpectedNull | LengthOverflow

type_synonym 'a decoder = "bytes \<Rightarrow> codec_error + 'a \<times> bytes"

text \<open>The sequencing behind the \<open>?\<close> operator.\<close>

definition and_then :: "'a decoder \<Rightarrow> ('a \<Rightarrow> 'b decoder) \<Rightarrow> 'b decoder" where
  "and_then p f buf = (case p buf of Inl e \<Rightarrow> Inl e | Inr (x, rest) \<Rightarrow> f x rest)"

definition pure_dec :: "'a \<Rightarrow> 'a decoder" where
  "pure_dec x buf = Inr (x, buf)"

definition fail_dec :: "codec_error \<Rightarrow> 'a decoder" where
  "fail_dec e buf = Inl e"

section \<open>Fixed-width integers\<close>

definition require :: "bytes \<Rightarrow> nat \<Rightarrow> codec_error + unit" where
  "require buf n = (if length buf < n then Inl UnexpectedEof else Inr ())"

definition read_raw :: "nat \<Rightarrow> bytes decoder" where
  "read_raw n buf =
     (case require buf n of Inl e \<Rightarrow> Inl e | Inr _ \<Rightarrow> Inr (take n buf, drop n buf))"

definition be_i8 :: "bytes \<Rightarrow> int" where "be_i8 bs = signed_take_bit 7 (be_uint bs)"

definition read_i8 :: "int decoder" where "read_i8 = and_then (read_raw 1) (\<lambda>b. pure_dec (be_i8 b))"
definition read_i16 :: "int decoder" where "read_i16 = and_then (read_raw 2) (\<lambda>b. pure_dec (be_i16 b))"
definition read_i32 :: "int decoder" where "read_i32 = and_then (read_raw 4) (\<lambda>b. pure_dec (be_i32 b))"
definition read_i64 :: "int decoder" where "read_i64 = and_then (read_raw 8) (\<lambda>b. pure_dec (be_i64 b))"
definition read_u32 :: "int decoder" where "read_u32 = and_then (read_raw 4) (\<lambda>b. pure_dec (be_uint b))"
definition read_u8 :: "byte decoder" where "read_u8 = and_then (read_raw 1) (\<lambda>b. pure_dec (hd b))"
definition read_bool :: "bool decoder" where "read_bool = and_then read_u8 (\<lambda>b. pure_dec (b \<noteq> 0))"

definition write_i8 :: "int \<Rightarrow> bytes" where "write_i8 v = be_bytes 1 v"
definition write_i16 :: "int \<Rightarrow> bytes" where "write_i16 v = be_bytes 2 v"
definition write_i32 :: "int \<Rightarrow> bytes" where "write_i32 v = be_bytes 4 v"
definition write_i64 :: "int \<Rightarrow> bytes" where "write_i64 v = be_bytes 8 v"
definition write_u32 :: "int \<Rightarrow> bytes" where "write_u32 v = be_bytes 4 v"
definition write_u8 :: "byte \<Rightarrow> bytes" where "write_u8 v = [v]"
definition write_bool :: "bool \<Rightarrow> bytes" where "write_bool v = [if v then 1 else 0]"

section \<open>Varints\<close>

definition MAX_UVARINT_LEN :: nat where "MAX_UVARINT_LEN = 10"

function read_uvarint_loop :: "nat \<Rightarrow> 64 word \<Rightarrow> nat \<Rightarrow> bytes \<Rightarrow> codec_error + 64 word \<times> bytes" where
  "read_uvarint_loop i x shift buf =
     (if i < MAX_UVARINT_LEN then
        (case read_u8 buf of
           Inl e \<Rightarrow> Inl e
         | Inr (b, rest) \<Rightarrow>
             if b < 0x80 then
               if i = MAX_UVARINT_LEN - 1 \<and> b > 1 then Inl InvalidUvarint
               else Inr (x OR push_bit shift (ucast b), rest)
             else read_uvarint_loop (i + 1) (x OR push_bit shift (ucast (b AND 0x7f))) (shift + 7) rest)
      else Inl InvalidUvarint)"
  by pat_completeness auto
termination by (relation "measure (\<lambda>(i, _). MAX_UVARINT_LEN - i)") auto

definition read_uvarint :: "64 word decoder" where
  "read_uvarint buf = read_uvarint_loop 0 0 0 buf"

lemma unat_drop_bit_less: "x \<ge> 0x80 \<Longrightarrow> unat (drop_bit 7 x) < unat (x :: 64 word)"
  by (simp add: drop_bit_eq_div word_le_nat_alt unat_div)

function write_uvarint :: "64 word \<Rightarrow> bytes" where
  "write_uvarint x =
     (if x \<ge> 0x80 then (ucast (x AND 0x7f) OR 0x80) # write_uvarint (drop_bit 7 x)
      else [ucast (x AND 0x7f)])"
  by pat_completeness auto
termination by (relation "measure unat") (simp_all add: unat_drop_bit_less)

declare read_uvarint_loop.simps [simp del] write_uvarint.simps [simp del]

definition zigzag_decode :: "64 word \<Rightarrow> int" where
  "zigzag_decode u = sint (drop_bit 1 u XOR (- (u AND 1)))"

definition zigzag_encode :: "int \<Rightarrow> 64 word" where
  "zigzag_encode n = push_bit 1 (word_of_int n) XOR signed_drop_bit 63 (word_of_int n)"

definition read_varint :: "int decoder" where
  "read_varint = and_then read_uvarint (\<lambda>u. pure_dec (zigzag_decode u))"

definition write_varint :: "int \<Rightarrow> bytes" where
  "write_varint v = write_uvarint (zigzag_encode v)"

section \<open>Lengths\<close>

definition len_i16 :: "nat \<Rightarrow> codec_error + int" where
  "len_i16 n = (if int n \<le> i16_MAX then Inr (int n) else Inl LengthOverflow)"

definition len_i32 :: "nat \<Rightarrow> codec_error + int" where
  "len_i32 n = (if int n \<le> i32_MAX then Inr (int n) else Inl LengthOverflow)"

definition u64_max :: int where "u64_max = 18446744073709551615"

definition compact_len_u64 :: "nat \<Rightarrow> codec_error + 64 word" where
  "compact_len_u64 n = (if int n + 1 \<le> u64_max then Inr (of_nat (n + 1)) else Inl LengthOverflow)"

definition checked_compact_len :: "64 word \<Rightarrow> nat \<Rightarrow> codec_error + nat" where
  "checked_compact_len u mx =
     (if uint (u - 1) > int mx then Inl (InvalidLength (min (uint (u - 1)) i64_MAX) mx)
      else Inr (nat (uint (u - 1))))"

section \<open>Strings and byte strings\<close>

text \<open>\<open>str::from_utf8\<close>: the well-formed byte sequences of the Unicode standard.\<close>

definition cont :: "byte \<Rightarrow> bool" where "cont b \<longleftrightarrow> 0x80 \<le> b \<and> b \<le> 0xBF"

fun utf8_valid :: "bytes \<Rightarrow> bool" where
  "utf8_valid [] = True"
| "utf8_valid (a # bs) =
     (if a < 0x80 then utf8_valid bs
      else if 0xC2 \<le> a \<and> a \<le> 0xDF then
        (case bs of b # r \<Rightarrow> cont b \<and> utf8_valid r | _ \<Rightarrow> False)
      else if 0xE0 \<le> a \<and> a \<le> 0xEF then
        (case bs of b # c # r \<Rightarrow>
             (if a = 0xE0 then 0xA0 \<le> b \<and> b \<le> 0xBF else if a = 0xED then 0x80 \<le> b \<and> b \<le> 0x9F else cont b)
             \<and> cont c \<and> utf8_valid r
         | _ \<Rightarrow> False)
      else if 0xF0 \<le> a \<and> a \<le> 0xF4 then
        (case bs of b # c # d # r \<Rightarrow>
             (if a = 0xF0 then 0x90 \<le> b \<and> b \<le> 0xBF else if a = 0xF4 then 0x80 \<le> b \<and> b \<le> 0x8F else cont b)
             \<and> cont c \<and> cont d \<and> utf8_valid r
         | _ \<Rightarrow> False)
      else False)"

definition from_utf8 :: "bytes \<Rightarrow> bytes option decoder" where
  "from_utf8 b = (if utf8_valid b then pure_dec (Some b) else fail_dec InvalidUtf8)"

definition not_null :: "'a option decoder \<Rightarrow> 'a decoder" where
  "not_null p = and_then p (\<lambda>x. case x of Some s \<Rightarrow> pure_dec s | None \<Rightarrow> fail_dec UnexpectedNull)"

definition read_nullable_string :: "bytes option decoder" where
  "read_nullable_string = and_then read_i16
     (\<lambda>raw. if raw < 0 then pure_dec None else and_then (read_raw (nat raw)) from_utf8)"

definition read_string :: "bytes decoder" where "read_string = not_null read_nullable_string"

text \<open>The length of a compact field, checked against the remaining buffer, and that many bytes.\<close>

definition take_compact :: "64 word \<Rightarrow> bytes decoder" where
  "take_compact u buf =
     (case checked_compact_len u (length buf) of Inl e \<Rightarrow> Inl e | Inr len \<Rightarrow> read_raw len buf)"

definition read_compact_nullable_string :: "bytes option decoder" where
  "read_compact_nullable_string = and_then read_uvarint
     (\<lambda>u. if u = 0 then pure_dec None else and_then (take_compact u) from_utf8)"

definition read_compact_string :: "bytes decoder" where
  "read_compact_string = not_null read_compact_nullable_string"

definition write_string :: "bytes \<Rightarrow> codec_error + bytes" where
  "write_string s = (case len_i16 (length s) of Inl e \<Rightarrow> Inl e | Inr n \<Rightarrow> Inr (write_i16 n @ s))"

definition write_nullable_string :: "bytes option \<Rightarrow> codec_error + bytes" where
  "write_nullable_string x = (case x of None \<Rightarrow> Inr (write_i16 (-1)) | Some s \<Rightarrow> write_string s)"

definition write_compact_string :: "bytes \<Rightarrow> codec_error + bytes" where
  "write_compact_string s =
     (case compact_len_u64 (length s) of Inl e \<Rightarrow> Inl e | Inr n \<Rightarrow> Inr (write_uvarint n @ s))"

definition write_compact_nullable_string :: "bytes option \<Rightarrow> codec_error + bytes" where
  "write_compact_nullable_string x =
     (case x of None \<Rightarrow> Inr (write_uvarint 0) | Some s \<Rightarrow> write_compact_string s)"

definition read_nullable_bytes :: "bytes option decoder" where
  "read_nullable_bytes = and_then read_i32
     (\<lambda>raw. if raw < 0 then pure_dec None else and_then (read_raw (nat raw)) (\<lambda>b. pure_dec (Some b)))"

definition read_bytes :: "bytes decoder" where "read_bytes = not_null read_nullable_bytes"

definition read_compact_nullable_bytes :: "bytes option decoder" where
  "read_compact_nullable_bytes = and_then read_uvarint
     (\<lambda>u. if u = 0 then pure_dec None else and_then (take_compact u) (\<lambda>b. pure_dec (Some b)))"

definition read_compact_bytes :: "bytes decoder" where
  "read_compact_bytes = not_null read_compact_nullable_bytes"

definition write_bytes :: "bytes \<Rightarrow> codec_error + bytes" where
  "write_bytes b = (case len_i32 (length b) of Inl e \<Rightarrow> Inl e | Inr n \<Rightarrow> Inr (write_i32 n @ b))"

definition write_nullable_bytes :: "bytes option \<Rightarrow> codec_error + bytes" where
  "write_nullable_bytes x = (case x of None \<Rightarrow> Inr (write_i32 (-1)) | Some b \<Rightarrow> write_bytes b)"

definition write_compact_bytes :: "bytes \<Rightarrow> codec_error + bytes" where
  "write_compact_bytes b =
     (case compact_len_u64 (length b) of Inl e \<Rightarrow> Inl e | Inr n \<Rightarrow> Inr (write_uvarint n @ b))"

definition write_compact_nullable_bytes :: "bytes option \<Rightarrow> codec_error + bytes" where
  "write_compact_nullable_bytes x =
     (case x of None \<Rightarrow> Inr (write_uvarint 0) | Some b \<Rightarrow> write_compact_bytes b)"

definition read_uuid :: "bytes decoder" where "read_uuid = read_raw 16"
definition write_uuid :: "bytes \<Rightarrow> bytes" where "write_uuid v = v"
definition write_raw :: "bytes \<Rightarrow> bytes" where "write_raw b = b"

section \<open>Arrays\<close>

definition read_array_len :: "nat decoder" where
  "read_array_len = and_then read_i32 (\<lambda>raw. pure_dec (if raw < 0 then 0 else nat raw))"

definition write_array_len :: "nat \<Rightarrow> codec_error + bytes" where
  "write_array_len count = (case len_i32 count of Inl e \<Rightarrow> Inl e | Inr n \<Rightarrow> Inr (write_i32 n))"

definition read_compact_array_len :: "nat decoder" where
  "read_compact_array_len = and_then read_uvarint
     (\<lambda>u. pure_dec (if u = 0 then 0 else nat (uint (u - 1))))"

definition write_compact_array_len :: "nat \<Rightarrow> codec_error + bytes" where
  "write_compact_array_len count =
     (case compact_len_u64 count of Inl e \<Rightarrow> Inl e | Inr n \<Rightarrow> Inr (write_uvarint n))"

definition reserve_i32 :: "bytes \<Rightarrow> nat \<times> bytes" where
  "reserve_i32 buf = (length buf, buf @ be_bytes 4 0)"

text \<open>\<open>fixup_i32\<close> panics out of range.\<close>

definition fixup_i32 :: "bytes \<Rightarrow> nat \<Rightarrow> int \<Rightarrow> bytes option" where
  "fixup_i32 buf pos v =
     (if pos + 4 \<le> length buf then Some (take pos buf @ be_bytes 4 v @ drop (pos + 4) buf) else None)"

section \<open>Tagged fields\<close>

record tagged_field =
  tf_tag :: "64 word"
  tf_value :: bytes

definition read_field :: "tagged_field decoder" where
  "read_field = and_then read_uvarint (\<lambda>tag. and_then read_uvarint (\<lambda>sz buf.
     if int (length buf) < uint sz then Inl UnexpectedEof
     else Inr (\<lparr>tf_tag = tag, tf_value = take (nat (uint sz)) buf\<rparr>, drop (nat (uint sz)) buf)))"

fun read_n :: "'a decoder \<Rightarrow> nat \<Rightarrow> 'a list decoder" where
  "read_n p 0 buf = Inr ([], buf)"
| "read_n p (Suc n) buf = and_then p (\<lambda>x. and_then (read_n p n) (\<lambda>xs. pure_dec (x # xs))) buf"

definition read_into :: "tagged_field list decoder" where
  "read_into = and_then read_uvarint (\<lambda>n. read_n read_field (nat (uint n)))"

definition tagged_read :: "unit decoder" where
  "tagged_read = and_then read_uvarint (\<lambda>n.
     and_then (read_n read_field (nat (uint n))) (\<lambda>_. pure_dec ()))"

definition write_empty :: bytes where "write_empty = write_uvarint 0"

definition tagged_write :: "tagged_field list \<Rightarrow> codec_error + bytes" where
  "tagged_write fs =
     (if int (length fs) > u64_max \<or> (\<exists>f \<in> set fs. int (length (tf_value f)) > u64_max)
      then Inl LengthOverflow
      else Inr (write_uvarint (of_nat (length fs)) @
        concat (map (\<lambda>f. write_uvarint (tf_tag f) @ write_uvarint (of_nat (length (tf_value f))) @ tf_value f)
          fs)))"

section \<open>Headers\<close>

datatype header_version = V0 | V1 | V2

record request_header =
  rh_api_key :: int
  rh_api_version :: int
  rh_correlation_id :: int
  rh_client_id :: "bytes option"

record response_header =
  sh_correlation_id :: int

definition decode_request_header :: "header_version \<Rightarrow> request_header decoder" where
  "decode_request_header version =
     and_then read_i16 (\<lambda>api_key.
     and_then read_i16 (\<lambda>api_version.
     and_then read_i32 (\<lambda>correlation_id.
     and_then (if version = V0 then pure_dec None else read_nullable_string) (\<lambda>client_id.
     and_then (if version = V2 then tagged_read else pure_dec ()) (\<lambda>_.
       pure_dec \<lparr>rh_api_key = api_key, rh_api_version = api_version,
                 rh_correlation_id = correlation_id, rh_client_id = client_id\<rparr>)))))"

definition encode_request_header :: "request_header \<Rightarrow> header_version \<Rightarrow> codec_error + bytes" where
  "encode_request_header hdr version =
     (let fixed = write_i16 (rh_api_key hdr) @ write_i16 (rh_api_version hdr) @ write_i32 (rh_correlation_id hdr);
          tags = (if version = V2 then write_empty else []) in
      if version = V0 then Inr (fixed @ tags)
      else case write_nullable_string (rh_client_id hdr) of
        Inl e \<Rightarrow> Inl e | Inr s \<Rightarrow> Inr (fixed @ s @ tags))"

definition decode_response_header :: "header_version \<Rightarrow> response_header decoder" where
  "decode_response_header version =
     and_then read_i32 (\<lambda>correlation_id.
     and_then (if version \<noteq> V0 then tagged_read else pure_dec ()) (\<lambda>_.
       pure_dec \<lparr>sh_correlation_id = correlation_id\<rparr>))"

definition encode_response_header :: "response_header \<Rightarrow> header_version \<Rightarrow> bytes" where
  "encode_response_header hdr version =
     write_i32 (sh_correlation_id hdr) @ (if version \<noteq> V0 then write_empty else [])"

section \<open>Frames\<close>

datatype frame_error = Disconnected | TooLarge nat int | NegativeSize int | Frame_io

definition MAX_FRAME_SIZE :: int where "MAX_FRAME_SIZE = 100 * 1024 * 1024"

text \<open>The stream is the bytes the peer has sent before it closes the connection.\<close>

definition read_frame_with_limit :: "bytes \<Rightarrow> int \<Rightarrow> frame_error + bytes \<times> bytes" where
  "read_frame_with_limit r mx =
     (if length r < 4 then Inl Disconnected
      else let n = be_i32 (take 4 r) in
        if n < 0 then Inl (NegativeSize n)
        else if n > mx then Inl (TooLarge (nat n) mx)
        else let body = drop 4 r in
          if length body < nat n then Inl Frame_io else Inr (take (nat n) body, drop (nat n) body))"

definition read_frame :: "bytes \<Rightarrow> frame_error + bytes \<times> bytes" where
  "read_frame r = read_frame_with_limit r MAX_FRAME_SIZE"

definition write_frame :: "bytes \<Rightarrow> bytes option" where
  "write_frame body = (if int (length body) \<le> i32_MAX then Some (be_bytes 4 (int (length body)) @ body) else None)"

section \<open>The contract of an encoder and its decoder\<close>

locale wire_codec =
  fixes enc :: "'a \<Rightarrow> codec_error + bytes" and dec :: "'a decoder" and valid :: "'a \<Rightarrow> bool"
  assumes enc_total: "valid x \<Longrightarrow> \<exists>w. enc x = Inr w"
    and dec_enc: "valid x \<Longrightarrow> enc x = Inr w \<Longrightarrow> dec (w @ rest) = Inr (x, rest)"
begin

lemma dec_enc_end: "valid x \<Longrightarrow> enc x = Inr w \<Longrightarrow> dec w = Inr (x, [])"
  using dec_enc [of x w "[]"] by simp

text \<open>An encoding says where it ends: two streams that start with encodings and are equal have
  equal first values and equal remainders.\<close>

lemma self_delimiting:
  assumes "valid x" "valid y" "enc x = Inr u" "enc y = Inr v" "u @ r = v @ s"
  shows "x = y \<and> r = s"
  using dec_enc [OF assms(1,3), of r] dec_enc [OF assms(2,4), of s] assms(5) by simp

lemma enc_injective:
  assumes "valid x" "valid y" "enc x = enc y"
  shows "x = y"
proof -
  from enc_total [OF assms(1)] obtain w where "enc x = Inr w" ..
  with self_delimiting [OF assms(1,2), of w w "[]" "[]"] assms(3) show ?thesis by simp
qed

text \<open>A sequence of encoded values is read back element by element.\<close>

lemma read_n_enc:
  "list_all valid xs \<Longrightarrow>
   read_n dec (length xs) (concat (map (\<lambda>x. projr (enc x)) xs) @ rest) = Inr (xs, rest)"
proof (induction xs)
  case (Cons x xs)
  then obtain w where "enc x = Inr w" using enc_total by auto
  with Cons dec_enc [of x w] show ?case by (simp add: and_then_def pure_dec_def)
qed simp

end

section \<open>The primitives keep the contract\<close>

lemma read_raw_append [simp]: "length w = n \<Longrightarrow> read_raw n (w @ rest) = Inr (w, rest)"
  by (simp add: read_raw_def require_def)

lemma be_i16_be_bytes [simp]: "- 32768 \<le> x \<Longrightarrow> x \<le> 32767 \<Longrightarrow> be_i16 (be_bytes 2 x) = x"
  using signed_take_bit_mod_self [of 15 x] by (simp add: be_i16_def wrap16_def be_uint_be_bytes)

lemma be_i8_be_bytes [simp]: "- 128 \<le> x \<Longrightarrow> x \<le> 127 \<Longrightarrow> be_i8 (be_bytes 1 x) = x"
  using signed_take_bit_mod_self [of 7 x] by (simp add: be_i8_def uint_word_of_int)

lemmas dec_defs = and_then_def pure_dec_def fail_dec_def

definition in_i16 :: "int \<Rightarrow> bool" where "in_i16 x \<longleftrightarrow> - 32768 \<le> x \<and> x \<le> i16_MAX"
definition in_i64 :: "int \<Rightarrow> bool" where "in_i64 x \<longleftrightarrow> - i64_MAX - 1 \<le> x \<and> x \<le> i64_MAX"

lemma read_i16_write [simp]: "in_i16 x \<Longrightarrow> read_i16 (write_i16 x @ rest) = Inr (x, rest)"
  by (simp add: read_i16_def write_i16_def dec_defs in_i16_def int_bounds)

lemma read_i32_write [simp]: "in_i32 x \<Longrightarrow> read_i32 (write_i32 x @ rest) = Inr (x, rest)"
  by (simp add: read_i32_def write_i32_def dec_defs)

lemma read_i64_write [simp]: "in_i64 x \<Longrightarrow> read_i64 (write_i64 x @ rest) = Inr (x, rest)"
  by (simp add: read_i64_def write_i64_def dec_defs in_i64_def int_bounds)

lemma read_bool_write [simp]: "read_bool (write_bool b @ rest) = Inr (b, rest)"
  by (simp add: read_bool_def read_u8_def write_bool_def read_raw_def require_def dec_defs)

lemma read_u8_Cons [simp]: "read_u8 (b # rest) = Inr (b, rest)"
  by (simp add: read_u8_def read_raw_def require_def dec_defs)

interpretation i16: wire_codec "\<lambda>x. Inr (write_i16 x)" read_i16 in_i16
  by unfold_locales auto

interpretation i32: wire_codec "\<lambda>x. Inr (write_i32 x)" read_i32 in_i32
  by unfold_locales auto

interpretation i64: wire_codec "\<lambda>x. Inr (write_i64 x)" read_i64 in_i64
  by unfold_locales auto

interpretation boolean: wire_codec "\<lambda>x. Inr (write_bool x)" read_bool "\<lambda>_. True"
  by unfold_locales auto

subsection \<open>Varints\<close>

lemma low7: "(0x7f :: 64 word) = mask 7" "(0x7f :: byte) = mask 7"
  by (simp_all add: mask_eq_exp_minus_1)

lemma uvarint_split:
  "push_bit s (x AND 0x7f) OR push_bit (s + 7) (drop_bit 7 x) = push_bit s (x :: 64 word)"
proof (rule bit_word_eqI)
  fix n assume "n < LENGTH(64)"
  have "7 + (n - (s + 7)) = n - s" if "s + 7 \<le> n" using that by simp
  then show "bit (push_bit s (x AND 0x7f) OR push_bit (s + 7) (drop_bit 7 x)) n = bit (push_bit s x) n"
    unfolding low7 by (cases "s + 7 \<le> n") (auto simp: bit_simps)
qed

lemma uvarint_more_byte:
  fixes x :: "64 word"
  shows "\<not> (ucast (x AND 0x7f) OR 0x80 :: byte) < 0x80"
    and "ucast ((ucast (x AND 0x7f) OR 0x80 :: byte) AND 0x7f) = x AND 0x7f"
proof -
  show "\<not> (ucast (x AND 0x7f) OR 0x80 :: byte) < 0x80"
    using le_word_or1 [of "0x80 :: byte" "ucast (x AND 0x7f)"] by (simp only: not_less)
  have b80: "bit (0x80 :: byte) n \<longleftrightarrow> n = 7" for n
    using bit_exp_iff [where ?'a = byte, of 7 n] by (cases "n = 7") simp_all
  have b80': "bit (0x80 :: int) n \<longleftrightarrow> n = 7" for n
    using bit_exp_iff [where ?'a = int, of 7 n] by (cases "n = 7") simp_all
  show "ucast ((ucast (x AND 0x7f) OR 0x80 :: byte) AND 0x7f) = x AND 0x7f"
    unfolding low7 by (intro bit_word_eqI) (auto simp: bit_simps b80 b80')
qed

lemma uvarint_last_byte:
  fixes x :: "64 word"
  assumes "x < 0x80"
  shows "ucast (ucast (x AND 0x7f) :: byte) = x" "unat (ucast (x AND 0x7f) :: byte) = unat x"
proof -
  have "x AND 0x7f = x" using assms unfolding low7
    by (simp add: take_bit_eq_mask [symmetric] take_bit_eq_mod mod_word_less)
  moreover have "ucast (ucast (x AND 0x7f) :: byte) = x AND 0x7f"
    unfolding low7 by (intro bit_word_eqI) (auto simp: bit_simps)
  ultimately show eq: "ucast (ucast (x AND 0x7f) :: byte) = x" by simp
  have "unat (ucast b :: 64 word) = unat b" for b :: byte
    using unsigned_less [of b, where ?'a = nat] by (simp add: unsigned_ucast_eq take_bit_nat_eq_self)
  from this [of "ucast (x AND 0x7f)"] show "unat (ucast (x AND 0x7f) :: byte) = unat x" by (simp only: eq)
qed

lemma unat_drop7: "unat (drop_bit 7 v :: 64 word) = unat v div 128"
  by (simp add: drop_bit_eq_div unat_div)

lemma read_write_uvarint_loop:
  assumes "i < 10" "unat v < 2 ^ (64 - 7 * i)"
  shows "read_uvarint_loop i x (7 * i) (write_uvarint v @ rest) = Inr (x OR push_bit (7 * i) v, rest)"
  using assms
proof (induction v arbitrary: i x rule: write_uvarint.induct)
  case (1 v)
  show ?case
  proof (cases "v \<ge> 0x80")
    case True
    have i: "i + 1 < 10"
    proof (rule ccontr)
      assume "\<not> i + 1 < 10"
      with "1.prems" have "i = 9" by simp
      with "1.prems"(2) True show False by (simp add: word_le_nat_alt)
    qed
    have "unat (drop_bit 7 v) < 2 ^ (64 - 7 * (i + 1))"
    proof -
      have "(2 :: nat) ^ (64 - 7 * i) = 2 ^ (64 - 7 * (i + 1)) * 128"
      proof -
        have "64 - 7 * i = (64 - 7 * (i + 1)) + 7" using i by simp
        then show ?thesis by (simp only: power_add) simp
      qed
      with "1.prems"(2) show ?thesis
        by (simp add: unat_drop7 less_mult_imp_div_less)
    qed
    from "1.IH" [OF True i this, of "x OR push_bit (7 * i) (v AND 0x7f)"]
    show ?thesis
      using "1.prems"(1) True uvarint_more_byte [of v] uvarint_split [of "7 * i" v]
      by (subst write_uvarint.simps, subst read_uvarint_loop.simps)
        (simp add: MAX_UVARINT_LEN_def or.assoc algebra_simps)
  next
    case False
    then have lt: "v < 0x80" by simp
    note last = uvarint_last_byte [OF lt]
    have "(ucast (v AND 0x7f) :: byte) < 0x80"
      using last(2) lt by (simp add: word_less_nat_alt)
    moreover have "i = 9 \<Longrightarrow> \<not> (ucast (v AND 0x7f) :: byte) > 1"
      using "1.prems"(2) last(2) by (simp add: word_less_nat_alt)
    ultimately show ?thesis
      using "1.prems"(1) False last(1)
      by (subst write_uvarint.simps, subst read_uvarint_loop.simps) (simp add: MAX_UVARINT_LEN_def)
  qed
qed

lemma read_uvarint_write [simp]: "read_uvarint (write_uvarint v @ rest) = Inr (v, rest)"
  using read_write_uvarint_loop [of 0 v 0 rest] unsigned_less [of v, where ?'a = nat] by (simp add: read_uvarint_def)

lemma length_write_uvarint:
  assumes "unat v < 2 ^ (7 * n)" "0 < n"
  shows "length (write_uvarint v) \<le> n"
  using assms
proof (induction v arbitrary: n rule: write_uvarint.induct)
  case (1 v)
  show ?case
  proof (cases "v \<ge> 0x80")
    case True
    then obtain k where n: "n = Suc (Suc k)"
      using "1.prems" by (cases n; cases "n - 1") (auto simp: word_le_nat_alt)
    have "unat (drop_bit 7 v) < 2 ^ (7 * Suc k)"
      using "1.prems"(1) unfolding n
      by (simp add: unat_drop7 less_mult_imp_div_less power_add)
    from "1.IH" [OF True this] True show ?thesis by (subst write_uvarint.simps) (simp add: n)
  qed (use "1.prems" in \<open>subst write_uvarint.simps, simp\<close>)
qed

lemma zigzag_bits:
  fixes w :: "64 word"
  shows "drop_bit 1 (push_bit 1 w XOR signed_drop_bit 63 w) XOR
    - ((push_bit 1 w XOR signed_drop_bit 63 w) AND 1) = w"
proof -
  define p where "p = push_bit 1 w"
  have p: "bit p n \<longleftrightarrow> n < 64 \<and> 0 < n \<and> bit w (n - 1)" for n
    unfolding p_def bit_push_bit_iff by (auto simp: possible_bit_word)
  define s where "s = (if bit w 63 then -1 else (0 :: 64 word))"
  have sd: "signed_drop_bit 63 w = s"
    by (rule bit_word_eqI) (auto simp: s_def bit_simps min_def not_less_eq_eq)
  have neg: "- ((p XOR s) AND 1) = s"
  proof -
    have "(p XOR s) AND 1 = (if bit w 63 then 1 else 0)"
      by (rule bit_word_eqI) (auto simp: s_def bit_simps p)
    then show ?thesis by (simp add: s_def)
  qed
  have "drop_bit 1 (p XOR s) XOR s = w"
  proof (rule bit_word_eqI)
    fix n assume n: "n < LENGTH(64)"
    have "bit (drop_bit 1 (p XOR s)) n \<longleftrightarrow> bit p (n + 1) \<noteq> bit s (n + 1)"
      by (simp add: bit_drop_bit_eq bit_xor_iff add.commute)
    moreover have "bit s k \<longleftrightarrow> bit w 63 \<and> k < 64" for k by (auto simp: s_def bit_simps)
    ultimately show "bit (drop_bit 1 (p XOR s) XOR s) n = bit w n"
      using n by (cases "n = 63") (auto simp: bit_xor_iff p)
  qed
  with neg show ?thesis by (simp only: sd p_def [symmetric])
qed

lemma zigzag_decode_encode [simp]: "in_i64 n \<Longrightarrow> zigzag_decode (zigzag_encode n) = n"
  unfolding zigzag_decode_def zigzag_encode_def zigzag_bits
  by (simp add: in_i64_def int_bounds sint_sbintrunc' signed_take_bit_int_eq_self)

lemma read_varint_write [simp]: "in_i64 n \<Longrightarrow> read_varint (write_varint n @ rest) = Inr (n, rest)"
  by (simp add: read_varint_def write_varint_def dec_defs)

interpretation uvarint: wire_codec "\<lambda>x. Inr (write_uvarint x)" read_uvarint "\<lambda>_. True"
  by unfold_locales auto

interpretation varint: wire_codec "\<lambda>x. Inr (write_varint x)" read_varint in_i64
  by unfold_locales auto

subsection \<open>Strings, byte strings, arrays\<close>

definition str16 :: "bytes \<Rightarrow> bool" where
  "str16 s \<longleftrightarrow> utf8_valid s \<and> int (length s) \<le> i16_MAX"

definition compact_str :: "bytes \<Rightarrow> bool" where
  "compact_str s \<longleftrightarrow> utf8_valid s \<and> int (length s) < u64_max"

lemma of_nat_u64:
  assumes "int n \<le> u64_max"
  shows "unat (of_nat n :: 64 word) = n" "uint (of_nat n :: 64 word) = int n"
proof -
  have "n < 2 ^ 64" using assms by (simp add: u64_max_def)
  then have "take_bit 64 n = n" by (rule take_bit_nat_eq_self)
  then show "unat (of_nat n :: 64 word) = n" "uint (of_nat n :: 64 word) = int n"
    by (simp_all only: unsigned_of_nat len_num0 len_bit0 len_bit1 len_num1) simp_all
qed

lemma of_nat_succ_u64:
  assumes "int n < u64_max"
  shows "(of_nat (n + 1) :: 64 word) \<noteq> 0" "(of_nat (n + 1) :: 64 word) - 1 = of_nat n"
proof -
  have "unat (of_nat (n + 1) :: 64 word) = n + 1" by (rule of_nat_u64) (use assms in simp)
  then show "(of_nat (n + 1) :: 64 word) \<noteq> 0" by (metis Suc_eq_plus1 nat.distinct(1) unat_0)
  show "(of_nat (n + 1) :: 64 word) - 1 = of_nat n" by simp
qed

lemma take_compact_append:
  assumes "int (length w) < u64_max"
  shows "take_compact (of_nat (length w + 1)) (w @ rest) = Inr (w, rest)"
  unfolding take_compact_def checked_compact_len_def of_nat_succ_u64(2) [OF assms]
  using of_nat_u64(2) [of "length w"] assms by simp

interpretation nullable_string: wire_codec write_nullable_string read_nullable_string "pred_option str16"
proof
  fix x w rest assume v: "pred_option str16 x"
  then show "\<exists>w. write_nullable_string x = Inr w"
    by (auto simp: write_nullable_string_def write_string_def len_i16_def str16_def split: option.splits)
  assume "write_nullable_string x = Inr w"
  with v show "read_nullable_string (w @ rest) = Inr (x, rest)"
    by (auto simp: write_nullable_string_def write_string_def len_i16_def str16_def from_utf8_def
        read_nullable_string_def dec_defs in_i16_def int_bounds split: option.splits if_splits)
qed

interpretation compact_nullable_string:
  wire_codec write_compact_nullable_string read_compact_nullable_string "pred_option compact_str"
proof
  fix x w rest assume v: "pred_option compact_str x"
  then show "\<exists>w. write_compact_nullable_string x = Inr w"
    by (auto simp: write_compact_nullable_string_def write_compact_string_def compact_len_u64_def
        compact_str_def split: option.splits)
  assume "write_compact_nullable_string x = Inr w"
  with v show "read_compact_nullable_string (w @ rest) = Inr (x, rest)"
    using of_nat_succ_u64(1) [of "length (the x)"] take_compact_append [of "the x" rest]
    by (auto simp: write_compact_nullable_string_def write_compact_string_def compact_len_u64_def
        compact_str_def from_utf8_def read_compact_nullable_string_def dec_defs
        split: option.splits if_splits simp del: of_nat_Suc of_nat_add)
qed

interpretation nullable_bytes:
  wire_codec write_nullable_bytes read_nullable_bytes "pred_option (\<lambda>b. int (length b) \<le> i32_MAX)"
proof
  fix x w rest assume v: "pred_option (\<lambda>b :: bytes. int (length b) \<le> i32_MAX) x"
  then show "\<exists>w. write_nullable_bytes x = Inr w"
    by (auto simp: write_nullable_bytes_def write_bytes_def len_i32_def split: option.splits)
  assume "write_nullable_bytes x = Inr w"
  with v show "read_nullable_bytes (w @ rest) = Inr (x, rest)"
    by (auto simp: write_nullable_bytes_def write_bytes_def len_i32_def
        read_nullable_bytes_def dec_defs in_i32_def int_bounds split: option.splits if_splits)
qed

interpretation compact_nullable_bytes:
  wire_codec write_compact_nullable_bytes read_compact_nullable_bytes
    "pred_option (\<lambda>b. int (length b) < u64_max)"
proof
  fix x w rest assume v: "pred_option (\<lambda>b :: bytes. int (length b) < u64_max) x"
  then show "\<exists>w. write_compact_nullable_bytes x = Inr w"
    by (auto simp: write_compact_nullable_bytes_def write_compact_bytes_def compact_len_u64_def
        split: option.splits)
  assume "write_compact_nullable_bytes x = Inr w"
  with v show "read_compact_nullable_bytes (w @ rest) = Inr (x, rest)"
    using of_nat_succ_u64(1) [of "length (the x)"] take_compact_append [of "the x" rest]
    by (auto simp: write_compact_nullable_bytes_def write_compact_bytes_def compact_len_u64_def
        read_compact_nullable_bytes_def dec_defs
        split: option.splits if_splits simp del: of_nat_Suc of_nat_add)
qed

interpretation array_len: wire_codec write_array_len read_array_len "\<lambda>n. int n \<le> i32_MAX"
  by unfold_locales
    (auto simp: write_array_len_def len_i32_def read_array_len_def dec_defs in_i32_def int_bounds
      split: if_splits)

interpretation compact_array_len:
  wire_codec write_compact_array_len read_compact_array_len "\<lambda>n. int n < u64_max"
proof
  fix n w rest assume v: "int n < u64_max"
  then show "\<exists>w. write_compact_array_len n = Inr w"
    by (simp add: write_compact_array_len_def compact_len_u64_def)
  assume w: "write_compact_array_len n = Inr w"
  from of_nat_succ_u64 [OF v] of_nat_u64 [of n] v w show "read_compact_array_len (w @ rest) = Inr (n, rest)"
    by (auto simp: write_compact_array_len_def compact_len_u64_def read_compact_array_len_def dec_defs
        simp del: of_nat_Suc of_nat_add)
qed

subsection \<open>Tagged fields and headers\<close>

definition write_field :: "tagged_field \<Rightarrow> bytes" where
  "write_field f = write_uvarint (tf_tag f) @ write_uvarint (of_nat (length (tf_value f))) @ tf_value f"

interpretation tag_field:
  wire_codec "\<lambda>f. Inr (write_field f)" read_field "\<lambda>f. int (length (tf_value f)) \<le> u64_max"
  by unfold_locales (auto simp: write_field_def read_field_def dec_defs of_nat_u64)

definition tags_ok :: "tagged_field list \<Rightarrow> bool" where
  "tags_ok fs \<longleftrightarrow> int (length fs) \<le> u64_max \<and> list_all (\<lambda>f. int (length (tf_value f)) \<le> u64_max) fs"

interpretation tags: wire_codec tagged_write read_into tags_ok
proof
  fix fs w rest assume v: "tags_ok fs"
  then show "\<exists>w. tagged_write fs = Inr w"
    by (auto simp: tagged_write_def tags_ok_def list_all_iff)
  assume "tagged_write fs = Inr w"
  moreover have "write_field = (\<lambda>f. write_uvarint (tf_tag f) @ write_uvarint (of_nat (length (tf_value f))) @ tf_value f)"
    by (rule ext) (simp add: write_field_def)
  ultimately have w: "w = write_uvarint (of_nat (length fs)) @ concat (map write_field fs)"
    using v by (auto simp: tagged_write_def tags_ok_def list_all_iff split: if_splits)
  show "read_into (w @ rest) = Inr (fs, rest)"
    using tag_field.read_n_enc [of fs rest] v
    by (simp add: w read_into_def dec_defs tags_ok_def of_nat_u64)
qed

lemma tagged_read_empty [simp]: "tagged_read (write_empty @ rest) = Inr ((), rest)"
  by (simp add: tagged_read_def write_empty_def dec_defs)

definition header_ok :: "header_version \<Rightarrow> request_header \<Rightarrow> bool" where
  "header_ok version h \<longleftrightarrow> in_i16 (rh_api_key h) \<and> in_i16 (rh_api_version h) \<and>
     in_i32 (rh_correlation_id h) \<and>
     (if version = V0 then rh_client_id h = None else pred_option str16 (rh_client_id h))"

interpretation request_headers:
  wire_codec "\<lambda>h. encode_request_header h version" "decode_request_header version" "header_ok version"
proof
  fix h w rest assume v: "header_ok version h"
  show "\<exists>w. encode_request_header h version = Inr w"
    using v nullable_string.enc_total [of "rh_client_id h"]
    by (auto simp: encode_request_header_def header_ok_def Let_def split: if_splits)
  assume w: "encode_request_header h version = Inr w"
  show "decode_request_header version (w @ rest) = Inr (h, rest)"
  proof (cases "version = V0")
    case True
    with v w show ?thesis
      by (auto simp: encode_request_header_def decode_request_header_def header_ok_def Let_def dec_defs)
  next
    case False
    with v have s: "pred_option str16 (rh_client_id h)" by (simp add: header_ok_def)
    from nullable_string.enc_total [OF s] obtain c where c: "write_nullable_string (rh_client_id h) = Inr c" ..
    show ?thesis
      using v w False c nullable_string.dec_enc [OF s c]
      by (cases version)
        (auto simp: encode_request_header_def decode_request_header_def header_ok_def Let_def dec_defs)
  qed
qed

lemma response_header_roundtrip:
  "in_i32 (sh_correlation_id h) \<Longrightarrow>
   decode_response_header version (encode_response_header h version @ rest) = Inr (h, rest)"
  by (simp add: decode_response_header_def encode_response_header_def dec_defs)

section \<open>Properties\<close>

text \<open>C35: variable-length integers round-trip for every 64-bit value, take at least one and at most
  ten bytes, and leave the rest of the buffer untouched; so do the zigzag-encoded signed ones.\<close>

theorem varint_roundtrip:
  "read_uvarint (write_uvarint v @ rest) = Inr (v, rest) \<and>
   1 \<le> length (write_uvarint v) \<and> length (write_uvarint v) \<le> MAX_UVARINT_LEN \<and>
   (in_i64 n \<longrightarrow> read_varint (write_varint n @ rest) = Inr (n, rest))"
proof -
  have "1 \<le> length (write_uvarint v)" by (subst write_uvarint.simps) simp
  moreover have "length (write_uvarint v) \<le> 10"
    using length_write_uvarint [of v 10] unsigned_less [of v, where ?'a = nat] by simp
  ultimately show ?thesis by (simp add: MAX_UVARINT_LEN_def)
qed

text \<open>C36: request headers round-trip in every header version, with null and present client ids, and
  their encoding is self-delimiting: a stream is never read as two different headers.\<close>

theorem request_header_roundtrip:
  assumes "header_ok version h" "encode_request_header h version = Inr w"
  shows "decode_request_header version (w @ rest) = Inr (h, rest) \<and>
    (header_ok version h' \<longrightarrow> encode_request_header h' version = Inr w' \<longrightarrow>
      w @ rest = w' @ rest' \<longrightarrow> h = h' \<and> rest = rest')"
  using request_headers.dec_enc [OF assms, of rest]
    request_headers.self_delimiting [OF assms(1) _ assms(2), of h' w' rest rest'] by simp

text \<open>C37: framing. A frame is read back with the rest of the stream untouched; a frame whose size
  prefix is past the limit, or negative, is refused whatever follows it; and no frame longer than
  the limit is ever returned.\<close>

theorem frame_roundtrip_and_limit:
  "(int (length body) \<le> mx \<longrightarrow> write_frame body = Some w \<longrightarrow>
      read_frame_with_limit (w @ rest) mx = Inr (body, rest)) \<and>
   (mx < int (length body) \<longrightarrow> write_frame body = Some w \<longrightarrow>
      read_frame_with_limit (w @ rest) mx = Inl (TooLarge (length body) mx)) \<and>
   (read_frame_with_limit r mx = Inr (b, r') \<longrightarrow> int (length b) \<le> mx \<and> r = take 4 r @ b @ r')"
proof (intro conjI impI)
  assume "int (length body) \<le> mx" "write_frame body = Some w"
  then show "read_frame_with_limit (w @ rest) mx = Inr (body, rest)"
    by (auto simp: write_frame_def read_frame_with_limit_def Let_def in_i32_def int_bounds split: if_splits)
next
  assume "mx < int (length body)" "write_frame body = Some w"
  then show "read_frame_with_limit (w @ rest) mx = Inl (TooLarge (length body) mx)"
    by (auto simp: write_frame_def read_frame_with_limit_def Let_def in_i32_def int_bounds split: if_splits)
next
  assume "read_frame_with_limit r mx = Inr (b, r')"
  then show "int (length b) \<le> mx"
    by (auto simp: read_frame_with_limit_def Let_def split: if_splits)
next
  assume "read_frame_with_limit r mx = Inr (b, r')"
  then have "b @ r' = drop 4 r"
    by (auto simp: read_frame_with_limit_def Let_def simp flip: drop_drop split: if_splits)
  then show "r = take 4 r @ b @ r'" by simp
qed

section \<open>Witnesses\<close>

theorem varint_roundtrip_witness: "read_varint (write_varint (-5) @ [7]) = Inr (-5, [7])"
  using varint_roundtrip [of 0 "[7]" "-5"] by (simp add: in_i64_def int_bounds)

definition demo_header :: request_header where
  "demo_header = \<lparr>rh_api_key = 26, rh_api_version = 3, rh_correlation_id = 9, rh_client_id = Some [0x61]\<rparr>"

theorem request_header_roundtrip_witness:
  "\<exists>w. encode_request_header demo_header V2 = Inr w \<and> decode_request_header V2 (w @ [1]) = Inr (demo_header, [1])"
proof -
  have ok: "header_ok V2 demo_header"
    by (simp add: header_ok_def demo_header_def in_i16_def in_i32_def int_bounds str16_def)
  from request_headers.enc_total [OF ok] obtain w where w: "encode_request_header demo_header V2 = Inr w" ..
  from request_header_roundtrip [OF ok w, of "[1]"] w show ?thesis by simp
qed

theorem frame_roundtrip_and_limit_witness:
  "read_frame_with_limit ([0, 0, 0, 2] @ [5, 6] @ [7]) 2 = Inr ([5, 6], [7]) \<and>
   read_frame_with_limit ([0, 0, 0, 2] @ [5, 6] @ [7]) 1 = Inl (TooLarge 2 1)"
proof -
  have "write_frame [5, 6] = Some ([0, 0, 0, 2] @ [5, 6])" by code_simp
  with frame_roundtrip_and_limit [of "[5, 6]" 2 "[0, 0, 0, 2] @ [5, 6]" "[7]"]
    frame_roundtrip_and_limit [of "[5, 6]" 1 "[0, 0, 0, 2] @ [5, 6]" "[7]"]
  show ?thesis by simp
qed

end
