(* ===== verification/Assignment.thy ===== *)
theory Assignment
  imports TxnState OffsetStore "HOL-Library.List_Lexorder" "HOL-Library.Char_ord"
begin

text \<open>
  The cluster assignment and how a broker reads it: the \<open>assignment.json\<close> schema
  (\<open>crates/kaas-broker/src/assignment.rs\<close>), the hash that routes groups and transactions to a
  coordinator (\<open>group_hash.rs\<close>), the broker's view of the assignment with its epoch check
  (\<open>coordinator.rs\<close>), the freshness test of the produce path (\<open>self_fence.rs\<close>) and the driver that
  turns a change of assignment into calls of the storage engine (\<open>takeover.rs\<close>).

  The lease epoch, the clock and the file are arguments: \<open>assignment_read\<close> is what reading and
  parsing the file gave. Handlers registered for a change are called with the old and the new
  assignment; \<open>apply_if_new\<close> returns these arguments when it calls them.
\<close>

section \<open>The schema\<close>

datatype broker_health = Broker_alive | Broker_draining | Broker_dead

datatype partition_role = Leader_role

record broker_assignment =
  ba_id :: string
  ba_health :: broker_health
  ba_last_seen :: string

record partition_assignment =
  pa_topic :: string
  pa_partition :: int
  pa_broker :: string
  pa_epoch :: int
  pa_role :: partition_role

record consumer_group_assignment =
  ga_group_id :: string
  ga_broker :: string
  ga_epoch :: int

record assignment =
  as_controller_epoch :: int
  as_assignment_version :: int
  as_generated_at :: string
  as_controller :: string
  as_brokers :: "broker_assignment list"
  as_partitions :: "partition_assignment list"
  as_consumer_groups :: "consumer_group_assignment list"

definition broker_rows_sets :: "broker_assignment list \<Rightarrow> string list \<times> (string, bool) hash_map" where
  "broker_rows_sets bs =
     (map ba_id bs, foldl (\<lambda>m b. hm_insert (ba_id b) (ba_health b = Broker_alive) m) [] bs)"

definition broker_sets :: "assignment \<Rightarrow> string list \<times> (string, bool) hash_map" where
  "broker_sets a = broker_rows_sets (as_brokers a)"

definition partition_key :: "string \<Rightarrow> int \<Rightarrow> string" where
  "partition_key topic p = topic @ ''/'' @ fmt_int p"

section \<open>Hash routing\<close>

definition coordinator_slot :: "string \<Rightarrow> nat \<Rightarrow> nat" where
  "coordinator_slot key num_brokers =
     (if num_brokers = 0 then 0 else nat (uint (fnv1a_32 key) mod int num_brokers))"

definition is_alive :: "(string, bool) hash_map \<Rightarrow> string \<Rightarrow> bool" where
  "is_alive alive b = (hm_get alive b = Some True)"

definition pick_coordinator :: "string \<Rightarrow> string list \<Rightarrow> (string, bool) hash_map \<Rightarrow> string option" where
  "pick_coordinator key brokers alive =
     (if brokers = [] then None
      else let sorted = sort brokers;
               slot = coordinator_slot key (length sorted);
               alive_sorted = filter (is_alive alive) sorted
           in if is_alive alive (sorted ! slot) then Some (sorted ! slot)
              else if alive_sorted = [] then None
              else Some (alive_sorted ! (slot mod length alive_sorted)))"

definition coordinator_of :: "assignment \<Rightarrow> string \<Rightarrow> string option" where
  "coordinator_of a group_id =
     (case find (\<lambda>g. ga_group_id g = group_id) (as_consumer_groups a) of
        Some g \<Rightarrow> Some (ga_broker g)
      | None \<Rightarrow> (let (brokers, alive) = broker_sets a in pick_coordinator group_id brokers alive))"

section \<open>A broker's view of the assignment\<close>

record coordinator =
  co_self_id :: string
  co_current :: "assignment option"
  co_ownership :: "(string, int) hash_map"
  co_leaders :: "(string, string) hash_map"
  co_last_applied_version :: int
  co_self_fence :: bool

definition new_coordinator :: "string \<Rightarrow> coordinator" where
  "new_coordinator self_id =
     \<lparr>co_self_id = self_id, co_current = None, co_ownership = [], co_leaders = [],
      co_last_applied_version = 0, co_self_fence = False\<rparr>"

datatype assignment_read = Read_missing | Read_failed | Parse_failed | Read_assignment assignment

definition build_ownership :: "string \<Rightarrow> partition_assignment list \<Rightarrow> (string, int) hash_map" where
  "build_ownership self_id ps =
     foldl (\<lambda>m p. if pa_broker p = self_id
                  then hm_insert (partition_key (pa_topic p) (pa_partition p)) (pa_epoch p) m
                  else m) [] ps"

definition build_leaders :: "partition_assignment list \<Rightarrow> (string, string) hash_map" where
  "build_leaders ps =
     foldl (\<lambda>m p. hm_insert (partition_key (pa_topic p) (pa_partition p)) (pa_broker p) m) [] ps"

definition apply_if_new ::
  "assignment_read \<Rightarrow> int \<Rightarrow> coordinator \<Rightarrow> (assignment option \<times> assignment) option \<times> coordinator" where
  "apply_if_new file lease_epoch c =
     (case file of
        Read_assignment parsed \<Rightarrow>
          if as_controller_epoch parsed < lease_epoch then (None, c)
          else if (case co_current c of
                     Some prev \<Rightarrow> as_controller_epoch parsed = as_controller_epoch prev
                               \<and> as_assignment_version parsed \<le> co_last_applied_version c
                   | None \<Rightarrow> False)
          then (None, c)
          else (Some (co_current c, parsed),
                c\<lparr>co_ownership := build_ownership (co_self_id c) (as_partitions parsed),
                  co_leaders := build_leaders (as_partitions parsed),
                  co_last_applied_version := as_assignment_version parsed,
                  co_current := Some parsed\<rparr>)
      | _ \<Rightarrow> (None, c))"

definition owns :: "coordinator \<Rightarrow> string \<Rightarrow> int \<Rightarrow> bool" where
  "owns c topic p = (hm_get (co_ownership c) (partition_key topic p) \<noteq> None)"

definition current_epoch :: "coordinator \<Rightarrow> string \<Rightarrow> int \<Rightarrow> int option" where
  "current_epoch c topic p = hm_get (co_ownership c) (partition_key topic p)"

definition leader_for :: "coordinator \<Rightarrow> string \<Rightarrow> int \<Rightarrow> string option" where
  "leader_for c topic p = hm_get (co_leaders c) (partition_key topic p)"

definition group_coordinator :: "coordinator \<Rightarrow> string \<Rightarrow> string option" where
  "group_coordinator c group_id =
     (case co_current c of None \<Rightarrow> None
      | Some a \<Rightarrow>
          (case find (\<lambda>g. ga_group_id g = group_id) (as_consumer_groups a) of
             Some g \<Rightarrow> Some (ga_broker g)
           | None \<Rightarrow> (let (brokers, alive) = broker_sets a in pick_coordinator group_id brokers alive)))"

definition owns_group :: "coordinator \<Rightarrow> string \<Rightarrow> bool" where
  "owns_group c group_id =
     (case co_current c of None \<Rightarrow> False
      | Some a \<Rightarrow>
          (case find (\<lambda>g. ga_group_id g = group_id) (as_consumer_groups a) of
             Some g \<Rightarrow> ga_broker g = co_self_id c
           | None \<Rightarrow> (let (brokers, alive) = broker_sets a
                     in case pick_coordinator group_id brokers alive of
                          Some b \<Rightarrow> b = co_self_id c | None \<Rightarrow> False)))"

definition assignment_fence :: "coordinator \<Rightarrow> fence_stamp" where
  "assignment_fence c =
     (case co_current c of
        Some a \<Rightarrow> FenceStamp (as_controller_epoch a) (as_assignment_version a) | None \<Rightarrow> zero_stamp)"

definition txn_coordinator :: "coordinator \<Rightarrow> string \<Rightarrow> string option" where
  "txn_coordinator c txn_id =
     (case co_current c of None \<Rightarrow> None
      | Some a \<Rightarrow> (let (brokers, alive) = broker_sets a in pick_coordinator txn_id brokers alive))"

definition owns_txn :: "coordinator \<Rightarrow> string \<Rightarrow> bool" where
  "owns_txn c txn_id =
     (case co_current c of None \<Rightarrow> False
      | Some a \<Rightarrow> (let (brokers, alive) = broker_sets a
                  in case pick_coordinator txn_id brokers alive of
                       Some b \<Rightarrow> b = co_self_id c | None \<Rightarrow> False))"

definition is_serving :: "coordinator \<Rightarrow> (string \<times> int) list \<Rightarrow> bool" where
  "is_serving c open_keys =
     (case co_current c of None \<Rightarrow> False
      | Some a \<Rightarrow> list_all (\<lambda>p. (pa_topic p, pa_partition p) \<in> set open_keys)
                   (filter (\<lambda>p. pa_broker p = co_self_id c) (as_partitions a)))"

definition DEFAULT_HEARTBEAT_TIMEOUT_MS :: int where "DEFAULT_HEARTBEAT_TIMEOUT_MS = 3000"

definition is_heartbeat_fresh :: "int option \<Rightarrow> int \<Rightarrow> int \<Rightarrow> bool" where
  "is_heartbeat_fresh last_received now timeout =
     (case last_received of None \<Rightarrow> False | Some t \<Rightarrow> max 0 (now - t) \<le> timeout)"

definition enable_self_fence :: "coordinator \<Rightarrow> coordinator" where
  "enable_self_fence c = c\<lparr>co_self_fence := True\<rparr>"

definition heartbeat_fresh_for_writes :: "coordinator \<Rightarrow> int option \<Rightarrow> int \<Rightarrow> bool" where
  "heartbeat_fresh_for_writes c last_heartbeat now =
     (if \<not> co_self_fence c then True
      else is_heartbeat_fresh last_heartbeat now DEFAULT_HEARTBEAT_TIMEOUT_MS)"

section \<open>The takeover driver\<close>

record owned_ref =
  or_topic :: string
  or_partition :: int
  or_epoch :: int

text \<open>The calls the driver spawns, in the order it spawns them.\<close>

datatype engine_call = Take_over string int int | Relinquish string int

definition owned_by :: "string \<Rightarrow> assignment option \<Rightarrow> (string, owned_ref) hash_map" where
  "owned_by broker_id a =
     (case a of None \<Rightarrow> []
      | Some a \<Rightarrow>
          foldl (\<lambda>m p. if pa_broker p \<noteq> broker_id then m
                       else hm_insert (partition_key (pa_topic p) (pa_partition p))
                         \<lparr>or_topic = pa_topic p, or_partition = pa_partition p, or_epoch = pa_epoch p\<rparr> m)
                [] (as_partitions a))"

definition takeover_on_change :: "string \<Rightarrow> assignment option \<Rightarrow> assignment \<Rightarrow> engine_call list" where
  "takeover_on_change broker_id prev nxt =
     (let prev_owned = owned_by broker_id prev;
          next_owned = owned_by broker_id (Some nxt)
      in map (\<lambda>(k, ne). Take_over (or_topic ne) (or_partition ne) (or_epoch ne))
           (filter (\<lambda>(k, ne). case hm_get prev_owned k of
                                Some pe \<Rightarrow> or_epoch pe \<noteq> or_epoch ne | None \<Rightarrow> True) next_owned)
         @ map (\<lambda>(k, pe). Relinquish (or_topic pe) (or_partition pe))
             (filter (\<lambda>(k, pe). hm_get next_owned k = None) prev_owned))"

definition takeover_reconcile ::
  "string \<Rightarrow> (string \<times> int) list \<Rightarrow> (string \<Rightarrow> int \<Rightarrow> int option) \<Rightarrow> assignment \<Rightarrow> engine_call list" where
  "takeover_reconcile broker_id open_keys partition_epoch nxt =
     map (\<lambda>(k, r). Take_over (or_topic r) (or_partition r) (or_epoch r))
       (filter (\<lambda>(k, r). \<not> ((or_topic r, or_partition r) \<in> set open_keys
                          \<and> \<not> (case partition_epoch (or_topic r) (or_partition r) of
                                 Some have \<Rightarrow> have < or_epoch r | None \<Rightarrow> False)))
          (owned_by broker_id (Some nxt)))"

section \<open>Keys\<close>

lemma decimal_digits: "c \<in> set (map digit_char (nat_digits 10 n)) \<Longrightarrow> to_digit 10 c \<noteq> None"
proof -
  assume "c \<in> set (map digit_char (nat_digits 10 n))"
  then obtain d where "d \<in> set (nat_digits 10 n)" "c = digit_char d" by auto
  then show ?thesis using nat_digits_bound [of 10 d n] to_digit_char [of d 10] by simp
qed

lemma slash_not_in_fmt_int [simp]: "CHR ''/'' \<notin> set (fmt_int v)"
proof -
  have "to_digit 10 CHR ''/'' = None" by (simp add: to_digit_def)
  then have "CHR ''/'' \<notin> set (map digit_char (nat_digits 10 n))" for n
    using decimal_digits [of "CHR ''/''" n] by blast
  then show ?thesis by (simp add: fmt_int_def)
qed

lemma nat_digits_not_minus: "map digit_char (nat_digits 10 n) \<noteq> CHR ''-'' # cs"
proof
  assume "map digit_char (nat_digits 10 n) = CHR ''-'' # cs"
  then have "CHR ''-'' \<in> set (map digit_char (nat_digits 10 n))" by simp
  then have "to_digit 10 CHR ''-'' \<noteq> None" by (rule decimal_digits)
  then show False by (simp add: to_digit_def)
qed

lemma decimal_inj:
  assumes "map digit_char (nat_digits 10 m) = map digit_char (nat_digits 10 n)"
  shows "m = n"
proof -
  have radix: "(2 :: nat) \<le> 10" "(10 :: nat) \<le> 16" by simp_all
  have "Some m = parse_digits 10 0 (map digit_char (nat_digits 10 m))"
    by (rule parse_nat_digits [OF radix, symmetric])
  also have "\<dots> = parse_digits 10 0 (map digit_char (nat_digits 10 n))" by (simp only: assms)
  also have "\<dots> = Some n" by (rule parse_nat_digits [OF radix])
  finally show ?thesis by (rule option.inject [THEN iffD1])
qed

lemma fmt_int_inj [simp]: "fmt_int v = fmt_int w \<longleftrightarrow> v = w"
proof
  assume eq: "fmt_int v = fmt_int w"
  consider "v < 0" "w < 0" | "v < 0" "0 \<le> w" | "0 \<le> v" "w < 0" | "0 \<le> v" "0 \<le> w" by linarith
  then show "v = w"
  proof cases
    case 1
    with eq have "nat (- v) = nat (- w)" by (intro decimal_inj) (simp add: fmt_int_def)
    with 1 show ?thesis by simp
  next
    case 2
    with eq have "map digit_char (nat_digits 10 (nat w)) = CHR ''-'' # map digit_char (nat_digits 10 (nat (- v)))"
      by (simp add: fmt_int_def)
    then show ?thesis by (simp only: nat_digits_not_minus)
  next
    case 3
    with eq have "map digit_char (nat_digits 10 (nat v)) = CHR ''-'' # map digit_char (nat_digits 10 (nat (- w)))"
      by (simp add: fmt_int_def)
    then show ?thesis by (simp only: nat_digits_not_minus)
  next
    case 4
    with eq have "nat v = nat w" by (intro decimal_inj) (simp add: fmt_int_def)
    with 4 show ?thesis by simp
  qed
qed simp

lemma partition_key_inj [simp]: "partition_key t p = partition_key t' p' \<longleftrightarrow> t = t' \<and> p = p'"
proof
  assume "partition_key t p = partition_key t' p'"
  then have "rev (fmt_int p) @ CHR ''/'' # rev t = rev (fmt_int p') @ CHR ''/'' # rev t'"
    by (simp add: partition_key_def) (metis append.assoc append_Cons append_Nil rev.simps(2) rev_append)
  then have "split_once CHR ''/'' (rev (fmt_int p) @ CHR ''/'' # rev t)
           = split_once CHR ''/'' (rev (fmt_int p') @ CHR ''/'' # rev t')" by simp
  then have "rev (fmt_int p) = rev (fmt_int p') \<and> rev t = rev t'"
    by (simp add: split_once_at)
  then show "t = t' \<and> p = p'" by simp
qed simp

abbreviation pa_key :: "partition_assignment \<Rightarrow> string" where
  "pa_key p \<equiv> partition_key (pa_topic p) (pa_partition p)"

lemma pa_key_eq [simp]: "inj_on pa_key A \<longleftrightarrow> inj_on (\<lambda>p. (pa_topic p, pa_partition p)) A"
  by (auto simp: inj_on_def)

section \<open>Indexes\<close>

lemma foldl_index:
  "distinct (map key ps) \<Longrightarrow> foldl (\<lambda>m p. hm_insert (key p) (val p) m) [] ps = map (\<lambda>p. (key p, val p)) ps"
  using foldl_hm_insert_Nil [of "map (\<lambda>p. (key p, val p)) ps"] by (simp add: foldl_map comp_def)

lemma map_of_index:
  "distinct (map key ps) \<Longrightarrow> p \<in> set ps \<Longrightarrow> map_of (map (\<lambda>p. (key p, val p)) ps) (key p) = Some (val p)"
  by (induction ps) (auto simp: image_iff)

end
