(* ===== verification/Balancer.thy ===== *)
theory Balancer
  imports Assignment "HOL-Library.While_Combinator" "HOL-Library.Product_Lexorder"
begin

text \<open>
  Placement of partitions and consumer groups on brokers
  (\<open>crates/kaas-controller/src/balancer.rs\<close>): keep what has a live leader, place the rest, level the
  brokers, level each topic, then settle the leader epochs.

  \<open>rendezvous_hash\<close> is XXH64 of a third-party crate; it is the argument \<open>rh\<close> of the definitions, any
  function of topic, partition and broker, and nothing is assumed of it. The loop of
  \<open>smooth_partitions\<close> has no bound in the source and is a \<open>while_option\<close>, whose value \<open>None\<close> is a run
  that does not end; \<open>smooth_partitions_per_topic\<close> has the bound the source gives it.
  A \<open>u32\<close> epoch wraps at \<open>u32_MAX\<close>, as a release build does. Counts are of slots held in memory and
  stay below \<open>i32_MAX\<close>.
\<close>

type_synonym rendezvous = "string \<Rightarrow> int \<Rightarrow> string \<Rightarrow> int"

record topic_spec =
  ts_name :: string
  ts_partition_count :: int

record partition_slot =
  sl_topic :: string
  sl_partition :: int
  sl_broker :: string
  sl_sticky :: bool

section \<open>Counting\<close>

definition hm_count :: "('k, int) hash_map \<Rightarrow> 'k \<Rightarrow> int" where
  "hm_count m k = (case hm_get m k of None \<Rightarrow> 0 | Some n \<Rightarrow> n)"

text \<open>\<open>*m.entry(k).or_insert(0) += d\<close>\<close>

definition hm_add :: "'k \<Rightarrow> int \<Rightarrow> ('k, int) hash_map \<Rightarrow> ('k, int) hash_map" where
  "hm_add k d m = hm_insert k (hm_count m k + d) m"

definition zero_counts :: "string list \<Rightarrow> (string, int) hash_map" where
  "zero_counts alive = foldl (\<lambda>m b. hm_insert b 0 m) [] alive"

definition broker_counts :: "partition_slot list \<Rightarrow> string list \<Rightarrow> (string, int) hash_map" where
  "broker_counts slots alive = foldl (\<lambda>m s. hm_add (sl_broker s) 1 m) (zero_counts alive) slots"

definition topic_count_on :: "partition_slot list \<Rightarrow> string \<Rightarrow> string \<Rightarrow> int" where
  "topic_count_on slots topic broker =
     int (length (filter (\<lambda>s. sl_topic s = topic \<and> sl_broker s = broker) slots))"

section \<open>Pinning and placing\<close>

definition prev_partitions ::
  "partition_assignment list option \<Rightarrow> (string, partition_assignment) hash_map" where
  "prev_partitions prev =
     (case prev of None \<Rightarrow> []
      | Some ps \<Rightarrow> foldl (\<lambda>m p. hm_insert (partition_key (pa_topic p) (pa_partition p)) p m) [] ps)"

definition pin_slot ::
  "(string, partition_assignment) hash_map \<Rightarrow> string list \<Rightarrow> string \<Rightarrow> int \<Rightarrow> partition_slot" where
  "pin_slot prev_map alive topic p =
     (case hm_get prev_map (partition_key topic p) of
        Some pa \<Rightarrow>
          if pa_broker pa \<in> set alive
          then \<lparr>sl_topic = topic, sl_partition = p, sl_broker = pa_broker pa, sl_sticky = True\<rparr>
          else \<lparr>sl_topic = topic, sl_partition = p, sl_broker = [], sl_sticky = False\<rparr>
      | None \<Rightarrow> \<lparr>sl_topic = topic, sl_partition = p, sl_broker = [], sl_sticky = False\<rparr>)"

definition pin_slots ::
  "(string, partition_assignment) hash_map \<Rightarrow> string list \<Rightarrow> topic_spec list \<Rightarrow> partition_slot list" where
  "pin_slots prev_map alive topics =
     concat (map (\<lambda>t. map (pin_slot prev_map alive (ts_name t)) [0..ts_partition_count t - 1]) topics)"

type_synonym placing = "(string, int) hash_map \<times> (string \<times> string, int) hash_map"

definition place_counts :: "partition_slot list \<Rightarrow> string list \<Rightarrow> placing" where
  "place_counts slots alive =
     foldl (\<lambda>(total, per_topic) s.
              if sl_broker s = [] then (total, per_topic)
              else (hm_add (sl_broker s) 1 total, hm_add (sl_topic s, sl_broker s) 1 per_topic))
           (zero_counts alive, []) slots"

definition better_placing :: "int \<times> int \<times> int \<Rightarrow> ((int \<times> int \<times> int) \<times> string) option \<Rightarrow> bool" where
  "better_placing cand best =
     (case best of None \<Rightarrow> True
      | Some ((bt, ball, bscore), _) \<Rightarrow>
          (fst cand, fst (snd cand)) < (bt, ball)
        \<or> (fst cand, fst (snd cand)) = (bt, ball) \<and> snd (snd cand) > bscore)"

definition best_broker :: "rendezvous \<Rightarrow> placing \<Rightarrow> string list \<Rightarrow> string \<Rightarrow> int \<Rightarrow> string option" where
  "best_broker rh counts alive topic p =
     (let cand = (\<lambda>b. (hm_count (snd counts) (topic, b), hm_count (fst counts) b, rh topic p b))
      in map_option snd
           (foldl (\<lambda>best b. if better_placing (cand b) best then Some (cand b, b) else best) None alive))"

fun place_loop :: "rendezvous \<Rightarrow> string list \<Rightarrow> placing \<Rightarrow> partition_slot list \<Rightarrow> partition_slot list" where
  "place_loop rh alive counts [] = []"
| "place_loop rh alive counts (s # ss) =
     (if sl_broker s \<noteq> [] then s # place_loop rh alive counts ss
      else case best_broker rh counts alive (sl_topic s) (sl_partition s) of
             None \<Rightarrow> s # place_loop rh alive counts ss
           | Some b \<Rightarrow> s\<lparr>sl_broker := b\<rparr>
                      # place_loop rh alive
                          (hm_add b 1 (fst counts), hm_add (sl_topic s, b) 1 (snd counts)) ss)"

definition place_unpinned :: "rendezvous \<Rightarrow> partition_slot list \<Rightarrow> string list \<Rightarrow> partition_slot list" where
  "place_unpinned rh slots alive =
     (if alive = [] then slots else place_loop rh alive (place_counts slots alive) slots)"

section \<open>Levelling the brokers\<close>

text \<open>The scan for the most and the least loaded broker, the same in both passes.\<close>

definition extremes :: "(string \<Rightarrow> int) \<Rightarrow> string list \<Rightarrow> (string \<times> int) \<times> (string \<times> int)" where
  "extremes count alive =
     foldl (\<lambda>((hi, hi_count), (lo, lo_count)) b.
              ((if count b > hi_count then (b, count b) else (hi, hi_count)),
               (if count b < lo_count then (b, count b) else (lo, lo_count))))
           ((hd alive, count (hd alive)), (hd alive, count (hd alive))) (tl alive)"

definition victim_key :: "rendezvous \<Rightarrow> partition_slot list \<Rightarrow> string \<Rightarrow> string \<Rightarrow> partition_slot \<Rightarrow> (bool \<times> bool) \<times> int" where
  "victim_key rh slots hi lo s =
     ((sl_sticky s, \<not> topic_count_on slots (sl_topic s) hi > topic_count_on slots (sl_topic s) lo),
      rh (sl_topic s) (sl_partition s) lo)"

definition better_victim :: "rendezvous \<Rightarrow> partition_slot list \<Rightarrow> string \<Rightarrow> string \<Rightarrow> partition_slot \<Rightarrow> nat option \<Rightarrow> bool" where
  "better_victim rh slots hi lo s best =
     (case best of None \<Rightarrow> True
      | Some prev \<Rightarrow>
          let key = victim_key rh slots hi lo s; old = victim_key rh slots hi lo (slots ! prev)
          in if fst key \<noteq> fst old then fst key < fst old
             else if snd key \<noteq> snd old then snd key > snd old
             else (sl_topic s, sl_partition s) < (sl_topic (slots ! prev), sl_partition (slots ! prev)))"

definition find_victim :: "rendezvous \<Rightarrow> partition_slot list \<Rightarrow> string \<Rightarrow> string \<Rightarrow> nat option" where
  "find_victim rh slots hi lo =
     foldl (\<lambda>best (i, s).
              if sl_broker s \<noteq> hi then best
              else if better_victim rh slots hi lo s best then Some i else best)
           None (enumerate 0 slots)"

definition move_slot :: "partition_slot list \<Rightarrow> nat \<Rightarrow> string \<Rightarrow> partition_slot list" where
  "move_slot slots i broker = slots[i := (slots ! i)\<lparr>sl_broker := broker\<rparr>]"

type_synonym smoothing = "partition_slot list \<times> (string, int) hash_map"

definition smooth_unlevel :: "rendezvous \<Rightarrow> string list \<Rightarrow> smoothing \<Rightarrow> bool" where
  "smooth_unlevel rh alive st =
     (let ((hi, hi_count), (lo, lo_count)) = extremes (hm_count (snd st)) alive
      in \<not> hi_count - lo_count \<le> 1 \<and> find_victim rh (fst st) hi lo \<noteq> None)"

definition smooth_step :: "rendezvous \<Rightarrow> string list \<Rightarrow> smoothing \<Rightarrow> smoothing" where
  "smooth_step rh alive st =
     (let ((hi, _), (lo, _)) = extremes (hm_count (snd st)) alive
      in case find_victim rh (fst st) hi lo of
           None \<Rightarrow> st
         | Some i \<Rightarrow> (move_slot (fst st) i lo, hm_add lo 1 (hm_add hi (-1) (snd st))))"

definition smooth_partitions :: "rendezvous \<Rightarrow> partition_slot list \<Rightarrow> string list \<Rightarrow> partition_slot list option" where
  "smooth_partitions rh slots alive =
     (if length alive < 2 \<or> slots = [] then Some slots
      else map_option fst
             (while_option (smooth_unlevel rh alive) (smooth_step rh alive)
                (slots, broker_counts slots alive)))"

section \<open>Levelling each topic\<close>

text \<open>\<open>min_by_key\<close> over the enumerated slots: the first of the least.\<close>

definition min_index :: "(partition_slot \<Rightarrow> 'k :: linorder) \<Rightarrow> (nat \<times> partition_slot) list \<Rightarrow> nat option" where
  "min_index key es =
     map_option fst
       (foldl (\<lambda>best (i, s). case best of None \<Rightarrow> Some (i, s)
                 | Some (j, t) \<Rightarrow> if key s < key t then Some (i, s) else best) None es)"

definition pick_slot :: "partition_slot list \<Rightarrow> string \<Rightarrow> string \<Rightarrow> nat option" where
  "pick_slot slots topic broker =
     min_index (\<lambda>s. (sl_sticky s, sl_partition s))
       (filter (\<lambda>(i, s). sl_topic s = topic \<and> sl_broker s = broker) (enumerate 0 slots))"

definition pick_partner :: "partition_slot list \<Rightarrow> string \<Rightarrow> string \<Rightarrow> string \<Rightarrow> nat option" where
  "pick_partner slots topic hi lo =
     min_index (\<lambda>s. (sl_sticky s, sl_topic s, sl_partition s))
       (filter (\<lambda>(i, s). sl_broker s = lo \<and> sl_topic s \<noteq> topic
                 \<and> topic_count_on slots (sl_topic s) lo > topic_count_on slots (sl_topic s) hi)
          (enumerate 0 slots))"

definition improve_topic :: "partition_slot list \<Rightarrow> string list \<Rightarrow> string \<Rightarrow> partition_slot list option" where
  "improve_topic slots alive topic =
     (let totals = broker_counts slots alive;
          ((hi, hi_count), (lo, lo_count)) = extremes (topic_count_on slots topic) alive
      in if hi_count - lo_count \<le> 1 then None
         else case pick_slot slots topic hi of
                None \<Rightarrow> None
              | Some donor \<Rightarrow>
                  if hm_count totals hi \<ge> hm_count totals lo then Some (move_slot slots donor lo)
                  else case pick_partner slots topic hi lo of
                         None \<Rightarrow> None
                       | Some partner \<Rightarrow> Some (move_slot (move_slot slots donor lo) partner hi))"

text \<open>\<open>Some\<close> is the source's answer \<open>true\<close> with the slots it left.\<close>

fun improve_one_topic :: "partition_slot list \<Rightarrow> string list \<Rightarrow> string list \<Rightarrow> partition_slot list option" where
  "improve_one_topic slots alive [] = None"
| "improve_one_topic slots alive (topic # topics) =
     (case improve_topic slots alive topic of
        Some slots' \<Rightarrow> Some slots' | None \<Rightarrow> improve_one_topic slots alive topics)"

fun per_topic_loop :: "nat \<Rightarrow> partition_slot list \<Rightarrow> string list \<Rightarrow> string list \<Rightarrow> partition_slot list" where
  "per_topic_loop 0 slots alive topics = slots"
| "per_topic_loop (Suc n) slots alive topics =
     (case improve_one_topic slots alive topics of
        None \<Rightarrow> slots | Some slots' \<Rightarrow> per_topic_loop n slots' alive topics)"

definition smooth_partitions_per_topic :: "partition_slot list \<Rightarrow> string list \<Rightarrow> partition_slot list" where
  "smooth_partitions_per_topic slots alive =
     (if length alive < 2 \<or> slots = [] then slots
      else per_topic_loop (length slots * length alive + 16) slots alive
             (remdups (sort (map sl_topic slots))))"

section \<open>The partition balancer\<close>

definition reconcile_slot ::
  "(string, partition_assignment) hash_map \<Rightarrow> string list \<Rightarrow> (string, int) hash_map \<Rightarrow>
   partition_slot \<Rightarrow> partition_assignment" where
  "reconcile_slot prev_map alive epoch_floor s =
     (let key = partition_key (sl_topic s) (sl_partition s);
          prev_entry = hm_get prev_map key;
          low = hm_count epoch_floor key;
          bumped = \<lparr>pa_topic = sl_topic s, pa_partition = sl_partition s, pa_broker = sl_broker s,
            pa_epoch = max (case prev_entry of Some pa \<Rightarrow> (pa_epoch pa + 1) mod 2 ^ 32 | None \<Rightarrow> 1) low,
            pa_role = Leader_role\<rparr>
      in case prev_entry of
           Some pa \<Rightarrow>
             if pa_broker pa \<in> set alive \<and> pa_broker pa = sl_broker s \<and> pa_epoch pa \<ge> low
             then pa else bumped
         | None \<Rightarrow> bumped)"

definition balance ::
  "rendezvous \<Rightarrow> partition_assignment list option \<Rightarrow> string list \<Rightarrow> topic_spec list \<Rightarrow>
   (string, int) hash_map \<Rightarrow> partition_assignment list option" where
  "balance rh prev brokers topics epoch_floor =
     (if brokers = [] then Some []
      else let alive = sort brokers;
               prev_map = prev_partitions prev;
               placed = place_unpinned rh (pin_slots prev_map alive topics) alive
           in map_option (\<lambda>slots. map (reconcile_slot prev_map alive epoch_floor)
                                    (smooth_partitions_per_topic slots alive))
                (smooth_partitions rh placed alive))"

section \<open>The group balancer\<close>

definition prev_groups ::
  "consumer_group_assignment list option \<Rightarrow> (string, consumer_group_assignment) hash_map" where
  "prev_groups prev =
     (case prev of None \<Rightarrow> [] | Some gs \<Rightarrow> foldl (\<lambda>m g. hm_insert (ga_group_id g) g m) [] gs)"

definition place_group ::
  "(string, consumer_group_assignment) hash_map \<Rightarrow> string list \<Rightarrow> (string, bool) hash_map \<Rightarrow> string \<Rightarrow>
   consumer_group_assignment" where
  "place_group prev_map ids alive_map g =
     (let prev_entry = hm_get prev_map g;
          minted = \<lparr>ga_group_id = g,
            ga_broker = (case pick_coordinator g ids alive_map of Some b \<Rightarrow> b | None \<Rightarrow> []),
            ga_epoch = (case prev_entry of Some ga \<Rightarrow> (ga_epoch ga + 1) mod 2 ^ 32 | None \<Rightarrow> 1)\<rparr>
      in case prev_entry of
           Some ga \<Rightarrow> if ga_broker ga \<in> set (filter (is_alive alive_map) ids) then ga else minted
         | None \<Rightarrow> minted)"

fun place_groups ::
  "(string, consumer_group_assignment) hash_map \<Rightarrow> string list \<Rightarrow> (string, bool) hash_map \<Rightarrow>
   string list \<Rightarrow> string list \<Rightarrow> consumer_group_assignment list" where
  "place_groups prev_map ids alive_map placed [] = []"
| "place_groups prev_map ids alive_map placed (g # gs) =
     (if g \<in> set placed then place_groups prev_map ids alive_map placed gs
      else place_group prev_map ids alive_map g # place_groups prev_map ids alive_map (g # placed) gs)"

definition balance_groups ::
  "consumer_group_assignment list option \<Rightarrow> broker_assignment list \<Rightarrow> string list \<Rightarrow>
   consumer_group_assignment list" where
  "balance_groups prev brokers groups =
     (if brokers = [] then []
      else let (ids, alive_map) = broker_rows_sets brokers;
               prev_map = prev_groups prev
           in place_groups prev_map ids alive_map [] groups
              @ sort_key ga_group_id
                  (filter (\<lambda>ga. ga_group_id ga \<notin> set groups
                             \<and> ga_broker ga \<in> set (filter (is_alive alive_map) ids))
                     (map snd prev_map)))"

section \<open>Counts\<close>

definition on_broker :: "partition_slot list \<Rightarrow> string \<Rightarrow> int" where
  "on_broker slots b = int (length (filter (\<lambda>s. sl_broker s = b) slots))"

abbreviation slot_keys :: "partition_slot list \<Rightarrow> (string \<times> int) list" where
  "slot_keys slots \<equiv> map (\<lambda>s. (sl_topic s, sl_partition s)) slots"

abbreviation placed_on :: "string list \<Rightarrow> partition_slot list \<Rightarrow> bool" where
  "placed_on alive slots \<equiv> \<forall>s \<in> set slots. sl_broker s \<in> set alive"

lemma hm_count_add [simp]: "hm_count (hm_add k d m) k' = hm_count m k' + (if k = k' then d else 0)"
  by (simp add: hm_count_def hm_add_def)

lemma hm_count_zero [simp]: "hm_count (zero_counts alive) b = 0"
proof -
  have "hm_count m b = 0 \<Longrightarrow> hm_count (foldl (\<lambda>m b. hm_insert b 0 m) m alive) b = 0" for m
    by (induction alive arbitrary: m) (auto simp: hm_count_def)
  then show ?thesis by (simp add: zero_counts_def hm_count_def)
qed

lemma hm_count_broker_counts [simp]: "hm_count (broker_counts slots alive) b = on_broker slots b"
proof -
  have "hm_count (foldl (\<lambda>m s. hm_add (sl_broker s) 1 m) m slots) b = hm_count m b + on_broker slots b" for m
    by (induction slots arbitrary: m) (auto simp: on_broker_def)
  then show ?thesis by (simp add: broker_counts_def)
qed

lemma on_broker_pos: "0 < on_broker slots b \<longleftrightarrow> (\<exists>s \<in> set slots. sl_broker s = b)"
  by (auto simp: on_broker_def filter_empty_conv)

lemma topic_count_on_pos: "0 < topic_count_on slots t b \<longleftrightarrow> (\<exists>s \<in> set slots. sl_topic s = t \<and> sl_broker s = b)"
  by (auto simp: topic_count_on_def filter_empty_conv)

lemma extremes_correct:
  assumes "alive \<noteq> []" "extremes count alive = ((hi, hc), (lo, lc))"
  shows "hi \<in> set alive" "lo \<in> set alive" "hc = count hi" "lc = count lo"
    "\<forall>b \<in> set alive. lc \<le> count b \<and> count b \<le> hc"
proof -
  let ?f = "\<lambda>((hi, hc), (lo, lc)) b.
      ((if count b > hc then (b, count b) else (hi, hc)),
       (if count b < lc then (b, count b) else (lo, lc)))"
  let ?ok = "\<lambda>bs st. case st of ((hi, hc), (lo, lc)) \<Rightarrow>
      hi \<in> set bs \<and> lo \<in> set bs \<and> hc = count hi \<and> lc = count lo
      \<and> (\<forall>b \<in> set bs. lc \<le> count b \<and> count b \<le> hc)"
  have "?ok (seen @ bs) (foldl ?f st bs)" if "?ok seen st" for seen st bs
    using that
  proof (induction bs arbitrary: seen st)
    case (Cons b bs)
    have "?ok (seen @ [b]) (?f st b)" using Cons.prems by (auto split: prod.splits)
    from Cons.IH [OF this] show ?case by simp
  qed simp
  from this [of "[hd alive]" "((hd alive, count (hd alive)), (hd alive, count (hd alive)))" "tl alive"]
  have "?ok alive (extremes count alive)"
    using assms(1) by (simp add: extremes_def)
  with assms(2) show "hi \<in> set alive" "lo \<in> set alive" "hc = count hi" "lc = count lo"
    "\<forall>b \<in> set alive. lc \<le> count b \<and> count b \<le> hc" by auto
qed

section \<open>Moves\<close>

lemma length_filter_update:
  "i < length xs \<Longrightarrow> int (length (filter P (xs[i := y]))) =
     int (length (filter P xs)) - (if P (xs ! i) then 1 else 0) + (if P y then 1 else 0)"
proof (induction xs arbitrary: i)
  case (Cons x xs)
  show ?case
  proof (cases i)
    case 0
    then show ?thesis by simp
  next
    case (Suc j)
    with Cons.prems Cons.IH [of j] show ?thesis by (simp split: if_splits)
  qed
qed simp

lemma slot_keys_move [simp]: "slot_keys (move_slot slots i b) = slot_keys slots"
  by (cases "i < length slots")
    (auto simp: move_slot_def map_update list_update_same_conv intro!: nth_equalityI simp: nth_list_update)

lemma length_move [simp]: "length (move_slot slots i b) = length slots"
  by (simp add: move_slot_def)

lemma placed_on_move: "b \<in> set alive \<Longrightarrow> placed_on alive slots \<Longrightarrow> placed_on alive (move_slot slots i b)"
  by (cases "i < length slots") (auto simp: move_slot_def dest!: set_update_subset_insert [THEN subsetD])

lemma on_broker_move:
  "i < length slots \<Longrightarrow> on_broker (move_slot slots i b) c =
     on_broker slots c - (if sl_broker (slots ! i) = c then 1 else 0) + (if b = c then 1 else 0)"
  by (simp add: on_broker_def move_slot_def length_filter_update)

lemma topic_count_move:
  "i < length slots \<Longrightarrow> topic_count_on (move_slot slots i b) t c =
     topic_count_on slots t c - (if sl_topic (slots ! i) = t \<and> sl_broker (slots ! i) = c then 1 else 0)
     + (if sl_topic (slots ! i) = t \<and> b = c then 1 else 0)"
  by (simp add: topic_count_on_def move_slot_def length_filter_update)

lemma find_victim_Some: "find_victim rh slots hi lo = Some i \<Longrightarrow> i < length slots \<and> sl_broker (slots ! i) = hi"
proof -
  let ?f = "\<lambda>best (i, s). if sl_broker s \<noteq> hi then best
      else if better_victim rh slots hi lo s best then Some i else best"
  have "case foldl ?f best es of None \<Rightarrow> True | Some i \<Rightarrow> i < length slots \<and> sl_broker (slots ! i) = hi"
    if "\<forall>(i, s) \<in> set es. i < length slots \<and> s = slots ! i"
      "case best of None \<Rightarrow> True | Some i \<Rightarrow> i < length slots \<and> sl_broker (slots ! i) = hi" for es best
    using that
  proof (induction es arbitrary: best)
    case (Cons e es)
    obtain i s where e: "e = (i, s)" by (cases e)
    with Cons.prems have "case ?f best e of None \<Rightarrow> True | Some i \<Rightarrow> i < length slots \<and> sl_broker (slots ! i) = hi"
      by auto
    with Cons.IH [of "?f best e"] Cons.prems(1) show ?case by simp
  qed simp
  from this [of "enumerate 0 slots" None]
  show "find_victim rh slots hi lo = Some i \<Longrightarrow> ?thesis"
    by (force simp: find_victim_def in_set_enumerate_eq)
qed

lemma find_victim_None: "find_victim rh slots hi lo = None \<longleftrightarrow> on_broker slots hi = 0"
proof -
  let ?f = "\<lambda>best (i, s). if sl_broker s \<noteq> hi then best
      else if better_victim rh slots hi lo s best then Some i else best"
  have "foldl ?f best es = None \<longleftrightarrow> best = None \<and> (\<forall>e \<in> set es. sl_broker (snd e) \<noteq> hi)" for es best
  proof (induction es arbitrary: best)
    case (Cons e es)
    obtain i s where e: "e = (i, s)" by (cases e)
    have "?f best e = None \<longleftrightarrow> best = None \<and> sl_broker s \<noteq> hi"
      by (cases best) (simp_all add: e better_victim_def)
    with Cons.IH [of "?f best e"] show ?case by (simp add: e)
  qed simp
  from this [of None "enumerate 0 slots"]
  have "find_victim rh slots hi lo = None \<longleftrightarrow> (\<forall>s \<in> snd ` set (enumerate 0 slots). sl_broker s \<noteq> hi)"
    by (simp add: find_victim_def)
  also have "snd ` set (enumerate 0 slots) = set slots"
    by (metis map_snd_enumerate set_map)
  finally show ?thesis
    using on_broker_pos [of slots hi] by (auto simp: on_broker_def filter_empty_conv)
qed

section \<open>The cluster-wide pass ends, level\<close>

definition load_square :: "string list \<Rightarrow> partition_slot list \<Rightarrow> nat" where
  "load_square alive slots = nat (\<Sum>b \<in> set alive. (on_broker slots b)\<^sup>2)"

lemma move_lowers_load_square:
  assumes "hi \<in> set alive" "lo \<in> set alive" "on_broker slots hi - on_broker slots lo \<ge> 2"
    and "i < length slots" "sl_broker (slots ! i) = hi"
  shows "load_square alive (move_slot slots i lo) < load_square alive slots"
proof -
  have neq: "hi \<noteq> lo" using assms(3) by auto
  define A where "A = set alive - {hi, lo}"
  have split: "(\<Sum>b \<in> set alive. (on_broker ss b)\<^sup>2) =
      (on_broker ss hi)\<^sup>2 + ((on_broker ss lo)\<^sup>2 + (\<Sum>b \<in> A. (on_broker ss b)\<^sup>2))" for ss
    using assms(1,2) neq sum.remove [of "set alive" hi "\<lambda>b. (on_broker ss b)\<^sup>2"]
      sum.remove [of "set alive - {hi}" lo "\<lambda>b. (on_broker ss b)\<^sup>2"]
    by (simp add: A_def Diff_insert2 [symmetric] insert_commute)
  have rest: "(\<Sum>b \<in> A. (on_broker (move_slot slots i lo) b)\<^sup>2) = (\<Sum>b \<in> A. (on_broker slots b)\<^sup>2)"
    by (rule sum.cong) (use assms(4,5) in \<open>auto simp: A_def on_broker_move\<close>)
  let ?h = "on_broker slots hi" and ?l = "on_broker slots lo"
  have "(?h - 1)\<^sup>2 + (?l + 1)\<^sup>2 < ?h\<^sup>2 + ?l\<^sup>2"
    using assms(3) by (simp add: power2_eq_square algebra_simps)
  then have "(\<Sum>b \<in> set alive. (on_broker (move_slot slots i lo) b)\<^sup>2) < (\<Sum>b \<in> set alive. (on_broker slots b)\<^sup>2)"
    using neq assms(4,5) unfolding split rest by (simp add: on_broker_move)
  moreover have "0 \<le> (\<Sum>b \<in> set alive. (on_broker (move_slot slots i lo) b)\<^sup>2)"
    by (simp add: sum_nonneg)
  ultimately show ?thesis by (simp add: load_square_def)
qed

definition smooth_inv :: "(string \<times> int) list \<Rightarrow> string list \<Rightarrow> smoothing \<Rightarrow> bool" where
  "smooth_inv keys alive st \<longleftrightarrow>
     (\<forall>b. hm_count (snd st) b = on_broker (fst st) b) \<and> slot_keys (fst st) = keys
   \<and> placed_on alive (fst st)"

lemma smooth_step_ok:
  assumes inv: "smooth_inv keys alive st" and go: "smooth_unlevel rh alive st" and alive: "alive \<noteq> []"
  shows "smooth_inv keys alive (smooth_step rh alive st)
       \<and> load_square alive (fst (smooth_step rh alive st)) < load_square alive (fst st)"
proof -
  obtain hi hc lo lc where ex: "extremes (hm_count (snd st)) alive = ((hi, hc), (lo, lc))"
    by (metis surj_pair)
  note e = extremes_correct [OF alive ex]
  from go ex obtain i where i: "find_victim rh (fst st) hi lo = Some i" and gap: "hc - lc \<ge> 2"
    by (auto simp: smooth_unlevel_def)
  note v = find_victim_Some [OF i]
  have step: "smooth_step rh alive st = (move_slot (fst st) i lo, hm_add lo 1 (hm_add hi (-1) (snd st)))"
    by (simp add: smooth_step_def ex i)
  have "smooth_inv keys alive (smooth_step rh alive st)"
    using inv v e placed_on_move [of lo alive "fst st" i]
    by (auto simp: smooth_inv_def step on_broker_move)
  moreover have "load_square alive (fst (smooth_step rh alive st)) < load_square alive (fst st)"
    using inv v e gap by (simp add: step smooth_inv_def move_lowers_load_square)
  ultimately show ?thesis ..
qed

definition level :: "(string \<Rightarrow> int) \<Rightarrow> string list \<Rightarrow> bool" where
  "level count alive \<longleftrightarrow> (\<forall>a \<in> set alive. \<forall>b \<in> set alive. count a - count b \<le> 1)"

lemma level_extremes:
  assumes "alive \<noteq> []" "extremes count alive = ((hi, hc), (lo, lc))"
  shows "hc - lc \<le> 1 \<longleftrightarrow> level count alive"
proof -
  note e = extremes_correct [OF assms]
  have "level count alive" if gap: "hc - lc \<le> 1"
    unfolding level_def
  proof (intro ballI)
    fix a b
    assume "a \<in> set alive" "b \<in> set alive"
    with e(5) have "count a \<le> hc" "lc \<le> count b" by auto
    with gap show "count a - count b \<le> 1" by linarith
  qed
  moreover have "hc - lc \<le> 1" if "level count alive" using that e(1-4) by (simp add: level_def)
  ultimately show ?thesis by blast
qed

lemma smooth_stops_level:
  assumes inv: "smooth_inv keys alive st" and stop: "\<not> smooth_unlevel rh alive st" and alive: "alive \<noteq> []"
  shows "level (on_broker (fst st)) alive"
proof -
  obtain hi hc lo lc where ex: "extremes (hm_count (snd st)) alive = ((hi, hc), (lo, lc))"
    by (metis surj_pair)
  note e = extremes_correct [OF alive ex]
  have cnt: "hm_count (snd st) = on_broker (fst st)" using inv by (auto simp: smooth_inv_def)
  have "0 \<le> lc" using e cnt by (simp add: on_broker_def)
  have "hc - lc \<le> 1"
  proof (rule ccontr)
    assume "\<not> hc - lc \<le> 1"
    with stop ex have "on_broker (fst st) hi = 0" by (simp add: smooth_unlevel_def find_victim_None)
    with e cnt \<open>0 \<le> lc\<close> \<open>\<not> hc - lc \<le> 1\<close> show False by simp
  qed
  with level_extremes [OF alive ex] cnt show ?thesis by simp
qed

lemma smooth_partitions_ok:
  assumes alive: "alive \<noteq> []" and placed: "placed_on alive slots"
  shows "\<exists>slots'. smooth_partitions rh slots alive = Some slots' \<and> slot_keys slots' = slot_keys slots
           \<and> placed_on alive slots' \<and> level (on_broker slots') alive"
proof (cases "length alive < 2 \<or> slots = []")
  case True
  have "level (on_broker slots) alive"
  proof (cases "slots = []")
    case True
    then show ?thesis by (simp add: level_def on_broker_def)
  next
    case False
    with True alive obtain b where "alive = [b]" by (cases alive) (auto simp: less_Suc_eq numeral_2_eq_2)
    then show ?thesis by (simp add: level_def)
  qed
  with True placed show ?thesis by (auto simp: smooth_partitions_def)
next
  case False
  let ?st = "(slots, broker_counts slots alive)"
  let ?inv = "smooth_inv (slot_keys slots) alive"
  have init: "?inv ?st" using placed by (simp add: smooth_inv_def)
  have "\<exists>t. while_option (smooth_unlevel rh alive) (smooth_step rh alive) ?st = Some t"
    by (rule measure_while_option_Some [where P = ?inv and f = "load_square alive \<circ> fst", OF _ init])
      (use smooth_step_ok [OF _ _ alive] in auto)
  then obtain t where t: "while_option (smooth_unlevel rh alive) (smooth_step rh alive) ?st = Some t" ..
  have "?inv t"
    by (rule while_option_rule [where P = ?inv, OF _ t init]) (use smooth_step_ok [OF _ _ alive] in blast)
  moreover have "\<not> smooth_unlevel rh alive t" by (rule while_option_stop [OF t])
  ultimately show ?thesis
    using False t smooth_stops_level [OF _ _ alive] by (auto simp: smooth_partitions_def smooth_inv_def)
qed

section \<open>Pinning, placing and the per-topic pass keep the catalog\<close>

definition catalog :: "topic_spec list \<Rightarrow> (string \<times> int) list" where
  "catalog topics = concat (map (\<lambda>t. map (Pair (ts_name t)) [0..ts_partition_count t - 1]) topics)"

lemma pin_slot_simps [simp]:
  "sl_topic (pin_slot m alive t p) = t" "sl_partition (pin_slot m alive t p) = p"
  by (auto simp: pin_slot_def split: option.split)

lemma slot_keys_pin [simp]: "slot_keys (pin_slots m alive topics) = catalog topics"
  by (simp add: pin_slots_def catalog_def map_concat comp_def)

lemma pin_slots_alive: "s \<in> set (pin_slots m alive topics) \<Longrightarrow> sl_broker s = [] \<or> sl_broker s \<in> set alive"
  by (auto simp: pin_slots_def pin_slot_def split: option.splits if_splits)

lemma foldl_choose:
  assumes "\<And>b. better b None"
  shows "(foldl (\<lambda>best b. if better b best then Some (f b, b) else best) best bs = None
          \<longrightarrow> best = None \<and> bs = [])
       \<and> (\<forall>c b. foldl (\<lambda>best b. if better b best then Some (f b, b) else best) best bs = Some (c, b)
          \<longrightarrow> b \<in> set bs \<or> best = Some (c, b))"
proof (induction bs arbitrary: best)
  case (Cons x xs)
  show ?case
  proof (cases "better x best")
    case True
    with Cons.IH [of "Some (f x, x)"] show ?thesis by auto
  next
    case False
    then have "best \<noteq> None" using assms [of x] by (cases best) auto
    with False Cons.IH [of best] show ?thesis by auto
  qed
qed simp

lemma best_broker_alive:
  assumes "alive \<noteq> []"
  shows "\<exists>b \<in> set alive. best_broker rh counts alive t p = Some b"
proof -
  define cand where "cand b = (hm_count (snd counts) (t, b), hm_count (fst counts) b, rh t p b)" for b
  define r where "r = foldl (\<lambda>best b. if better_placing (cand b) best then Some (cand b, b) else best) None alive"
  have "better_placing (cand b) None" for b by (simp add: better_placing_def)
  from foldl_choose [of "\<lambda>b. better_placing (cand b)" cand None alive, OF this] assms
  have "r \<noteq> None" "\<And>c b. r = Some (c, b) \<Longrightarrow> b \<in> set alive" by (auto simp: r_def)
  moreover have "best_broker rh counts alive t p = map_option snd r"
    unfolding best_broker_def r_def cand_def Let_def ..
  ultimately show ?thesis by (cases r) auto
qed

lemma slot_keys_place_loop: "slot_keys (place_loop rh alive counts ss) = slot_keys ss"
  by (induction rh alive counts ss rule: place_loop.induct) (auto split: option.split)

lemma place_loop_alive:
  assumes "alive \<noteq> []"
  shows "\<forall>s \<in> set ss. sl_broker s = [] \<or> sl_broker s \<in> set alive
   \<Longrightarrow> placed_on alive (place_loop rh alive counts ss)"
proof (induction ss arbitrary: counts)
  case (Cons s ss)
  have IH: "placed_on alive (place_loop rh alive c ss)" for c using Cons by simp
  show ?case
  proof (cases "sl_broker s = []")
    case True
    obtain b where "b \<in> set alive" "best_broker rh counts alive (sl_topic s) (sl_partition s) = Some b"
      using best_broker_alive [OF assms] by blast
    with True IH show ?thesis by simp
  next
    case False
    with Cons.prems IH show ?thesis by simp
  qed
qed simp

lemma place_unpinned_ok:
  assumes "alive \<noteq> []"
  shows "slot_keys (place_unpinned rh (pin_slots m alive topics) alive) = catalog topics"
    "placed_on alive (place_unpinned rh (pin_slots m alive topics) alive)"
proof -
  have "\<forall>s \<in> set (pin_slots m alive topics). sl_broker s = [] \<or> sl_broker s \<in> set alive"
    using pin_slots_alive by blast
  from place_loop_alive [OF assms this]
  show "placed_on alive (place_unpinned rh (pin_slots m alive topics) alive)"
    using assms by (simp add: place_unpinned_def)
qed (use assms in \<open>simp add: place_unpinned_def slot_keys_place_loop\<close>)

lemma place_loop_pinned: "\<forall>s \<in> set ss. sl_broker s \<noteq> [] \<Longrightarrow> place_loop rh alive counts ss = ss"
  by (induction ss) auto

lemma min_index_in: "min_index key es = Some i \<Longrightarrow> \<exists>s. (i, s) \<in> set es"
proof -
  let ?f = "\<lambda>best (i, s). case best of None \<Rightarrow> Some (i, s)
      | Some (j, t) \<Rightarrow> if key s < key t then Some (i, s) else best"
  have "foldl ?f best es = Some e \<Longrightarrow> e \<in> set es \<or> best = Some e" for best e
  proof (induction es arbitrary: best)
    case (Cons x es)
    have "?f best x = Some e \<Longrightarrow> e = x \<or> best = Some e"
      by (cases x) (auto split: option.splits if_splits)
    with Cons.IH [of "?f best x"] Cons.prems show ?case by auto
  qed simp
  from this [of None] show "min_index key es = Some i \<Longrightarrow> ?thesis"
    by (auto simp: min_index_def)
qed

lemma pick_slot_Some:
  "pick_slot slots topic b = Some i \<Longrightarrow>
     i < length slots \<and> sl_topic (slots ! i) = topic \<and> sl_broker (slots ! i) = b"
  by (auto simp: pick_slot_def in_set_enumerate_eq dest!: min_index_in)

lemma pick_partner_Some:
  "pick_partner slots topic hi lo = Some i \<Longrightarrow>
     i < length slots \<and> sl_topic (slots ! i) \<noteq> topic \<and> sl_broker (slots ! i) = lo
   \<and> topic_count_on slots (sl_topic (slots ! i)) lo > topic_count_on slots (sl_topic (slots ! i)) hi"
  by (auto simp: pick_partner_def in_set_enumerate_eq dest!: min_index_in)

lemma improve_topic_cases:
  assumes "alive \<noteq> []" "improve_topic slots alive topic = Some slots'"
  obtains (move) donor hi lo where "hi \<in> set alive" "lo \<in> set alive"
      "topic_count_on slots topic hi - topic_count_on slots topic lo \<ge> 2"
      "pick_slot slots topic hi = Some donor" "on_broker slots lo \<le> on_broker slots hi"
      "slots' = move_slot slots donor lo"
    | (swap) donor partner hi lo where "hi \<in> set alive" "lo \<in> set alive"
      "topic_count_on slots topic hi - topic_count_on slots topic lo \<ge> 2"
      "pick_slot slots topic hi = Some donor" "pick_partner slots topic hi lo = Some partner"
      "slots' = move_slot (move_slot slots donor lo) partner hi"
proof -
  obtain hi hc lo lc where ex: "extremes (topic_count_on slots topic) alive = ((hi, hc), (lo, lc))"
    by (metis surj_pair)
  note e = extremes_correct [OF assms(1) ex]
  have gap: "\<not> hc - lc \<le> 1" using assms(2) by (auto simp: improve_topic_def ex)
  then obtain donor where d: "pick_slot slots topic hi = Some donor"
    using assms(2) by (cases "pick_slot slots topic hi") (auto simp: improve_topic_def ex)
  show thesis
  proof (cases "on_broker slots lo \<le> on_broker slots hi")
    case True
    with assms(2) gap d have "slots' = move_slot slots donor lo" by (simp add: improve_topic_def ex)
    with e gap d True show thesis by (intro move [of hi lo donor]) auto
  next
    case False
    with assms(2) gap d obtain partner where
      "pick_partner slots topic hi lo = Some partner" "slots' = move_slot (move_slot slots donor lo) partner hi"
      by (cases "pick_partner slots topic hi lo") (simp_all add: improve_topic_def ex)
    with e gap d show thesis by (intro swap [of hi lo donor partner]) auto
  qed
qed

lemma improve_topic_ok:
  assumes "alive \<noteq> []" "improve_topic slots alive topic = Some slots'" "placed_on alive slots"
  shows "slot_keys slots' = slot_keys slots \<and> placed_on alive slots'"
  using assms(1,2)
proof (cases rule: improve_topic_cases)
  case move
  then show ?thesis using placed_on_move [OF _ assms(3)] by simp
next
  case swap
  then show ?thesis using placed_on_move [OF _ placed_on_move [OF _ assms(3)]] by simp
qed

lemma improve_one_topic_Some:
  "improve_one_topic slots alive topics = Some slots' \<Longrightarrow>
     \<exists>topic \<in> set topics. improve_topic slots alive topic = Some slots'"
proof (induction topics)
  case (Cons t ts)
  then show ?case by (cases "improve_topic slots alive t") auto
qed simp

lemma improve_one_topic_None:
  "improve_one_topic slots alive topics = None \<longleftrightarrow> (\<forall>t \<in> set topics. improve_topic slots alive t = None)"
proof (induction topics)
  case (Cons t ts)
  then show ?case by (cases "improve_topic slots alive t") auto
qed simp

lemma improve_one_topic_ok:
  assumes "alive \<noteq> []" "improve_one_topic slots alive topics = Some slots'" "placed_on alive slots"
  shows "slot_keys slots' = slot_keys slots \<and> placed_on alive slots'"
  using improve_one_topic_Some [OF assms(2)] improve_topic_ok [OF assms(1) _ assms(3)] by blast

lemma per_topic_loop_ok:
  "alive \<noteq> [] \<Longrightarrow> placed_on alive slots
   \<Longrightarrow> slot_keys (per_topic_loop n slots alive topics) = slot_keys slots
     \<and> placed_on alive (per_topic_loop n slots alive topics)"
proof (induction n arbitrary: slots)
  case (Suc n)
  show ?case
  proof (cases "improve_one_topic slots alive topics")
    case (Some slots')
    with improve_one_topic_ok [OF Suc.prems(1) Some Suc.prems(2)] Suc.IH [of slots'] Suc.prems(1)
    show ?thesis by simp
  qed (use Suc.prems in simp)
qed simp

lemma per_topic_ok:
  assumes "alive \<noteq> []" "placed_on alive slots"
  shows "slot_keys (smooth_partitions_per_topic slots alive) = slot_keys slots"
    "placed_on alive (smooth_partitions_per_topic slots alive)"
  using per_topic_loop_ok [OF assms] assms by (simp_all add: smooth_partitions_per_topic_def)

section \<open>The result of the balancer\<close>

lemma hm_get_foldl_insert_key:
  assumes "hm_get (foldl (\<lambda>m p. hm_insert (key p) p m) m ps) k = Some p"
    and "\<And>k p. hm_get m k = Some p \<Longrightarrow> key p = k"
  shows "key p = k"
  using assms
proof (induction ps arbitrary: m)
  case (Cons q ps)
  show ?case
    by (rule Cons.IH [of "hm_insert (key q) q m"])
      (use Cons.prems in \<open>auto split: if_splits\<close>)
qed simp

lemma prev_partitions_Some:
  assumes "distinct (map (\<lambda>q. (pa_topic q, pa_partition q)) ps)" "q \<in> set ps"
  shows "hm_get (prev_partitions (Some ps)) (pa_key q) = Some q"
proof -
  have "distinct (map pa_key ps)" using assms(1) by (simp add: distinct_map)
  then show ?thesis using assms(2) using map_of_index [of pa_key ps q "\<lambda>p. p"]
    by (simp add: prev_partitions_def foldl_index)
qed

lemma prev_partitions_key: "hm_get (prev_partitions prev) k = Some pa \<Longrightarrow> pa_key pa = k"
  by (cases prev) (auto simp: prev_partitions_def intro: hm_get_foldl_insert_key [where key = pa_key])

lemma reconcile_slot_key:
  "pa_topic (reconcile_slot (prev_partitions prev) alive fl s) = sl_topic s"
  "pa_partition (reconcile_slot (prev_partitions prev) alive fl s) = sl_partition s"
  "pa_broker (reconcile_slot (prev_partitions prev) alive fl s) = sl_broker s"
  by (auto simp: reconcile_slot_def Let_def dest!: prev_partitions_key split: option.split)

lemma balance_slots:
  assumes "brokers \<noteq> []"
  shows "\<exists>slots. balance rh prev brokers topics fl =
             Some (map (reconcile_slot (prev_partitions prev) (sort brokers) fl) slots)
           \<and> slot_keys slots = catalog topics \<and> placed_on brokers slots"
proof -
  let ?alive = "sort brokers" and ?m = "prev_partitions prev"
  let ?placed = "place_unpinned rh (pin_slots ?m ?alive topics) ?alive"
  have ne: "?alive \<noteq> []" using assms by (metis length_0_conv length_sort)
  note placed = place_unpinned_ok [OF ne, of rh ?m topics]
  obtain slots where s: "smooth_partitions rh ?placed ?alive = Some slots"
    "slot_keys slots = catalog topics" "placed_on ?alive slots"
    using smooth_partitions_ok [OF ne placed(2), of rh] placed(1) by auto
  show ?thesis
    using assms s per_topic_ok [OF ne s(3)]
    by (intro exI [of _ "smooth_partitions_per_topic slots ?alive"]) (simp add: balance_def Let_def)
qed

lemma reconcile_slot_epoch:
  assumes pa: "hm_get (prev_partitions prev) (partition_key (sl_topic s) (sl_partition s)) = Some pa"
    and range: "0 \<le> pa_epoch pa" "pa_epoch pa < u32_MAX"
  shows "pa_epoch pa \<le> pa_epoch (reconcile_slot (prev_partitions prev) alive fl s)"
    "sl_broker s \<noteq> pa_broker pa \<Longrightarrow> pa_epoch pa < pa_epoch (reconcile_slot (prev_partitions prev) alive fl s)"
proof -
  have "(pa_epoch pa + 1) mod 2 ^ 32 = pa_epoch pa + 1" using range by (simp add: int_bounds)
  then show "pa_epoch pa \<le> pa_epoch (reconcile_slot (prev_partitions prev) alive fl s)"
    "sl_broker s \<noteq> pa_broker pa \<Longrightarrow> pa_epoch pa < pa_epoch (reconcile_slot (prev_partitions prev) alive fl s)"
    by (auto simp add: reconcile_slot_def pa Let_def)
qed

lemma reconcile_slot_floor:
  "hm_count fl (partition_key (sl_topic s) (sl_partition s))
   \<le> pa_epoch (reconcile_slot (prev_partitions prev) alive fl s)"
  by (simp add: reconcile_slot_def Let_def split: option.split)

text \<open>C28: The loop that levels the brokers ends: from any placement on live brokers
  \<open>smooth_partitions\<close> returns, with the same partitions, each on a live broker, and the numbers of
  partitions of any two live brokers at most one apart.\<close>

theorem smoothing_ends_level:
  assumes "alive \<noteq> []" "\<forall>s \<in> set slots. sl_broker s \<in> set alive"
  shows "\<exists>slots'. smooth_partitions rh slots alive = Some slots'
     \<and> map (\<lambda>s. (sl_topic s, sl_partition s)) slots' = map (\<lambda>s. (sl_topic s, sl_partition s)) slots
     \<and> (\<forall>s \<in> set slots'. sl_broker s \<in> set alive)
     \<and> (\<forall>a \<in> set alive. \<forall>b \<in> set alive.
          int (length (filter (\<lambda>s. sl_broker s = a) slots'))
          - int (length (filter (\<lambda>s. sl_broker s = b) slots')) \<le> 1)"
  using smooth_partitions_ok [OF assms, of rh] by (simp add: level_def on_broker_def)

definition skewed_slots :: "partition_slot list" where
  "skewed_slots = map (\<lambda>p. \<lparr>sl_topic = ''t'', sl_partition = p, sl_broker = ''a'', sl_sticky = True\<rparr>) [0..4]"

theorem smoothing_ends_level_witness:
  "smooth_partitions (\<lambda>_ p _. p) skewed_slots [''a'', ''b''] \<noteq> None
   \<and> map sl_broker (the (smooth_partitions (\<lambda>_ p _. p) skewed_slots [''a'', ''b'']))
     = [''a'', ''a'', ''a'', ''b'', ''b'']"
proof -
  have "\<forall>s \<in> set skewed_slots. sl_broker s \<in> set [''a'', ''b'']" by (auto simp: skewed_slots_def)
  from smoothing_ends_level [OF _ this, of "\<lambda>_ p _. p"]
  have "smooth_partitions (\<lambda>_ p _. p) skewed_slots [''a'', ''b''] \<noteq> None" by auto
  moreover have "map sl_broker (the (smooth_partitions (\<lambda>_ p _. p) skewed_slots [''a'', ''b'']))
     = [''a'', ''a'', ''a'', ''b'', ''b'']" by code_simp
  ultimately show ?thesis ..
qed

text \<open>C27: The balancer assigns every partition of the catalog once, in catalog order, to a live
  broker; no leader epoch goes below the floor read from disk or below the previous assignment's,
  and a partition that changes its leader gets a strictly higher epoch.\<close>

theorem balance_epochs_advance:
  assumes "brokers \<noteq> []" "distinct (map (\<lambda>q. (pa_topic q, pa_partition q)) ps)"
    and "\<forall>q \<in> set ps. 0 \<le> pa_epoch q \<and> pa_epoch q < u32_MAX"
  shows "\<exists>parts. balance rh (Some ps) brokers topics epoch_floor = Some parts
     \<and> map (\<lambda>p. (pa_topic p, pa_partition p)) parts = catalog topics
     \<and> (\<forall>p \<in> set parts. pa_broker p \<in> set brokers
          \<and> hm_count epoch_floor (partition_key (pa_topic p) (pa_partition p)) \<le> pa_epoch p
          \<and> (\<forall>q \<in> set ps. (pa_topic q, pa_partition q) = (pa_topic p, pa_partition p) \<longrightarrow>
               pa_epoch q \<le> pa_epoch p \<and> (pa_broker p \<noteq> pa_broker q \<longrightarrow> pa_epoch q < pa_epoch p)))"
proof -
  let ?r = "reconcile_slot (prev_partitions (Some ps)) (sort brokers) epoch_floor"
  obtain slots where s: "balance rh (Some ps) brokers topics epoch_floor = Some (map ?r slots)"
    "slot_keys slots = catalog topics" "placed_on brokers slots"
    using balance_slots [OF assms(1), of rh "Some ps" topics epoch_floor] by blast
  have prev: "hm_get (prev_partitions (Some ps)) (pa_key q) = Some q" if "q \<in> set ps" for q
    using prev_partitions_Some [OF assms(2)] that by simp
  show ?thesis
  proof (intro exI conjI ballI impI)
    show "balance rh (Some ps) brokers topics epoch_floor = Some (map ?r slots)" by (rule s(1))
    show "map (\<lambda>p. (pa_topic p, pa_partition p)) (map ?r slots) = catalog topics"
      using s(2) by (simp add: reconcile_slot_key comp_def)
  next
    fix p assume "p \<in> set (map ?r slots)"
    then obtain sl where sl: "sl \<in> set slots" "p = ?r sl" by auto
    show "pa_broker p \<in> set brokers" using sl s(3) by (simp add: reconcile_slot_key)
    show "hm_count epoch_floor (pa_key p) \<le> pa_epoch p"
      using reconcile_slot_floor by (simp add: sl(2) reconcile_slot_key)
    fix q assume q: "q \<in> set ps" "(pa_topic q, pa_partition q) = (pa_topic p, pa_partition p)"
    then have "hm_get (prev_partitions (Some ps)) (partition_key (sl_topic sl) (sl_partition sl)) = Some q"
      using prev [OF q(1)] by (simp add: sl(2) reconcile_slot_key)
    note e = reconcile_slot_epoch [OF this, of "sort brokers" epoch_floor]
    show "pa_epoch q \<le> pa_epoch p" using e(1) assms(3) q(1) sl(2) by blast
    show "pa_broker p \<noteq> pa_broker q \<Longrightarrow> pa_epoch q < pa_epoch p"
      using e(2) assms(3) q(1) sl(2) by (simp add: reconcile_slot_key)
  qed
qed

definition example_prev :: "partition_assignment list" where
  "example_prev =
     [\<lparr>pa_topic = ''t'', pa_partition = 0, pa_broker = ''a'', pa_epoch = 4, pa_role = Leader_role\<rparr>,
      \<lparr>pa_topic = ''t'', pa_partition = 1, pa_broker = ''b'', pa_epoch = 2, pa_role = Leader_role\<rparr>]"

theorem balance_epochs_advance_witness:
  "map_option (map (\<lambda>p. (pa_partition p, pa_broker p, pa_epoch p)))
     (balance (\<lambda>_ p _. p) (Some example_prev) [''c'', ''b''] [\<lparr>ts_name = ''t'', ts_partition_count = 3\<rparr>]
        [(''t/2'', 7)])
   = Some [(0, ''c'', 5), (1, ''b'', 2), (2, ''b'', 7)]
   \<and> (\<exists>parts. balance (\<lambda>_ p _. p) (Some example_prev) [''c'', ''b'']
        [\<lparr>ts_name = ''t'', ts_partition_count = 3\<rparr>] [(''t/2'', 7)] = Some parts)"
proof -
  have "distinct (map (\<lambda>q. (pa_topic q, pa_partition q)) example_prev)"
    "\<forall>q \<in> set example_prev. 0 \<le> pa_epoch q \<and> pa_epoch q < u32_MAX"
    by (simp_all add: example_prev_def int_bounds)
  from balance_epochs_advance [OF _ this, of "[''c'', ''b'']" "\<lambda>_ p _. p"
      "[\<lparr>ts_name = ''t'', ts_partition_count = 3\<rparr>]" "[(''t/2'', 7)]"]
  have "\<exists>parts. balance (\<lambda>_ p _. p) (Some example_prev) [''c'', ''b'']
        [\<lparr>ts_name = ''t'', ts_partition_count = 3\<rparr>] [(''t/2'', 7)] = Some parts" by auto
  moreover have "map_option (map (\<lambda>p. (pa_partition p, pa_broker p, pa_epoch p)))
     (balance (\<lambda>_ p _. p) (Some example_prev) [''c'', ''b''] [\<lparr>ts_name = ''t'', ts_partition_count = 3\<rparr>]
        [(''t/2'', 7)])
   = Some [(0, ''c'', 5), (1, ''b'', 2), (2, ''b'', 7)]" by code_simp
  ultimately show ?thesis by blast
qed

section \<open>A settled layout stays\<close>

lemma pin_settled:
  assumes "distinct (map (\<lambda>q. (pa_topic q, pa_partition q)) ps)"
    and "map (\<lambda>q. (pa_topic q, pa_partition q)) ps = catalog topics"
    and "\<forall>q \<in> set ps. pa_broker q \<in> set alive"
  shows "pin_slots (prev_partitions (Some ps)) alive topics =
     map (\<lambda>q. \<lparr>sl_topic = pa_topic q, sl_partition = pa_partition q, sl_broker = pa_broker q,
             sl_sticky = True\<rparr>) ps"
proof -
  have "pin_slots (prev_partitions (Some ps)) alive topics
      = map (\<lambda>(t, p). pin_slot (prev_partitions (Some ps)) alive t p) (catalog topics)"
    by (simp add: pin_slots_def catalog_def map_concat comp_def)
  also have "\<dots> = map (\<lambda>q. pin_slot (prev_partitions (Some ps)) alive (pa_topic q) (pa_partition q)) ps"
    by (simp add: assms(2) [symmetric] comp_def)
  also have "\<dots> = map (\<lambda>q. \<lparr>sl_topic = pa_topic q, sl_partition = pa_partition q,
      sl_broker = pa_broker q, sl_sticky = True\<rparr>) ps"
    using prev_partitions_Some [OF assms(1)] assms(3) by (simp add: pin_slot_def)
  finally show ?thesis .
qed

lemma smooth_level_id:
  assumes "alive \<noteq> []" "level (on_broker slots) alive"
  shows "smooth_partitions rh slots alive = Some slots"
proof -
  obtain hi hc lo lc where ex: "extremes (on_broker slots) alive = ((hi, hc), (lo, lc))"
    by (metis surj_pair)
  have "hm_count (broker_counts slots alive) = on_broker slots" by (rule ext) simp
  with level_extremes [OF assms(1) ex] assms(2) ex
  have "\<not> smooth_unlevel rh alive (slots, broker_counts slots alive)" by (simp add: smooth_unlevel_def)
  then show ?thesis by (simp add: smooth_partitions_def while_option_unfold)
qed

lemma improve_level_None:
  assumes "alive \<noteq> []" "level (topic_count_on slots topic) alive"
  shows "improve_topic slots alive topic = None"
proof -
  obtain hi hc lo lc where ex: "extremes (topic_count_on slots topic) alive = ((hi, hc), (lo, lc))"
    by (metis surj_pair)
  with level_extremes [OF assms(1) ex] assms(2) show ?thesis by (simp add: improve_topic_def)
qed

lemma per_topic_level_id:
  assumes "alive \<noteq> []" "\<And>t. level (topic_count_on slots t) alive"
  shows "smooth_partitions_per_topic slots alive = slots"
proof -
  have "improve_one_topic slots alive topics = None" for topics
    using improve_level_None [OF assms] by (simp add: improve_one_topic_None)
  then have "per_topic_loop n slots alive topics = slots" for n topics by (cases n) simp_all
  then show ?thesis by (simp add: smooth_partitions_per_topic_def)
qed

lemma reconcile_settled:
  assumes "distinct (map (\<lambda>q. (pa_topic q, pa_partition q)) ps)" "q \<in> set ps"
    and "pa_broker q \<in> set alive" "hm_count fl (pa_key q) \<le> pa_epoch q"
  shows "reconcile_slot (prev_partitions (Some ps)) alive fl
     \<lparr>sl_topic = pa_topic q, sl_partition = pa_partition q, sl_broker = pa_broker q, sl_sticky = True\<rparr> = q"
  using prev_partitions_Some [OF assms(1,2)] assms(3,4) by (simp add: reconcile_slot_def)

text \<open>A recompute moves nothing it need not move: when every leader of the previous assignment
  is alive, its partitions are the catalog's, and the brokers are level over all partitions and over
  the partitions of each topic, the balancer returns the previous assignment, epochs included.\<close>

theorem settled_layout_kept:
  assumes "brokers \<noteq> []" "[] \<notin> set brokers"
    and "map (\<lambda>q. (pa_topic q, pa_partition q)) ps = catalog topics" "distinct (catalog topics)"
    and "\<forall>q \<in> set ps. pa_broker q \<in> set brokers
           \<and> hm_count epoch_floor (partition_key (pa_topic q) (pa_partition q)) \<le> pa_epoch q"
    and "level (\<lambda>b. int (length (filter (\<lambda>q. pa_broker q = b) ps))) brokers"
    and "\<forall>t. level (\<lambda>b. int (length (filter (\<lambda>q. pa_topic q = t \<and> pa_broker q = b) ps))) brokers"
  shows "balance rh (Some ps) brokers topics epoch_floor = Some ps"
proof -
  let ?slot = "\<lambda>q. \<lparr>sl_topic = pa_topic q, sl_partition = pa_partition q, sl_broker = pa_broker q, sl_sticky = True\<rparr>"
  let ?alive = "sort brokers" and ?slots = "map ?slot ps"
  have ne: "?alive \<noteq> []" using assms(1) by (metis length_0_conv length_sort)
  have dist: "distinct (map (\<lambda>q. (pa_topic q, pa_partition q)) ps)" using assms(3,4) by simp
  have pin: "pin_slots (prev_partitions (Some ps)) ?alive topics = ?slots"
    by (rule pin_settled [OF dist assms(3)]) (use assms(5) in simp)
  have place: "place_unpinned rh ?slots ?alive = ?slots"
  proof -
    have "\<forall>s \<in> set ?slots. sl_broker s \<noteq> []" using assms(2,5) by force
    then show ?thesis using ne by (simp add: place_unpinned_def place_loop_pinned)
  qed
  have counts: "on_broker ?slots = (\<lambda>b. int (length (filter (\<lambda>q. pa_broker q = b) ps)))"
    "topic_count_on ?slots = (\<lambda>t b. int (length (filter (\<lambda>q. pa_topic q = t \<and> pa_broker q = b) ps)))"
    by (simp_all add: fun_eq_iff on_broker_def topic_count_on_def filter_map comp_def)
  have "smooth_partitions rh ?slots ?alive = Some ?slots"
    using assms(6) by (intro smooth_level_id [OF ne]) (simp add: counts level_def)
  moreover have "smooth_partitions_per_topic ?slots ?alive = ?slots"
    using assms(7) by (intro per_topic_level_id [OF ne]) (simp add: counts level_def)
  moreover have "map (reconcile_slot (prev_partitions (Some ps)) ?alive epoch_floor) ?slots = ps"
    using assms(5) reconcile_settled [OF dist] by (simp add: map_idI)
  ultimately show ?thesis using assms(1) pin place by (simp add: balance_def Let_def)
qed

theorem settled_layout_kept_witness:
  "balance (\<lambda>_ p _. p) (Some example_prev) [''b'', ''a''] [\<lparr>ts_name = ''t'', ts_partition_count = 2\<rparr>] []
   = Some example_prev"
proof (rule settled_layout_kept)
  show "map (\<lambda>q. (pa_topic q, pa_partition q)) example_prev = catalog [\<lparr>ts_name = ''t'', ts_partition_count = 2\<rparr>]"
    by code_simp
  show "distinct (catalog [\<lparr>ts_name = ''t'', ts_partition_count = 2\<rparr>])" by code_simp
  show "\<forall>q \<in> set example_prev. pa_broker q \<in> set [''b'', ''a'']
      \<and> hm_count [] (partition_key (pa_topic q) (pa_partition q)) \<le> pa_epoch q"
    by (simp add: example_prev_def hm_count_def)
  show "level (\<lambda>b. int (length (filter (\<lambda>q. pa_broker q = b) example_prev))) [''b'', ''a'']"
    by (simp add: level_def example_prev_def)
  show "\<forall>t. level (\<lambda>b. int (length (filter (\<lambda>q. pa_topic q = t \<and> pa_broker q = b) example_prev))) [''b'', ''a'']"
    by (simp add: level_def example_prev_def)
qed simp_all

text \<open>The per-topic pass may undo the level the cluster-wide pass reached: it moves a partition
  between brokers of equal load. Brokers \<open>a\<close> and \<open>b\<close> lead two partitions each before the
  recompute and one and three after it.\<close>

definition level_prev :: "partition_assignment list" where
  "level_prev =
     [\<lparr>pa_topic = ''t'', pa_partition = 0, pa_broker = ''a'', pa_epoch = 1, pa_role = Leader_role\<rparr>,
      \<lparr>pa_topic = ''t'', pa_partition = 1, pa_broker = ''a'', pa_epoch = 1, pa_role = Leader_role\<rparr>,
      \<lparr>pa_topic = ''u'', pa_partition = 0, pa_broker = ''b'', pa_epoch = 1, pa_role = Leader_role\<rparr>,
      \<lparr>pa_topic = ''v'', pa_partition = 0, pa_broker = ''b'', pa_epoch = 1, pa_role = Leader_role\<rparr>]"

lemma per_topic_pass_unlevels:
  "map_option (map (\<lambda>p. (pa_topic p, pa_broker p)))
     (balance (\<lambda>_ _ _. 0) (Some level_prev) [''a'', ''b'']
        [\<lparr>ts_name = ''t'', ts_partition_count = 2\<rparr>, \<lparr>ts_name = ''u'', ts_partition_count = 1\<rparr>,
         \<lparr>ts_name = ''v'', ts_partition_count = 1\<rparr>] [])
   = Some [(''t'', ''b''), (''t'', ''a''), (''u'', ''b''), (''v'', ''b'')]"
  by code_simp

section \<open>Groups\<close>

lemma find_unique:
  assumes "x \<in> set xs" "P x" "\<forall>y \<in> set xs. P y \<longrightarrow> y = x"
  shows "find P xs = Some x"
proof (cases "find P xs")
  case None
  with assms(1,2) show ?thesis by (auto simp: find_None_iff)
next
  case (Some y)
  then have "y \<in> set xs" "P y" by (auto simp: find_Some_iff)
  with assms(3) Some show ?thesis by simp
qed

lemma find_none: "\<forall>y \<in> set xs. \<not> P y \<Longrightarrow> find P xs = None"
  by (induction xs) auto

lemma find_append: "find P (xs @ ys) = (case find P xs of Some x \<Rightarrow> Some x | None \<Rightarrow> find P ys)"
  by (induction xs) auto

lemma map_of_find: "hm_get (map (\<lambda>x. (key x, x)) xs) k = find (\<lambda>x. key x = k) xs"
  by (induction xs) auto

lemma prev_groups_key: "hm_get (prev_groups prev) k = Some ga \<Longrightarrow> ga_group_id ga = k"
  by (cases prev) (auto simp: prev_groups_def intro: hm_get_foldl_insert_key [where key = ga_group_id])

lemma ga_group_id_place_group [simp]: "ga_group_id (place_group (prev_groups prev) ids al g) = g"
  by (auto simp: place_group_def Let_def dest: prev_groups_key split: option.split)

lemma find_place_groups:
  "find (\<lambda>ga. ga_group_id ga = g) (place_groups (prev_groups prev) ids al placed gs) =
     (if g \<in> set gs \<and> g \<notin> set placed then Some (place_group (prev_groups prev) ids al g) else None)"
  by (induction gs arbitrary: placed) auto

lemma pick_coordinator_alive: "pick_coordinator g ids al = Some b \<Longrightarrow> b \<in> set ids \<and> is_alive al b"
proof -
  assume pick: "pick_coordinator g ids al = Some b"
  let ?s = "sort ids" and ?slot = "coordinator_slot g (length ids)"
  let ?al = "filter (is_alive al) ?s"
  have ne: "ids \<noteq> []" using pick by (auto simp: pick_coordinator_def)
  then have "int (length ids) > 0" by simp
  then have "uint (fnv1a_32 g) mod int (length ids) < int (length ids)" by (rule pos_mod_bound)
  then have "?slot < length ids" using ne by (simp add: coordinator_slot_def nat_less_iff)
  then have "?s ! ?slot \<in> set ids" by (metis length_sort nth_mem set_sort)
  moreover have "?al \<noteq> [] \<Longrightarrow> ?al ! (?slot mod length ?al) \<in> set ?al" by (intro nth_mem) simp
  ultimately show ?thesis using pick ne by (auto simp: pick_coordinator_def Let_def split: if_splits)
qed

lemma pick_coordinator_defined: "b \<in> set ids \<Longrightarrow> is_alive al b \<Longrightarrow> pick_coordinator g ids al \<noteq> None"
  by (auto simp: pick_coordinator_def Let_def filter_empty_conv)

lemma find_balance_groups:
  assumes rows: "brokers \<noteq> []" "broker_rows_sets brokers = (ids, al)"
    and ps: "distinct (map ga_group_id ps)"
  shows "find (\<lambda>ga. ga_group_id ga = g) (balance_groups (Some ps) brokers groups) =
     (if g \<in> set groups then Some (place_group (prev_groups (Some ps)) ids al g)
      else case find (\<lambda>ga. ga_group_id ga = g) ps of
             Some ga \<Rightarrow> if ga_broker ga \<in> set ids \<and> is_alive al (ga_broker ga) then Some ga else None
           | None \<Rightarrow> None)"
proof (cases "g \<in> set groups")
  case True
  then show ?thesis by (simp add: balance_groups_def rows find_append find_place_groups Let_def)
next
  case False
  let ?keep = "\<lambda>ga. ga_group_id ga \<notin> set groups \<and> ga_broker ga \<in> set (filter (is_alive al) ids)"
  have "map snd (prev_groups (Some ps)) = ps"
    using foldl_index [OF ps, of "\<lambda>g. g"] by (simp add: prev_groups_def comp_def)
  with False have bal: "find (\<lambda>ga. ga_group_id ga = g) (balance_groups (Some ps) brokers groups)
      = find (\<lambda>ga. ga_group_id ga = g) (sort_key ga_group_id (filter ?keep ps))"
    by (simp add: balance_groups_def rows find_append find_place_groups Let_def)
  show ?thesis
  proof (cases "find (\<lambda>ga. ga_group_id ga = g) ps")
    case None
    then have "\<forall>y \<in> set ps. ga_group_id y \<noteq> g" by (simp add: find_None_iff)
    with None False show ?thesis unfolding bal by (simp add: find_none)
  next
    case (Some ga)
    then have ga: "ga \<in> set ps" "ga_group_id ga = g" by (auto simp: find_Some_iff)
    have uniq: "\<forall>y \<in> set ps. ga_group_id y = g \<longrightarrow> y = ga"
      using ps ga by (auto simp: distinct_map inj_on_def)
    show ?thesis
    proof (cases "ga_broker ga \<in> set ids \<and> is_alive al (ga_broker ga)")
      case True
      have "find (\<lambda>ga. ga_group_id ga = g) (sort_key ga_group_id (filter ?keep ps)) = Some ga"
      proof (rule find_unique)
        show "ga \<in> set (sort_key ga_group_id (filter ?keep ps))" using True ga False by simp
        show "\<forall>y \<in> set (sort_key ga_group_id (filter ?keep ps)). ga_group_id y = g \<longrightarrow> y = ga"
          using uniq by simp
      qed (rule ga(2))
      with True False Some show ?thesis unfolding bal by simp
    next
      case no: False
      have "\<not> (ga_group_id y = g \<and> ?keep y)" if "y \<in> set ps" for y
        using no uniq that by auto
      then have "find (\<lambda>ga. ga_group_id ga = g) (sort_key ga_group_id (filter ?keep ps)) = None"
        by (intro find_none) (simp, blast)
      with no False Some show ?thesis unfolding bal by simp
    qed
  qed
qed


definition example_rows :: "broker_assignment list" where
  "example_rows =
     [\<lparr>ba_id = ''a'', ba_health = Broker_alive, ba_last_seen = []\<rparr>,
      \<lparr>ba_id = ''b'', ba_health = Broker_dead, ba_last_seen = []\<rparr>,
      \<lparr>ba_id = ''c'', ba_health = Broker_alive, ba_last_seen = []\<rparr>]"

definition example_groups :: "consumer_group_assignment list" where
  "example_groups = [\<lparr>ga_group_id = ''g'', ga_broker = ''b'', ga_epoch = 1\<rparr>,
     \<lparr>ga_group_id = ''h'', ga_broker = ''c'', ga_epoch = 1\<rparr>]"

definition example_assignment :: assignment where
  "example_assignment =
     \<lparr>as_controller_epoch = 1, as_assignment_version = 1, as_generated_at = [], as_controller = ''a'',
      as_brokers = example_rows, as_partitions = [],
      as_consumer_groups = balance_groups (Some example_groups) example_rows [''g'']\<rparr>"


end
