(* ===== verification/Controller.thy ===== *)
theory Controller
  imports Balancer Manifest
begin

text \<open>
  The controller's recompute loop (\<open>crates/kaas-controller/src/assignment_writer.rs\<close>): it reads the
  live, registered and draining brokers, the topics and the active groups, builds the broker rows,
  balances partitions and groups, and writes \<open>assignment.json\<close>. The properties compose it with the
  broker's side (\<open>Assignment\<close>) and with the manifests of the partition directories (\<open>Manifest\<close>).

  The sources the loop polls are one record of inputs. The on-disk state it consults is a function
  from topic and partition to the partition directory under the data directory.
\<close>

record cluster_inputs =
  ci_alive :: "string list"
  ci_registered :: "string list"
  ci_draining :: "string list"
  ci_topics :: "topic_spec list"
  ci_groups :: "string list"
  ci_now :: string

record loop_state =
  ls_current :: "assignment option"
  ls_version_counter :: int

record assignment_loop =
  al_controller_id :: string
  al_controller_epoch :: int
  al_state :: loop_state

definition new_loop :: "string \<Rightarrow> assignment_loop" where
  "new_loop controller_id =
     \<lparr>al_controller_id = controller_id, al_controller_epoch = 0,
      al_state = \<lparr>ls_current = None, ls_version_counter = 0\<rparr>\<rparr>"

section \<open>Operations\<close>

definition broker_row ::
  "string list \<Rightarrow> string list \<Rightarrow> string \<Rightarrow> broker_assignment list option \<Rightarrow> string \<Rightarrow> broker_assignment" where
  "broker_row alive draining now prev b =
     (let health = (if b \<in> set draining then Broker_draining
                    else if b \<in> set alive then Broker_alive else Broker_dead)
      in \<lparr>ba_id = b, ba_health = health,
          ba_last_seen = (if health = Broker_dead
             then (case Option.bind prev (find (\<lambda>e. ba_id e = b)) of None \<Rightarrow> now | Some e \<Rightarrow> ba_last_seen e)
             else now)\<rparr>)"

definition add_alive :: "string \<Rightarrow> broker_assignment list \<Rightarrow> string \<Rightarrow> broker_assignment list" where
  "add_alive now out b =
     (if b \<in> set (map ba_id out) then out
      else out @ [\<lparr>ba_id = b, ba_health = Broker_alive, ba_last_seen = now\<rparr>])"

definition build_broker_entries ::
  "string list \<Rightarrow> string list \<Rightarrow> string list \<Rightarrow> string \<Rightarrow> broker_assignment list option \<Rightarrow> broker_assignment list" where
  "build_broker_entries registered alive draining now prev =
     sort_key ba_id (foldl (add_alive now) (map (broker_row alive draining now prev) registered) alive)"

definition manifest_floor :: "io_env \<Rightarrow> part_dir \<Rightarrow> int" where
  "manifest_floor io dir =
     (case manifest_read io dir of
        Inr (Present m) \<Rightarrow> mf_epoch m | Inr (Legacy m) \<Rightarrow> mf_epoch m | _ \<Rightarrow> 0)"

definition compute_epoch_floor ::
  "io_env \<Rightarrow> (string \<Rightarrow> int \<Rightarrow> part_dir) \<Rightarrow> topic_spec list \<Rightarrow> (string \<times> int) list \<Rightarrow> (string, int) hash_map" where
  "compute_epoch_floor io data topics prev_dims =
     foldl (\<lambda>fl (name, p).
              let key = partition_key name p; epoch = manifest_floor io (data name p)
              in if key \<in> set (map (\<lambda>(t, q). partition_key t q) prev_dims) then fl
                 else if 0 \<le> epoch \<and> epoch \<le> u32_MAX then (if epoch > 0 then hm_insert key epoch fl else fl)
                 else fl)
           [] (concat (map (\<lambda>t. map (Pair (ts_name t)) [0..ts_partition_count t - 1]) topics))"

text \<open>The new state, and the assignment that is written over \<open>assignment.json\<close>. The state keeps it
  whether or not the write succeeds.\<close>

definition update_assignment ::
  "rendezvous \<Rightarrow> io_env \<Rightarrow> (string \<Rightarrow> int \<Rightarrow> part_dir) \<Rightarrow> cluster_inputs \<Rightarrow> assignment_loop \<Rightarrow>
   (assignment \<times> assignment_loop) option" where
  "update_assignment rh io data inp l =
     (let s = al_state l;
          prev_dims = (case ls_current s of None \<Rightarrow> []
                       | Some a \<Rightarrow> map (\<lambda>p. (pa_topic p, pa_partition p)) (as_partitions a));
          epoch_floor = compute_epoch_floor io data (ci_topics inp) prev_dims;
          version = ls_version_counter s + 1;
          rows = build_broker_entries (ci_registered inp) (ci_alive inp) (ci_draining inp) (ci_now inp)
                   (map_option as_brokers (ls_current s))
      in case balance rh (map_option as_partitions (ls_current s)) (ci_alive inp) (ci_topics inp) epoch_floor of
           None \<Rightarrow> None
         | Some parts \<Rightarrow>
             let a = \<lparr>as_controller_epoch = al_controller_epoch l, as_assignment_version = version,
                      as_generated_at = ci_now inp, as_controller = al_controller_id l,
                      as_brokers = rows, as_partitions = parts,
                      as_consumer_groups =
                        balance_groups (map_option as_consumer_groups (ls_current s)) rows (ci_groups inp)\<rparr>
             in Some (a, l\<lparr>al_state := \<lparr>ls_current = Some a, ls_version_counter = version\<rparr>\<rparr>))"

definition bootstrap :: "int \<Rightarrow> assignment_read \<Rightarrow> assignment_loop \<Rightarrow> assignment_loop" where
  "bootstrap epoch file l =
     (let l1 = l\<lparr>al_controller_epoch := epoch\<rparr> in
      case file of
        Read_assignment prev \<Rightarrow>
          l1\<lparr>al_state := \<lparr>ls_current = Some prev,
             ls_version_counter = (if as_assignment_version prev > ls_version_counter (al_state l)
                                   then as_assignment_version prev else ls_version_counter (al_state l))\<rparr>\<rparr>
      | _ \<Rightarrow> l1)"

definition start_loop ::
  "rendezvous \<Rightarrow> io_env \<Rightarrow> (string \<Rightarrow> int \<Rightarrow> part_dir) \<Rightarrow> cluster_inputs \<Rightarrow> int \<Rightarrow> assignment_read \<Rightarrow>
   assignment_loop \<Rightarrow> (assignment \<times> assignment_loop) option" where
  "start_loop rh io data inp epoch file l = update_assignment rh io data inp (bootstrap epoch file l)"

section \<open>Broker rows\<close>

lemma ids_add_alive: "set (map ba_id (foldl (add_alive now) out alive)) = set (map ba_id out) \<union> set alive"
  by (induction alive arbitrary: out) (auto simp: add_alive_def)

lemma set_build_broker_entries:
  "ba_id ` set (build_broker_entries registered alive draining now prev) = set registered \<union> set alive"
proof -
  have "set (map ba_id (map (broker_row alive draining now prev) registered)) = set registered"
    by (simp add: broker_row_def Let_def image_image)
  then show ?thesis
    using ids_add_alive [of now "map (broker_row alive draining now prev) registered" alive]
    by (simp add: build_broker_entries_def)
qed

section \<open>One leader per partition\<close>

lemma build_ownership_get:
  assumes "distinct (map pa_key ps)"
  shows "hm_get (build_ownership b ps) k = Some e \<longleftrightarrow>
     (\<exists>p \<in> set ps. pa_broker p = b \<and> pa_key p = k \<and> pa_epoch p = e)"
proof -
  let ?own = "filter (\<lambda>p. pa_broker p = b) ps"
  have fold: "foldl (\<lambda>m p. if pa_broker p = b then hm_insert (pa_key p) (pa_epoch p) m else m) m ps
      = foldl (\<lambda>m p. hm_insert (pa_key p) (pa_epoch p) m) m (filter (\<lambda>p. pa_broker p = b) ps)"
    for m :: "(string, int) hash_map" and ps by (induction ps arbitrary: m) auto
  have d: "distinct (map pa_key ?own)" using assms by (rule distinct_map_filter)
  have eq: "build_ownership b ps = map (\<lambda>p. (pa_key p, pa_epoch p)) ?own"
    using foldl_index [OF d, of pa_epoch] by (simp add: build_ownership_def fold)
  have "hm_wf (build_ownership b ps)" using d by (simp add: eq comp_def)
  then have "hm_get (build_ownership b ps) k = Some e \<longleftrightarrow> (k, e) \<in> set (build_ownership b ps)"
    by (rule map_of_eq_Some_iff)
  then show ?thesis by (auto simp: eq)
qed

lemma distinct_upto_catalog: "distinct (map ts_name topics) \<Longrightarrow> distinct (catalog topics)"
proof (induction topics)
  case (Cons t ts)
  have "distinct (map (Pair (ts_name t)) [0..ts_partition_count t - 1])"
    by (simp add: distinct_map inj_on_def)
  moreover have "set (map (Pair (ts_name t)) [0..ts_partition_count t - 1]) \<inter> set (catalog ts) = {}"
    using Cons.prems by (auto simp: catalog_def)
  ultimately show ?case using Cons by (simp add: catalog_def)
qed (simp add: catalog_def)

lemma set_catalog: "(t, p) \<in> set (catalog topics) \<longleftrightarrow>
   (\<exists>s \<in> set topics. ts_name s = t \<and> 0 \<le> p \<and> p < ts_partition_count s)"
  by (force simp: catalog_def)

lemma balance_total:
  assumes "brokers \<noteq> []"
  shows "\<exists>parts. balance rh prev brokers topics fl = Some parts
     \<and> map (\<lambda>p. (pa_topic p, pa_partition p)) parts = catalog topics
     \<and> (\<forall>p \<in> set parts. pa_broker p \<in> set brokers)"
proof -
  obtain slots where "balance rh prev brokers topics fl =
      Some (map (reconcile_slot (prev_partitions prev) (sort brokers) fl) slots)"
    "slot_keys slots = catalog topics" "placed_on brokers slots"
    using balance_slots [OF assms] by blast
  then show ?thesis by (auto simp: reconcile_slot_key comp_def)
qed

lemma update_assignment_total:
  assumes "ci_alive inp \<noteq> []"
  shows "\<exists>a l'. update_assignment rh io data inp l = Some (a, l')
     \<and> map (\<lambda>p. (pa_topic p, pa_partition p)) (as_partitions a) = catalog (ci_topics inp)
     \<and> (\<forall>p \<in> set (as_partitions a). pa_broker p \<in> set (ci_alive inp))
     \<and> ls_current (al_state l') = Some a \<and> as_assignment_version a = ls_version_counter (al_state l) + 1
     \<and> ls_version_counter (al_state l') = as_assignment_version a"
proof -
  let ?fl = "compute_epoch_floor io data (ci_topics inp)
      (case ls_current (al_state l) of None \<Rightarrow> []
       | Some a \<Rightarrow> map (\<lambda>p. (pa_topic p, pa_partition p)) (as_partitions a))"
  obtain parts where "balance rh (map_option as_partitions (ls_current (al_state l))) (ci_alive inp)
      (ci_topics inp) ?fl = Some parts"
    "map (\<lambda>p. (pa_topic p, pa_partition p)) parts = catalog (ci_topics inp)"
    "\<forall>p \<in> set parts. pa_broker p \<in> set (ci_alive inp)"
    using balance_total [OF assms] by blast
  then show ?thesis by (simp add: update_assignment_def Let_def)
qed

text \<open>What a broker holds after it applied the assignment at boot.\<close>

definition broker_view :: "int \<Rightarrow> assignment \<Rightarrow> string \<Rightarrow> coordinator" where
  "broker_view lease a b = snd (apply_if_new (Read_assignment a) lease (new_coordinator b))"

lemma broker_view_indexes:
  assumes "lease \<le> as_controller_epoch a"
  shows "co_ownership (broker_view lease a b) = build_ownership b (as_partitions a)"
    "co_leaders (broker_view lease a b) = build_leaders (as_partitions a)"
    "co_current (broker_view lease a b) = Some a" "co_self_id (broker_view lease a b) = b"
  using assms by (simp_all add: broker_view_def apply_if_new_def new_coordinator_def)

lemma broker_view_owns:
  assumes "lease \<le> as_controller_epoch a" "distinct (map pa_key (as_partitions a))"
  shows "owns (broker_view lease a b) t p \<longleftrightarrow>
     (\<exists>q \<in> set (as_partitions a). pa_broker q = b \<and> pa_topic q = t \<and> pa_partition q = p)"
proof -
  have "owns (broker_view lease a b) t p \<longleftrightarrow>
      (\<exists>e. hm_get (build_ownership b (as_partitions a)) (partition_key t p) = Some e)"
    by (simp add: owns_def broker_view_indexes [OF assms(1)])
  then show ?thesis by (auto simp: build_ownership_get [OF assms(2)])
qed

lemma broker_view_leader:
  assumes "lease \<le> as_controller_epoch a" "distinct (map pa_key (as_partitions a))"
  shows "leader_for (broker_view lease a b) t p = Some c \<longleftrightarrow>
     (\<exists>q \<in> set (as_partitions a). pa_broker q = c \<and> pa_topic q = t \<and> pa_partition q = p)"
proof -
  have "hm_wf (map (\<lambda>p. (pa_key p, pa_broker p)) (as_partitions a))" using assms(2) by (simp add: comp_def)
  note iff = map_of_eq_Some_iff [OF this, of "partition_key t p" c]
  have "leader_for (broker_view lease a b) t p =
      hm_get (map (\<lambda>p. (pa_key p, pa_broker p)) (as_partitions a)) (partition_key t p)"
    using foldl_index [OF assms(2), of pa_broker]
    by (simp add: leader_for_def broker_view_indexes [OF assms(1)] build_leaders_def)
  then show ?thesis using iff by auto
qed


section \<open>Epochs and the manifests\<close>

lemma count_floor_loop:
  fixes io data prev_dims
  defines "f \<equiv> \<lambda>fl (name, p).
      let key = partition_key name p; epoch = manifest_floor io (data name p)
      in if key \<in> set (map (\<lambda>(t, q). partition_key t q) prev_dims) then fl
         else if 0 \<le> epoch \<and> epoch \<le> u32_MAX then (if epoch > 0 then hm_insert key epoch fl else fl)
         else fl"
  shows "hm_count (foldl f fl xs) (partition_key t p) =
     (if (t, p) \<in> set xs \<and> (t, p) \<notin> set prev_dims \<and> 0 < manifest_floor io (data t p)
         \<and> manifest_floor io (data t p) \<le> u32_MAX
      then manifest_floor io (data t p) else hm_count fl (partition_key t p))"
proof (induction xs arbitrary: fl)
  case (Cons x xs)
  obtain n q where x: "x = (n, q)" by (cases x)
  have step: "hm_count (f fl x) (partition_key t p) =
      (if (t, p) = x \<and> (t, p) \<notin> set prev_dims \<and> 0 < manifest_floor io (data t p)
         \<and> manifest_floor io (data t p) \<le> u32_MAX
       then manifest_floor io (data t p) else hm_count fl (partition_key t p))"
    by (auto simp: f_def x Let_def hm_count_def)
  show ?case using Cons.IH [of "f fl x"] step by auto
qed simp

lemma count_compute_epoch_floor:
  "hm_count (compute_epoch_floor io data topics prev_dims) (partition_key t p) =
     (if (t, p) \<in> set (catalog topics) \<and> (t, p) \<notin> set prev_dims \<and> 0 < manifest_floor io (data t p)
         \<and> manifest_floor io (data t p) \<le> u32_MAX
      then manifest_floor io (data t p) else 0)"
  unfolding compute_epoch_floor_def count_floor_loop
  by (simp add: catalog_def hm_count_def)

lemma update_assignment_parts:
  assumes "ls_current (al_state l) = Some prev"
    and "balance rh (Some (as_partitions prev)) (ci_alive inp) (ci_topics inp)
           (compute_epoch_floor io data (ci_topics inp)
              (map (\<lambda>p. (pa_topic p, pa_partition p)) (as_partitions prev))) = Some parts"
  shows "\<exists>a l'. update_assignment rh io data inp l = Some (a, l') \<and> as_partitions a = parts"
  using assms by (simp add: update_assignment_def Let_def)

text \<open>The assignment the loop holds covers the manifests on disk.\<close>

definition epochs_cover ::
  "io_env \<Rightarrow> (string \<Rightarrow> int \<Rightarrow> part_dir) \<Rightarrow> partition_assignment list \<Rightarrow> bool" where
  "epochs_cover io data ps \<longleftrightarrow>
     (\<forall>q \<in> set ps. manifest_floor io (data (pa_topic q) (pa_partition q)) \<le> pa_epoch q)"


section \<open>Witnesses\<close>

definition demo_data :: "string \<Rightarrow> int \<Rightarrow> part_dir" where
  "demo_data t p =
     \<lparr>pd_files = [], pd_manifest = Json \<lparr>mf_epoch = 4, mf_high_watermark = 0, mf_log_start_offset = 0\<rparr>,
      pd_legacy_epoch = None, pd_producer_snapshot = Absent, pd_txn_snapshot = Absent, pd_checkpoint = Absent\<rparr>"

definition demo_inputs :: "string list \<Rightarrow> cluster_inputs" where
  "demo_inputs alive =
     \<lparr>ci_alive = alive, ci_registered = [''a'', ''b''], ci_draining = [],
      ci_topics = [\<lparr>ts_name = ''t'', ts_partition_count = 1\<rparr>], ci_groups = [], ci_now = []\<rparr>"

definition demo_current :: assignment where
  "demo_current =
     \<lparr>as_controller_epoch = 1, as_assignment_version = 8, as_generated_at = [], as_controller = ''a'',
      as_brokers = [], as_partitions =
        [\<lparr>pa_topic = ''t'', pa_partition = 0, pa_broker = ''a'', pa_epoch = 5, pa_role = Leader_role\<rparr>],
      as_consumer_groups = []\<rparr>"

definition demo_loop :: assignment_loop where
  "demo_loop =
     \<lparr>al_controller_id = ''a'', al_controller_epoch = 1,
      al_state = \<lparr>ls_current = Some demo_current, ls_version_counter = 8\<rparr>\<rparr>"

definition demo_update :: "string list \<Rightarrow> assignment_loop \<Rightarrow> (assignment \<times> assignment_loop) option" where
  "demo_update alive = update_assignment (\<lambda>_ _ _. 0) healthy_io demo_data (demo_inputs alive)"



text \<open>The hypothesis that the loop holds an assignment of every partition matters. When no broker is
  alive the recompute writes an assignment without partitions and forgets their epochs. A leader that
  was given epoch 5 and had not yet written it to its manifest is followed by one with epoch 4, the
  epoch of the leader before it.\<close>

lemma empty_recompute_forgets_epochs:
  "map_option (\<lambda>(a, l). as_partitions a) (demo_update [] demo_loop) = Some []
   \<and> Option.bind (demo_update [] demo_loop) (\<lambda>(a, l).
       map_option (\<lambda>(a, l). map (\<lambda>p. (pa_broker p, pa_epoch p)) (as_partitions a)) (demo_update [''b''] l))
     = Some [(''b'', 4)]"
  by code_simp

end
