(* ===== verification/GroupManager.thy ===== *)
theory GroupManager
  imports GroupCoordinator Assignment
begin

text \<open>
  The broker's group manager (\<open>crates/kaas-coordinator/src/manager.rs\<close>) and the driver that drops
  groups whose coordinator moved (\<open>crates/kaas-broker/src/group_takeover.rs\<close>). The manager routes
  every group request through one question, whether this broker coordinates the group under the
  assignment it has applied, and then to the group's state machine (\<open>GroupCoordinator\<close>) or to the
  offset store (\<open>OffsetStore\<close>).

  The assignment source is an interface with two providers in the source, the bootstrap
  \<open>LocalGroupSource\<close> and the broker's \<open>Coordinator\<close>; its contract is the locale
  \<open>assignment_source\<close>, interpreted for both and for transactions.
\<close>

section \<open>The assignment source\<close>

locale assignment_source =
  fixes owns_key :: "'s \<Rightarrow> string \<Rightarrow> bool"
    and coordinator_for :: "'s \<Rightarrow> string \<Rightarrow> string option"
    and self_of :: "'s \<Rightarrow> string"
  assumes owns_iff: "owns_key s k \<longleftrightarrow> coordinator_for s k = Some (self_of s)"
begin

text \<open>Two brokers whose sources give the same answer never both own a key.\<close>

lemma exclusive:
  "coordinator_for s k = coordinator_for s' k \<Longrightarrow> self_of s \<noteq> self_of s' \<Longrightarrow> owns_key s k \<Longrightarrow> \<not> owns_key s' k"
  by (simp add: owns_iff)

lemma redirected: "owns_key s k \<Longrightarrow> coordinator_for s k = coordinator_for s' k \<Longrightarrow> coordinator_for s' k = Some (self_of s)"
  by (simp add: owns_iff)

end

datatype group_source = LocalGroupSource string | ClusterSource coordinator

fun src_owns_group :: "group_source \<Rightarrow> string \<Rightarrow> bool" where
  "src_owns_group (LocalGroupSource self_id) group_id = True"
| "src_owns_group (ClusterSource c) group_id = owns_group c group_id"

fun src_group_coordinator :: "group_source \<Rightarrow> string \<Rightarrow> string option" where
  "src_group_coordinator (LocalGroupSource self_id) group_id = Some self_id"
| "src_group_coordinator (ClusterSource c) group_id = group_coordinator c group_id"

fun src_assignment_fence :: "group_source \<Rightarrow> fence_stamp" where
  "src_assignment_fence (LocalGroupSource self_id) = zero_stamp"
| "src_assignment_fence (ClusterSource c) = assignment_fence c"

fun src_self :: "group_source \<Rightarrow> string" where
  "src_self (LocalGroupSource self_id) = self_id"
| "src_self (ClusterSource c) = co_self_id c"

section \<open>The manager\<close>

record broker_endpoint =
  be_node_id :: int
  be_host :: string
  be_port :: int

record manager =
  mg_broker_id :: string
  mg_offsets :: offset_store
  mg_group_source :: group_source
  mg_txn_source :: "coordinator option"
  mg_groups :: "(string, group) hash_map"

definition new_manager :: "string \<Rightarrow> group_source \<Rightarrow> manager" where
  "new_manager broker_id src =
     \<lparr>mg_broker_id = broker_id, mg_offsets = new_offset_store, mg_group_source = src,
      mg_txn_source = None, mg_groups = []\<rparr>"

definition set_group_assignment_source :: "group_source \<Rightarrow> manager \<Rightarrow> manager" where
  "set_group_assignment_source src m = m\<lparr>mg_group_source := src\<rparr>"

definition set_txn_assignment_source :: "coordinator \<Rightarrow> manager \<Rightarrow> manager" where
  "set_txn_assignment_source src m = m\<lparr>mg_txn_source := Some src\<rparr>"

definition is_coordinator :: "manager \<Rightarrow> string \<Rightarrow> bool" where
  "is_coordinator m group_id = src_owns_group (mg_group_source m) group_id"

definition local_groups :: "manager \<Rightarrow> string list" where
  "local_groups m = filter (is_coordinator m) (map fst (mg_groups m))"

definition resident_groups :: "manager \<Rightarrow> string list" where
  "resident_groups m = map fst (mg_groups m)"

text \<open>A removed group is shut down, which answers its parked calls; they hold the group itself.\<close>

definition relinquish_group :: "string \<Rightarrow> manager \<Rightarrow> group option \<times> manager" where
  "relinquish_group group_id m =
     (map_option group_shutdown (hm_get (mg_groups m) group_id),
      m\<lparr>mg_groups := hm_remove group_id (mg_groups m)\<rparr>)"

definition get_or_create :: "offset_io \<Rightarrow> offset_disk \<Rightarrow> string \<Rightarrow> manager \<Rightarrow> group \<times> manager" where
  "get_or_create io disk group_id m =
     (case hm_get (mg_groups m) group_id of
        Some g \<Rightarrow> (g, m)
      | None \<Rightarrow>
          let g = new_group group_id
          in (g, m\<lparr>mg_groups := hm_insert group_id g (mg_groups m),
                   mg_offsets := snd (offset_load io (mg_offsets m) disk group_id)\<rparr>))"

record coordinator_resolution =
  cr_node_id :: int
  cr_host :: string
  cr_port :: int
  cr_error_code :: int

definition unresolved :: "int \<Rightarrow> coordinator_resolution" where
  "unresolved code = \<lparr>cr_node_id = 0, cr_host = [], cr_port = 0, cr_error_code = code\<rparr>"

definition find_coordinator ::
  "(string \<Rightarrow> broker_endpoint option) \<Rightarrow> manager \<Rightarrow> string \<Rightarrow> int \<Rightarrow> coordinator_resolution" where
  "find_coordinator lookup m key key_type =
     (let answer = (\<lambda>resolved. case Option.bind resolved lookup of
            Some ep \<Rightarrow> \<lparr>cr_node_id = be_node_id ep, cr_host = be_host ep, cr_port = be_port ep, cr_error_code = 0\<rparr>
          | None \<Rightarrow> unresolved 15)
      in if key_type = 0 then answer (src_group_coordinator (mg_group_source m) key)
         else if key_type = 1
         then (case mg_txn_source m of None \<Rightarrow> unresolved 15 | Some s \<Rightarrow> answer (txn_coordinator s key))
         else unresolved 42)"

section \<open>Group requests\<close>

definition not_coordinator_join :: "string \<Rightarrow> join_outcome" where
  "not_coordinator_join mid =
     \<lparr>jo_error_code = 16, jo_generation_id = -1, jo_leader = [], jo_member_id = mid,
      jo_protocol_type = [], jo_protocol_name = [], jo_members = []\<rparr>"

definition put_group :: "string \<Rightarrow> group \<Rightarrow> manager \<Rightarrow> manager" where
  "put_group group_id g m = m\<lparr>mg_groups := hm_insert group_id g (mg_groups m)\<rparr>"

definition join_group ::
  "offset_io \<Rightarrow> offset_disk \<Rightarrow> int \<Rightarrow> int \<Rightarrow> nat \<Rightarrow> string \<Rightarrow> join_request \<Rightarrow> manager \<Rightarrow>
   join_outcome option \<times> manager" where
  "join_group io disk now n ticket group_id req m =
     (if \<not> is_coordinator m group_id then (Some (not_coordinator_join (jr_member_id req)), m)
      else let (g, m1) = get_or_create io disk group_id m;
               (r, g1) = group_join now n ticket req g
           in (r, put_group group_id g1 m1))"

definition sync_group ::
  "nat \<Rightarrow> string \<Rightarrow> sync_request \<Rightarrow> manager \<Rightarrow> (sync_reply + sync_call) \<times> manager" where
  "sync_group ticket group_id req m =
     (if \<not> is_coordinator m group_id then (Inl (sync_error 16), m)
      else case hm_get (mg_groups m) group_id of
             None \<Rightarrow> (Inl (sync_error UNKNOWN_MEMBER_ID), m)
           | Some g \<Rightarrow> (let (r, g1) = group_sync ticket req g in (r, put_group group_id g1 m)))"

definition heartbeat :: "int \<Rightarrow> string \<Rightarrow> heartbeat_request \<Rightarrow> manager \<Rightarrow> int \<times> manager" where
  "heartbeat now group_id req m =
     (if \<not> is_coordinator m group_id then (16, m)
      else case hm_get (mg_groups m) group_id of
             Some g \<Rightarrow> (let (r, g1) = group_heartbeat now req g in (r, put_group group_id g1 m))
           | None \<Rightarrow> (UNKNOWN_MEMBER_ID, m))"

record leave_outcome =
  lo_group_error :: int
  lo_members :: "(string \<times> int) list"

definition leave_group :: "int \<Rightarrow> string \<Rightarrow> string list \<Rightarrow> manager \<Rightarrow> leave_outcome \<times> manager" where
  "leave_group now group_id mids m =
     (if \<not> is_coordinator m group_id then (\<lparr>lo_group_error = 16, lo_members = []\<rparr>, m)
      else case hm_get (mg_groups m) group_id of
             None \<Rightarrow> (\<lparr>lo_group_error = 0, lo_members = []\<rparr>, m)
           | Some g \<Rightarrow> (let (out, g1) = group_leave now mids g
                       in (\<lparr>lo_group_error = 0, lo_members = out\<rparr>, put_group group_id g1 m)))"

section \<open>Offset requests\<close>

definition mgr_offset_commit ::
  "offset_io \<Rightarrow> string \<Rightarrow> (string, int) hash_map \<Rightarrow> (string, string) hash_map \<Rightarrow> manager \<times> offset_disk \<Rightarrow>
   int \<times> manager \<times> offset_disk" where
  "mgr_offset_commit io group_id offsets metadata md =
     (let (m, disk) = md in
      if \<not> is_coordinator m group_id then (16, m, disk)
      else case commit_with_metadata io (src_assignment_fence (mg_group_source m)) (mg_offsets m) disk
                  group_id offsets metadata of
             (r, st', disk') \<Rightarrow>
               (case r of Inr _ \<Rightarrow> 0 | Inl (FencedOffsetWrite _ _) \<Rightarrow> 16 | Inl _ \<Rightarrow> 0,
                m\<lparr>mg_offsets := st'\<rparr>, disk'))"

definition mgr_offset_fetch ::
  "string \<Rightarrow> fetch_spec list \<Rightarrow> manager \<Rightarrow> ((string, int) hash_map \<times> (string, string) hash_map) option" where
  "mgr_offset_fetch group_id specs m =
     (if \<not> is_coordinator m group_id then None
      else Some (offset_fetch (mg_offsets m) group_id specs, fetch_metadata (mg_offsets m) group_id specs))"

definition delete_group :: "offset_io \<Rightarrow> string \<Rightarrow> manager \<times> offset_disk \<Rightarrow> int \<times> manager \<times> offset_disk" where
  "delete_group io group_id md =
     (let (m, disk) = md in
      if \<not> is_coordinator m group_id then (16, m, disk)
      else if hm_get (mg_groups m) group_id = None \<and> \<not> has_group (mg_offsets m) group_id then (69, m, disk)
      else if (case hm_get (mg_groups m) group_id of
                 Some g \<Rightarrow> gi_state (g_inner g) \<noteq> Empty \<and> gi_state (g_inner g) \<noteq> Dead | None \<Rightarrow> False)
      then (67, m, disk)
      else let m1 = snd (relinquish_group group_id m)
           in case offset_delete io (mg_offsets m1) disk group_id of
                (_, st', disk') \<Rightarrow> (0, m1\<lparr>mg_offsets := st'\<rparr>, disk'))"

definition delete_offsets ::
  "offset_io \<Rightarrow> string \<Rightarrow> string list \<Rightarrow> manager \<times> offset_disk \<Rightarrow> (int \<times> string list) \<times> manager \<times> offset_disk" where
  "delete_offsets io group_id ks md =
     (let (m, disk) = md in
      if \<not> is_coordinator m group_id then ((16, []), m, disk)
      else case delete_partitions io (src_assignment_fence (mg_group_source m)) (mg_offsets m) disk group_id ks of
             (Inr removed, st', disk') \<Rightarrow> ((0, removed), m\<lparr>mg_offsets := st'\<rparr>, disk')
           | (Inl _, st', disk') \<Rightarrow> ((0, []), m\<lparr>mg_offsets := st'\<rparr>, disk'))"

definition purge_step ::
  "offset_io \<Rightarrow> string \<Rightarrow> (nat \<times> string list) \<times> manager \<times> offset_disk \<Rightarrow> string \<Rightarrow>
   (nat \<times> string list) \<times> manager \<times> offset_disk" where
  "purge_step io topic acc gid =
     (let ((removed, failed), m, disk) = acc in
      if \<not> is_coordinator m gid then acc
      else case purge_topic io (src_assignment_fence (mg_group_source m)) (mg_offsets m) disk gid topic of
             (Inr n, st', disk') \<Rightarrow> ((removed + n, failed), m\<lparr>mg_offsets := st'\<rparr>, disk')
           | (Inl _, st', disk') \<Rightarrow> ((removed, failed @ [gid]), m\<lparr>mg_offsets := st'\<rparr>, disk'))"

definition purge_topic_offsets ::
  "offset_io \<Rightarrow> string \<Rightarrow> manager \<times> offset_disk \<Rightarrow> (nat \<times> string list) \<times> manager \<times> offset_disk" where
  "purge_topic_offsets io topic md =
     (let (m, disk) = md;
          ids = remdups (sort (group_ids_on_disk io disk @ map fst (mg_groups m)))
      in foldl (purge_step io topic) ((0, []), m, disk) ids)"

definition list_groups :: "manager \<Rightarrow> group_snapshot list" where
  "list_groups m = map (describe_group \<circ> snd) (filter (\<lambda>(gid, _). is_coordinator m gid) (mg_groups m))"

definition describe_groups :: "string list \<Rightarrow> manager \<Rightarrow> group_snapshot option list" where
  "describe_groups ids m =
     map (\<lambda>gid. if \<not> is_coordinator m gid then None
                else Some (case hm_get (mg_groups m) gid of
                       Some g \<Rightarrow> describe_group g
                     | None \<Rightarrow> \<lparr>gs_id = gid, gs_state = ''Empty'', gs_protocol_type = [],
                                gs_protocol_name = [], gs_generation_id = 0, gs_members = []\<rparr>)) ids"

section \<open>Dropping groups that moved away\<close>

definition takeover_owns_group :: "assignment \<Rightarrow> string \<Rightarrow> string \<Rightarrow> bool" where
  "takeover_owns_group a group_id broker_id =
     (case coordinator_of a group_id of Some b \<Rightarrow> b = broker_id | None \<Rightarrow> False)"

definition group_on_change :: "string \<Rightarrow> assignment \<Rightarrow> manager \<Rightarrow> manager" where
  "group_on_change broker_id nxt m =
     foldl (\<lambda>m gid. if takeover_owns_group nxt gid broker_id then m else snd (relinquish_group gid m))
       m (remdups (resident_groups m))"

section \<open>The interface, interpreted\<close>

lemma group_coordinator_coordinator_of:
  "group_coordinator c g = (case co_current c of None \<Rightarrow> None | Some a \<Rightarrow> coordinator_of a g)"
  by (simp add: group_coordinator_def coordinator_of_def split: option.split)

interpretation cluster_groups: assignment_source owns_group group_coordinator co_self_id
  by unfold_locales
    (auto simp: owns_group_def group_coordinator_def split: option.splits prod.splits)

interpretation cluster_txns: assignment_source owns_txn txn_coordinator co_self_id
  by unfold_locales (auto simp: owns_txn_def txn_coordinator_def split: option.splits prod.splits)

interpretation any_source: assignment_source src_owns_group src_group_coordinator src_self
proof
  show "src_owns_group s g \<longleftrightarrow> src_group_coordinator s g = Some (src_self s)" for s g
    by (cases s) (simp_all add: cluster_groups.owns_iff)
qed

section \<open>Who serves a group\<close>

text \<open>A manager that answers every request for a group with \<open>NOT_COORDINATOR\<close> and changes nothing.\<close>

definition refuses :: "manager \<Rightarrow> string \<Rightarrow> bool" where
  "refuses m g \<longleftrightarrow>
     (\<forall>io disk now n ticket req. join_group io disk now n ticket g req m = (Some (not_coordinator_join (jr_member_id req)), m))
   \<and> (\<forall>ticket req. sync_group ticket g req m = (Inl (sync_error 16), m))
   \<and> (\<forall>now req. heartbeat now g req m = (16, m))
   \<and> (\<forall>now mids. leave_group now g mids m = (\<lparr>lo_group_error = 16, lo_members = []\<rparr>, m))
   \<and> (\<forall>io offs meta disk. mgr_offset_commit io g offs meta (m, disk) = (16, m, disk))
   \<and> (\<forall>specs. mgr_offset_fetch g specs m = None)
   \<and> (\<forall>io disk. delete_group io g (m, disk) = (16, m, disk))
   \<and> (\<forall>io ks disk. delete_offsets io g ks (m, disk) = ((16, []), m, disk))"

lemma not_coordinator_refuses: "\<not> is_coordinator m g \<Longrightarrow> refuses m g"
  by (simp add: refuses_def join_group_def sync_group_def heartbeat_def leave_group_def mgr_offset_commit_def
      mgr_offset_fetch_def delete_group_def delete_offsets_def)

lemma cluster_coordinator:
  "mg_group_source m = ClusterSource c \<Longrightarrow> is_coordinator m g \<longleftrightarrow> group_coordinator c g = Some (co_self_id c)"
  by (simp add: is_coordinator_def cluster_groups.owns_iff)

text \<open>C32: Of two brokers that have applied the same assignment at most one serves a group: the other
  answers every request for it with \<open>NOT_COORDINATOR\<close> and changes neither its state nor the shared
  offset files. Both answer FindCoordinator with the same broker, the one that serves.\<close>

theorem one_coordinator_serves:
  assumes "mg_group_source m1 = ClusterSource c1" "mg_group_source m2 = ClusterSource c2"
    and "co_current c1 = co_current c2" "co_self_id c1 \<noteq> co_self_id c2"
  shows "(refuses m1 g \<or> refuses m2 g)
   \<and> find_coordinator lookup m1 g 0 = find_coordinator lookup m2 g 0
   \<and> (is_coordinator m1 g \<longrightarrow> src_group_coordinator (mg_group_source m2) g = Some (co_self_id c1))"
proof -
  have same: "group_coordinator c1 g = group_coordinator c2 g"
    using assms(3) by (simp add: group_coordinator_def)
  have "\<not> is_coordinator m1 g \<or> \<not> is_coordinator m2 g"
    using cluster_groups.exclusive [OF same assms(4)] assms(1,2) by (auto simp: is_coordinator_def)
  moreover have "find_coordinator lookup m1 g 0 = find_coordinator lookup m2 g 0"
    using assms(1,2) same by (simp add: find_coordinator_def)
  moreover have "is_coordinator m1 g \<longrightarrow> src_group_coordinator (mg_group_source m2) g = Some (co_self_id c1)"
    using cluster_groups.redirected [of c1 g c2] assms(1,2) same by (simp add: is_coordinator_def)
  ultimately show ?thesis using not_coordinator_refuses by blast
qed

section \<open>Groups that moved away\<close>

lemma relinquish_loop:
  "mg_groups (foldl (\<lambda>m gid. if keep gid then m else snd (relinquish_group gid m)) m gids)
     = filter (\<lambda>(gid, _). gid \<in> set gids \<longrightarrow> keep gid) (mg_groups m)"
  "mg_group_source (foldl (\<lambda>m gid. if keep gid then m else snd (relinquish_group gid m)) m gids) = mg_group_source m"
  "mg_offsets (foldl (\<lambda>m gid. if keep gid then m else snd (relinquish_group gid m)) m gids) = mg_offsets m"
proof (induction gids arbitrary: m)
  case (Cons gid gids)
  case 1
  show ?case
  proof (cases "keep gid")
    case True
    with Cons.IH(1) [of m] show ?thesis by (auto intro: filter_cong)
  next
    case False
    have "filter (\<lambda>(g, _). g \<in> set gids \<longrightarrow> keep g) (hm_remove gid (mg_groups m))
        = filter (\<lambda>(g, _). g \<in> set (gid # gids) \<longrightarrow> keep g) (mg_groups m)"
      using False by (auto simp: AList.delete_eq intro: filter_cong)
    with False Cons.IH(1) [of "snd (relinquish_group gid m)"] show ?thesis
      by (simp add: relinquish_group_def)
  qed
next
  case (Cons gid gids)
  case 2
  show ?case using Cons.IH(2) by (simp add: relinquish_group_def)
next
  case (Cons gid gids)
  case 3
  show ?case using Cons.IH(3) by (simp add: relinquish_group_def)
qed auto

lemma group_on_change_groups:
  "mg_groups (group_on_change b nxt m) = filter (\<lambda>(gid, _). takeover_owns_group nxt gid b) (mg_groups m)"
  unfolding group_on_change_def relinquish_loop
  by (rule filter_cong) (auto simp: resident_groups_def rev_image_eqI)

text \<open>The broker's two answers to the same question, the coordinator's and the driver's, agree: the
  driver keeps exactly the resident groups the manager will serve.\<close>

lemma group_on_change_serves:
  assumes "mg_group_source m = ClusterSource c" "co_current c = Some nxt"
  shows "resident_groups (group_on_change (co_self_id c) nxt m) = local_groups m"
proof -
  have "takeover_owns_group nxt g (co_self_id c) \<longleftrightarrow> is_coordinator m g" for g
    using assms by (simp add: cluster_coordinator takeover_owns_group_def group_coordinator_coordinator_of split: option.split)
  then show ?thesis
    by (simp add: resident_groups_def local_groups_def group_on_change_groups filter_map comp_def case_prod_unfold)
qed

section \<open>Offsets across a move\<close>

lemma join_loads:
  assumes "is_coordinator m g" "hm_get (mg_groups m) g = None"
    and "join_group io disk now n ticket g req m = (r, m')"
  shows "mg_offsets m' = snd (offset_load io (mg_offsets m) disk g)" "mg_group_source m' = mg_group_source m"
  using assms by (auto simp: join_group_def get_or_create_def put_group_def Let_def split: prod.splits)

lemma stale_write_no_effect:
  assumes "\<not> oi_read_fails io" "hm_get disk g = Some (Envelope f)" "local < of_fence f"
  shows "\<exists>st'. write_group io local st disk g off meta = (Inl (FencedOffsetWrite (of_fence f) local), st', disk)"
  using assms by (simp add: write_group_def on_disk_fence_def)

lemma stale_commit_disk:
  assumes "\<not> oi_read_fails io" "hm_get disk g = Some (Envelope f)" "local < of_fence f"
    and "commit_with_metadata io local st disk g offs meta = (r, st', disk')"
  shows "disk' = disk"
proof -
  obtain off c1 where m1: "merge_offsets (or_default (os_cache st) g) offs = (off, c1)" by (rule prod.exhaust)
  obtain me c2 where m2: "merge_metadata (or_default (os_metadata st) g) meta = (me, c2)" by (rule prod.exhaust)
  let ?st1 = "st\<lparr>os_cache := hm_insert g off (os_cache st), os_metadata := hm_insert g me (os_metadata st)\<rparr>"
  obtain st2 where "write_group io local ?st1 disk g off me = (Inl (FencedOffsetWrite (of_fence f) local), st2, disk)"
    using stale_write_no_effect [OF assms(1-3)] by blast
  with assms(4) show ?thesis by (auto simp: commit_eq [OF m1 m2] split: if_splits)
qed

lemma stale_delete_partitions_disk:
  assumes "\<not> oi_read_fails io" "hm_get disk g = Some (Envelope f)" "local < of_fence f"
    and "delete_partitions io local st disk g ks = (r, st', disk')"
  shows "disk' = disk"
proof (cases "hm_get (os_cache st) g")
  case None
  with assms(4) show ?thesis by (simp add: delete_partitions_def)
next
  case (Some c)
  obtain st1 off me where d: "drop_keys st g c (remdups (filter (\<lambda>k. hm_get c k \<noteq> None) ks)) = (st1, off, me)"
    by (metis prod_cases3)
  obtain st2 where "write_group io local st1 disk g off me = (Inl (FencedOffsetWrite (of_fence f) local), st2, disk)"
    using stale_write_no_effect [OF assms(1-3)] by blast
  with assms(4) Some d show ?thesis by (simp add: delete_partitions_def Let_def)
qed


section \<open>Where the manager falls short\<close>

definition solo :: "string \<Rightarrow> manager" where
  "solo b = new_manager b (LocalGroupSource b)"

definition two_offsets :: offset_disk where
  "two_offsets = [(''g'', Envelope \<lparr>of_offsets = [(''t/0'', 7), (''t/1'', 9)], of_metadata = [], of_fence = zero_stamp\<rparr>)]"

text \<open>Only a JoinGroup loads the group's file. After a restart a consumer that assigns its partitions
  itself fetches no offset, and its next commit replaces the file by the partition it commits.\<close>

lemma unloaded_group_loses_offsets:
  "map_option fst (mgr_offset_fetch ''g'' [\<lparr>fs_topic = ''t'', fs_partitions = [0, 1]\<rparr>] (solo ''a''))
     = Some [(''t/0'', -1), (''t/1'', -1)]
   \<and> (let (r, m, disk) = mgr_offset_commit healthy_offsets ''g'' [(''t/0'', 8)] [] (solo ''a'', two_offsets)
      in r = 0 \<and> disk_offsets disk ''g'' ''t/0'' = Some 8 \<and> disk_offsets disk ''g'' ''t/1'' = None)"
  by code_simp

text \<open>A commit whose write fails is answered as a success.\<close>

lemma failed_commit_reported_ok:
  "let (r, m, disk) = mgr_offset_commit (healthy_offsets\<lparr>oi_write_fails := True\<rparr>) ''g'' [(''t/0'', 8)] []
         (solo ''a'', []) in r = 0 \<and> disk = []"
  by code_simp

text \<open>Deleting a group removes its file without the fence that guards every write: a broker whose
  assignment is stale deletes the offsets of the new coordinator.\<close>

definition stale_manager :: manager where
  "stale_manager = (solo ''a'')\<lparr>mg_offsets := new_offset_store\<lparr>os_cache := [(''g'', [(''t/0'', 7)])]\<rparr>\<rparr>"

lemma stale_delete_removes_file:
  "let disk = [(''g'', Envelope \<lparr>of_offsets = [(''t/0'', 9)], of_metadata = [], of_fence = FenceStamp 2 5\<rparr>)];
       (r, m, disk') = delete_group healthy_offsets ''g'' (stale_manager, disk)
   in src_assignment_fence (mg_group_source stale_manager) < FenceStamp 2 5 \<and> r = 0 \<and> disk' = []"
  by code_simp

section \<open>Witnesses\<close>

definition group_rows :: assignment where
  "group_rows =
     \<lparr>as_controller_epoch = 2, as_assignment_version = 1, as_generated_at = [], as_controller = ''a'',
      as_brokers = [], as_partitions = [], as_consumer_groups = [\<lparr>ga_group_id = ''g'', ga_broker = ''a'', ga_epoch = 1\<rparr>]\<rparr>"

definition member_of_cluster :: "string \<Rightarrow> manager" where
  "member_of_cluster b = new_manager b (ClusterSource (snd (apply_if_new (Read_assignment group_rows) 2 (new_coordinator b))))"

theorem one_coordinator_serves_witness:
  "is_coordinator (member_of_cluster ''a'') ''g'' \<and> refuses (member_of_cluster ''b'') ''g''"
proof -
  let ?c = "\<lambda>b. snd (apply_if_new (Read_assignment group_rows) 2 (new_coordinator b))"
  have a: "is_coordinator (member_of_cluster ''a'') ''g''" by code_simp
  have "mg_group_source (member_of_cluster b) = ClusterSource (?c b)" "co_current (?c b) = Some group_rows"
    "co_self_id (?c b) = b" for b
    by (simp_all add: member_of_cluster_def new_manager_def apply_if_new_def group_rows_def new_coordinator_def)
  with one_coordinator_serves [of "member_of_cluster ''a''" "?c ''a''" "member_of_cluster ''b''" "?c ''b''" "''g''"]
  have "refuses (member_of_cluster ''a'') ''g'' \<or> refuses (member_of_cluster ''b'') ''g''" by simp
  moreover have "\<not> refuses (member_of_cluster ''a'') ''g''"
    using a by (auto simp: refuses_def mgr_offset_fetch_def)
  ultimately show ?thesis using a by blast
qed

definition solo_join :: join_request where
  "solo_join = demo_join ''m''"


end
