(* ===== verification/DiskEngine.thy ===== *)
theory DiskEngine
  imports PartitionRecovery
begin

text \<open>
  The disk storage engine (\<open>crates/kaas-storage/src/disk.rs\<close>), the per-topic files it reads
  (\<open>topicconfig.rs\<close>, \<open>topic_identity.rs\<close>), the retention cleaner (\<open>cleaner.rs\<close>), the topic registry
  that tells the engine where a partition lives (\<open>crates/kaas-broker/src/topic_registry.rs\<close>) and the
  move of a partition between log dirs (\<open>handlers/alter_replica_log_dirs.rs\<close>).

  The engine maps (topic, partition) to open partitions; the volume holds, for every log dir root,
  the partition directories and the topic's own files. An engine operation is the partition
  operation of \<open>Partition\<close> on the directory that hosts the partition, after the get-or-open that
  every writing call starts with.
\<close>

section \<open>Topic files\<close>

record topic_config_file =
  tc_retention_ms :: "int option"
  tc_retention_bytes :: "int option"
  tc_segment_bytes :: "int option"
  tc_segment_ms :: "int option"
  tc_cleanup_policy :: string
  tc_min_compaction_lag_ms :: "int option"
  tc_delete_retention_ms :: "int option"
  tc_flush_messages :: "int option"

definition sentinel_to_option :: "int \<Rightarrow> nat option" where
  "sentinel_to_option v = (if v \<le> 0 then None else Some (nat v))"

definition apply_to_partition_config :: "topic_config_file \<Rightarrow> partition_config \<Rightarrow> partition_config" where
  "apply_to_partition_config cfg base =
     (let out1 = (case Option.bind (tc_segment_bytes cfg) sentinel_to_option of
                    Some b \<Rightarrow> base\<lparr>pc_segment_bytes := b\<rparr> | None \<Rightarrow> base);
          out2 = (case tc_segment_ms cfg of
                    Some raw \<Rightarrow> out1\<lparr>pc_segment_ms := sentinel_to_option raw\<rparr> | None \<Rightarrow> out1)
      in case tc_flush_messages cfg of
           Some v \<Rightarrow> out2\<lparr>pc_flush_interval_messages := v\<rparr> | None \<Rightarrow> out2)"

definition read_topic_config ::
  "io_env \<Rightarrow> topic_config_file json_file \<Rightarrow> io_error + topic_config_file option" where
  "read_topic_config io f =
     (if io_fails io Read_topic_config then Inl Io_failed
      else case f of Absent \<Rightarrow> Inr None | Corrupt \<Rightarrow> Inl Invalid_data | Json c \<Rightarrow> Inr (Some c))"

definition write_topic_config ::
  "io_env \<Rightarrow> topic_config_file \<Rightarrow> topic_config_file json_file \<Rightarrow>
   (io_error + unit) \<times> topic_config_file json_file" where
  "write_topic_config io c f =
     (if io_fails io Write_topic_config then (Inl Io_failed, f) else (Inr (), Json c))"

definition read_topic_identity :: "io_env \<Rightarrow> string json_file \<Rightarrow> io_error + string option" where
  "read_topic_identity io f =
     (if io_fails io Read_topic_identity then Inl Io_failed
      else case f of Absent \<Rightarrow> Inr None | Corrupt \<Rightarrow> Inl Invalid_data
           | Json topic_id \<Rightarrow> Inr (if topic_id = [] then None else Some topic_id))"

definition write_topic_identity ::
  "io_env \<Rightarrow> string \<Rightarrow> string json_file \<Rightarrow> (io_error + unit) \<times> string json_file" where
  "write_topic_identity io topic_id f =
     (if io_fails io Write_topic_identity then (Inl Io_failed, f) else (Inr (), Json topic_id))"

datatype identity_verdict = Unstamped | Identity_match | Stale

definition identity_classify :: "io_env \<Rightarrow> string json_file \<Rightarrow> string \<Rightarrow> io_error + identity_verdict" where
  "identity_classify io f topic_id =
     (case read_topic_identity io f of
        Inl e \<Rightarrow> Inl e
      | Inr None \<Rightarrow> Inr Unstamped
      | Inr (Some have_id) \<Rightarrow> Inr (if have_id = topic_id then Identity_match else Stale))"

section \<open>Volumes and the engine\<close>

record volume =
  vo_parts :: "string \<Rightarrow> string \<Rightarrow> int \<Rightarrow> part_dir"
  vo_configs :: "string \<Rightarrow> string \<Rightarrow> topic_config_file json_file"
  vo_ids :: "string \<Rightarrow> string \<Rightarrow> string json_file"

definition empty_dir :: part_dir where
  "empty_dir = \<lparr>pd_files = [], pd_manifest = Absent, pd_legacy_epoch = None,
     pd_producer_snapshot = Absent, pd_txn_snapshot = Absent, pd_checkpoint = Absent\<rparr>"

definition put_dir :: "string \<Rightarrow> string \<Rightarrow> int \<Rightarrow> part_dir \<Rightarrow> volume \<Rightarrow> volume" where
  "put_dir root topic part d v =
     v\<lparr>vo_parts := (\<lambda>r t p. if r = root \<and> t = topic \<and> p = part then d else vo_parts v r t p)\<rparr>"

record log_dir_info =
  ld_name :: string
  ld_path :: string
  ld_default_eligible :: bool
  ld_cordoned :: bool
  ld_labels :: "(string \<times> string) list"

definition DEFAULT_LOG_DIR_NAME :: string where
  "DEFAULT_LOG_DIR_NAME = ''default''"

datatype topic_incarnation = Unknown | Pending | Known string

text \<open>What the engine asks about a topic: the log dir it was placed in and its incarnation. Without
  a resolver installed the answers are \<open>None\<close> and \<open>Unknown\<close>.\<close>

record resolvers =
  rs_log_dir_of :: "string \<Rightarrow> int \<Rightarrow> string option"
  rs_incarnation_of :: "string \<Rightarrow> topic_incarnation"

record open_part =
  op_root :: string
  op_part :: partition

record engine =
  en_data_dir :: string
  en_extra_log_dirs :: "log_dir_info list"
  en_cfg :: partition_config
  en_partitions :: "(string \<times> int, open_part) hash_map"
  en_migrating :: "(string \<times> int) list"

type_synonym disk_state = "engine \<times> volume"

definition new_engine :: "string \<Rightarrow> partition_config \<Rightarrow> engine" where
  "new_engine data_dir cfg = \<lparr>en_data_dir = data_dir, en_extra_log_dirs = [], en_cfg = cfg,
     en_partitions = [], en_migrating = []\<rparr>"

definition with_extra_log_dirs :: "log_dir_info list \<Rightarrow> engine \<Rightarrow> engine" where
  "with_extra_log_dirs dirs en =
     en\<lparr>en_extra_log_dirs := filter (\<lambda>d. ld_name d \<noteq> DEFAULT_LOG_DIR_NAME) dirs\<rparr>"

section \<open>Where a partition lives\<close>

definition log_dir_root :: "resolvers \<Rightarrow> engine \<Rightarrow> string \<Rightarrow> int \<Rightarrow> string" where
  "log_dir_root rs en topic part =
     (case rs_log_dir_of rs topic part of
        Some n \<Rightarrow>
          (case find (\<lambda>d. ld_name d = n) (en_extra_log_dirs en) of
             Some d \<Rightarrow> ld_path d | None \<Rightarrow> en_data_dir en)
      | None \<Rightarrow> en_data_dir en)"

definition has_manifest :: "io_env \<Rightarrow> volume \<Rightarrow> string \<Rightarrow> int \<Rightarrow> string \<Rightarrow> bool" where
  "has_manifest io v topic part root \<longleftrightarrow>
     \<not> io_fails io Stat_manifest \<and> pd_manifest (vo_parts v root topic part) \<noteq> Absent"

text \<open>The root whose directory \<open>partition_dir\<close> answers.\<close>

definition partition_root :: "io_env \<Rightarrow> resolvers \<Rightarrow> disk_state \<Rightarrow> string \<Rightarrow> int \<Rightarrow> string" where
  "partition_root io rs s topic part =
     (let (en, v) = s; assigned_root = log_dir_root rs en topic part in
      if has_manifest io v topic part assigned_root then assigned_root
      else case find (has_manifest io v topic part)
                  (filter (\<lambda>r. r \<noteq> assigned_root) (en_data_dir en # map ld_path (en_extra_log_dirs en))) of
             Some root \<Rightarrow> root | None \<Rightarrow> assigned_root)"

definition partition_config_for ::
  "io_env \<Rightarrow> resolvers \<Rightarrow> disk_state \<Rightarrow> string \<Rightarrow> int \<Rightarrow> partition_config" where
  "partition_config_for io rs s topic part =
     (let (en, v) = s in
      case read_topic_config io (vo_configs v (log_dir_root rs en topic part) topic) of
        Inr (Some c) \<Rightarrow> apply_to_partition_config c (en_cfg en)
      | _ \<Rightarrow> en_cfg en)"

definition identity_permits_open ::
  "io_env \<Rightarrow> resolvers \<Rightarrow> volume \<Rightarrow> string \<Rightarrow> string \<Rightarrow> storage_error + unit" where
  "identity_permits_open io rs v topic root =
     (case rs_incarnation_of rs topic of
        Unknown \<Rightarrow> Inr ()
      | expected \<Rightarrow>
          (case read_topic_identity io (vo_ids v root topic) of
             Inl _ \<Rightarrow> Inr ()
           | Inr None \<Rightarrow> Inr ()
           | Inr (Some have_id) \<Rightarrow> if expected = Known have_id then Inr () else Inl StaleTopicDir))"

section \<open>Opening\<close>

definition ensure_open ::
  "io_env \<Rightarrow> (bytes \<Rightarrow> int) \<Rightarrow> (int \<Rightarrow> bytes \<Rightarrow> int) \<Rightarrow> resolvers \<Rightarrow> string \<Rightarrow> int \<Rightarrow> disk_state \<Rightarrow>
   (storage_error + open_part) \<times> disk_state" where
  "ensure_open io crc crc_append rs topic part s =
     (let (en, v) = s in
      if (topic, part) \<in> set (en_migrating en) then (Inl Migrating, s)
      else case hm_get (en_partitions en) (topic, part) of
        Some q \<Rightarrow> (Inr q, s)
      | None \<Rightarrow>
          let root = partition_root io rs s topic part in
          case identity_permits_open io rs v topic root of
            Inl e \<Rightarrow> (Inl e, s)
          | Inr _ \<Rightarrow>
              (case open_blocking io crc crc_append (vo_parts v root topic part) of
                 (Inl e, d) \<Rightarrow> (Inl e, (en, put_dir root topic part d v))
               | (Inr g, d) \<Rightarrow>
                   let q = \<lparr>op_root = root,
                            op_part = open_partition (partition_config_for io rs s topic part) g\<rparr>
                   in (Inr q, (en\<lparr>en_partitions := hm_insert (topic, part) q (en_partitions en)\<rparr>,
                               put_dir root topic part d v))))"

text \<open>A partition operation on an open partition: the partition and its directory are replaced.\<close>

definition on_open ::
  "(part_dir \<Rightarrow> partition \<Rightarrow> 'r \<times> part_dir \<times> partition) \<Rightarrow> string \<Rightarrow> int \<Rightarrow> open_part \<Rightarrow> disk_state \<Rightarrow>
   'r \<times> disk_state" where
  "on_open f topic part q s =
     (let (en, v) = s in
      case f (vo_parts v (op_root q) topic part) (op_part q) of
        (r, d, p') \<Rightarrow>
          (r, (en\<lparr>en_partitions := hm_insert (topic, part) (q\<lparr>op_part := p'\<rparr>) (en_partitions en)\<rparr>,
               put_dir (op_root q) topic part d v)))"

section \<open>The engine's operations\<close>

text \<open>As in \<open>Partition\<close>, the answer of an append carries the flush sequence an acks=-1 caller waits
  for and whether it does.\<close>

definition engine_append ::
  "io_env \<Rightarrow> (bytes \<Rightarrow> int) \<Rightarrow> (int \<Rightarrow> bytes \<Rightarrow> int) \<Rightarrow> resolvers \<Rightarrow> string \<Rightarrow> int \<Rightarrow> int \<Rightarrow> bytes \<Rightarrow>
   disk_state \<Rightarrow> (storage_error + int \<times> nat \<times> bool) \<times> disk_state" where
  "engine_append io crc crc_append rs topic part epoch batch s =
     (case ensure_open io crc crc_append rs topic part s of
        (Inl e, s1) \<Rightarrow> (Inl e, s1)
      | (Inr q, s1) \<Rightarrow> on_open (\<lambda>d p. append io d p epoch batch) topic part q s1)"

definition engine_read ::
  "io_env \<Rightarrow> string \<Rightarrow> int \<Rightarrow> int \<Rightarrow> nat \<Rightarrow> disk_state \<Rightarrow> storage_error + bytes" where
  "engine_read io topic part start_offset max_bytes s =
     (case hm_get (en_partitions (fst s)) (topic, part) of
        None \<Rightarrow> Inr []
      | Some q \<Rightarrow> partition_read io (vo_parts (snd s) (op_root q) topic part) (op_part q)
                   start_offset max_bytes)"

definition engine_partition_epoch :: "string \<Rightarrow> int \<Rightarrow> disk_state \<Rightarrow> int option" where
  "engine_partition_epoch topic part s =
     map_option (\<lambda>q. rs_epoch (p_snapshot (op_part q))) (hm_get (en_partitions (fst s)) (topic, part))"

definition engine_topic_config :: "io_env \<Rightarrow> resolvers \<Rightarrow> string \<Rightarrow> disk_state \<Rightarrow> topic_config_file option" where
  "engine_topic_config io rs topic s =
     (case read_topic_config io (vo_configs (snd s) (log_dir_root rs (fst s) topic 0) topic) of
        Inr c \<Rightarrow> c | Inl _ \<Rightarrow> None)"

definition engine_high_watermark :: "string \<Rightarrow> int \<Rightarrow> disk_state \<Rightarrow> int" where
  "engine_high_watermark topic part s =
     (case hm_get (en_partitions (fst s)) (topic, part) of
        Some q \<Rightarrow> rs_high_water (p_snapshot (op_part q)) | None \<Rightarrow> 0)"

definition engine_log_start_offset :: "string \<Rightarrow> int \<Rightarrow> disk_state \<Rightarrow> int" where
  "engine_log_start_offset topic part s =
     (case hm_get (en_partitions (fst s)) (topic, part) of
        Some q \<Rightarrow> rs_log_start (p_snapshot (op_part q)) | None \<Rightarrow> 0)"

definition engine_delete_records ::
  "io_env \<Rightarrow> (bytes \<Rightarrow> int) \<Rightarrow> (int \<Rightarrow> bytes \<Rightarrow> int) \<Rightarrow> resolvers \<Rightarrow> string \<Rightarrow> int \<Rightarrow> int \<Rightarrow>
   disk_state \<Rightarrow> (storage_error + int) \<times> disk_state" where
  "engine_delete_records io crc crc_append rs topic part target_offset s =
     (case ensure_open io crc crc_append rs topic part s of
        (Inl e, s1) \<Rightarrow> (Inl e, s1)
      | (Inr q, s1) \<Rightarrow> on_open (\<lambda>d p. delete_records io d p target_offset) topic part q s1)"

definition fence_producer_epoch :: "int \<Rightarrow> int \<Rightarrow> engine \<Rightarrow> engine" where
  "fence_producer_epoch pid new_epoch en =
     en\<lparr>en_partitions :=
       map (\<lambda>(k, q). (k, q\<lparr>op_part := fence_producer (op_part q) pid new_epoch\<rparr>)) (en_partitions en)\<rparr>"

definition engine_last_stable_offset :: "string \<Rightarrow> int \<Rightarrow> disk_state \<Rightarrow> int" where
  "engine_last_stable_offset topic part s =
     (case hm_get (en_partitions (fst s)) (topic, part) of
        Some q \<Rightarrow> last_stable_offset (op_part q)
      | None \<Rightarrow> engine_high_watermark topic part s)"

definition aborted_transactions_in_range ::
  "string \<Rightarrow> int \<Rightarrow> int \<Rightarrow> int \<Rightarrow> disk_state \<Rightarrow> aborted_txn list" where
  "aborted_transactions_in_range topic part start_offset end_offset s =
     (case hm_get (en_partitions (fst s)) (topic, part) of
        Some q \<Rightarrow> aborted_in_range (op_part q) start_offset end_offset | None \<Rightarrow> [])"

definition create_partition ::
  "io_env \<Rightarrow> (bytes \<Rightarrow> int) \<Rightarrow> (int \<Rightarrow> bytes \<Rightarrow> int) \<Rightarrow> resolvers \<Rightarrow> string \<Rightarrow> int \<Rightarrow> disk_state \<Rightarrow>
   (storage_error + unit) \<times> disk_state" where
  "create_partition io crc crc_append rs topic part s =
     (case ensure_open io crc crc_append rs topic part s of
        (Inl e, s1) \<Rightarrow> (Inl e, s1) | (Inr _, s1) \<Rightarrow> (Inr (), s1))"

text \<open>Removing a partition from the map and closing it; a failed close is ignored.\<close>

definition close_open :: "io_env \<Rightarrow> string \<Rightarrow> int \<Rightarrow> disk_state \<Rightarrow> disk_state" where
  "close_open io topic part s =
     (let (en, v) = s in
      case hm_get (en_partitions en) (topic, part) of
        None \<Rightarrow> s
      | Some q \<Rightarrow>
          (case close io (vo_parts v (op_root q) topic part) (op_part q) of
             (_, d, _) \<Rightarrow> (en\<lparr>en_partitions := hm_remove (topic, part) (en_partitions en)\<rparr>,
                           put_dir (op_root q) topic part d v)))"

definition engine_relinquish :: "io_env \<Rightarrow> string \<Rightarrow> int \<Rightarrow> disk_state \<Rightarrow> disk_state" where
  "engine_relinquish io topic part s = close_open io topic part s"

definition relinquish_all :: "io_env \<Rightarrow> disk_state \<Rightarrow> disk_state" where
  "relinquish_all io s = foldl (\<lambda>s (t, p). close_open io t p s) s (map fst (en_partitions (fst s)))"

definition delete_partition :: "io_env \<Rightarrow> resolvers \<Rightarrow> string \<Rightarrow> int \<Rightarrow> disk_state \<Rightarrow> disk_state" where
  "delete_partition io rs topic part s =
     (let s1 = close_open io topic part s; root = partition_root io rs s1 topic part in
      if io_fails io Readdir \<or> io_fails io Remove_file then s1
      else (fst s1, put_dir root topic part empty_dir (snd s1)))"

definition engine_partition_size :: "string \<Rightarrow> int \<Rightarrow> disk_state \<Rightarrow> int" where
  "engine_partition_size topic part s =
     (case hm_get (en_partitions (fst s)) (topic, part) of
        Some q \<Rightarrow> partition_size (op_part q) | None \<Rightarrow> 0)"

definition log_dirs :: "engine \<Rightarrow> log_dir_info list" where
  "log_dirs en = \<lparr>ld_name = DEFAULT_LOG_DIR_NAME, ld_path = en_data_dir en,
     ld_default_eligible = True, ld_cordoned = False, ld_labels = []\<rparr> # en_extra_log_dirs en"

definition partition_log_dir :: "resolvers \<Rightarrow> engine \<Rightarrow> string \<Rightarrow> int \<Rightarrow> string" where
  "partition_log_dir rs en topic part =
     (case rs_log_dir_of rs topic part of
        Some n \<Rightarrow> if n \<in> set (map ld_name (en_extra_log_dirs en)) then n else DEFAULT_LOG_DIR_NAME
      | None \<Rightarrow> DEFAULT_LOG_DIR_NAME)"

definition engine_take_over ::
  "io_env \<Rightarrow> (bytes \<Rightarrow> int) \<Rightarrow> (int \<Rightarrow> bytes \<Rightarrow> int) \<Rightarrow> resolvers \<Rightarrow> string \<Rightarrow> int \<Rightarrow> int \<Rightarrow>
   disk_state \<Rightarrow> (storage_error + int) \<times> disk_state" where
  "engine_take_over io crc crc_append rs topic part epoch s =
     (case ensure_open io crc crc_append rs topic part s of
        (Inl e, s1) \<Rightarrow> (Inl e, s1)
      | (Inr q, s1) \<Rightarrow> on_open (\<lambda>d p. take_over io d p epoch) topic part q s1)"

definition abandon_topic :: "string \<Rightarrow> engine \<Rightarrow> nat \<times> engine" where
  "abandon_topic topic en =
     (length (filter (\<lambda>k. fst k = topic) (map fst (en_partitions en))),
      en\<lparr>en_partitions := filter (\<lambda>(k, q). fst k \<noteq> topic) (en_partitions en)\<rparr>)"

definition open_partition_keys :: "engine \<Rightarrow> (string \<times> int) list" where
  "open_partition_keys en = map fst (en_partitions en)"

definition stalled_partitions :: "engine \<Rightarrow> nat" where
  "stalled_partitions en =
     length (filter (\<lambda>(k, q). pi_flush_err (p_inner (op_part q)) \<noteq> None) (en_partitions en))"

section \<open>Moving a partition between log dirs\<close>

text \<open>\<open>move_partition_to_log_dir\<close> up to the copy: the target is resolved, the partition is marked as
  migrating, which makes \<open>ensure_open\<close> refuse it, and closed. The answer names the source and the
  target root, which are the same when there is nothing to do.\<close>

definition move_target :: "engine \<Rightarrow> string \<Rightarrow> string option" where
  "move_target en log_dir =
     (if log_dir = DEFAULT_LOG_DIR_NAME then Some (en_data_dir en)
      else map_option ld_path (find (\<lambda>d. ld_name d = log_dir) (en_extra_log_dirs en)))"

definition move_begin ::
  "io_env \<Rightarrow> resolvers \<Rightarrow> string \<Rightarrow> int \<Rightarrow> string \<Rightarrow> disk_state \<Rightarrow>
   (storage_error + string \<times> string) \<times> disk_state" where
  "move_begin io rs topic part log_dir s =
     (case move_target (fst s) log_dir of
        None \<Rightarrow> (Inl Unsupported, s)
      | Some target_root \<Rightarrow>
          let src_root = partition_root io rs s topic part in
          if src_root = target_root then (Inr (src_root, target_root), s)
          else if (topic, part) \<in> set (en_migrating (fst s)) then (Inl Migrating, s)
          else (Inr (src_root, target_root),
                close_open io topic part
                  ((fst s)\<lparr>en_migrating := (topic, part) # en_migrating (fst s)\<rparr>, snd s)))"

text \<open>A copy that fails half way leaves some part of the source behind in the target.\<close>

definition copy_dir_fresh ::
  "io_env \<Rightarrow> part_dir \<Rightarrow> string \<Rightarrow> int \<Rightarrow> string \<Rightarrow> string \<Rightarrow> volume \<Rightarrow> (storage_error + unit) \<times> volume" where
  "copy_dir_fresh io partial topic part src dst v =
     (if vo_parts v dst topic part \<noteq> empty_dir \<and> io_fails io Remove_dir
      then (Inl (StorageIo Io_failed), v)
      else if io_fails io Copy_dir
      then (Inl (StorageIo Io_failed), put_dir dst topic part partial v)
      else (Inr (), put_dir dst topic part (vo_parts v src topic part) v))"

definition move_finish ::
  "io_env \<Rightarrow> part_dir \<Rightarrow> string \<Rightarrow> int \<Rightarrow> string \<Rightarrow> string \<Rightarrow> disk_state \<Rightarrow>
   (storage_error + string) \<times> disk_state" where
  "move_finish io partial topic part src dst s =
     (case copy_dir_fresh io partial topic part src dst (snd s) of
        (r, v1) \<Rightarrow>
          (case r of Inl e \<Rightarrow> Inl e | Inr _ \<Rightarrow> Inr src,
           ((fst s)\<lparr>en_migrating := removeAll (topic, part) (en_migrating (fst s))\<rparr>, v1)))"

definition move_partition_to_log_dir ::
  "io_env \<Rightarrow> part_dir \<Rightarrow> resolvers \<Rightarrow> string \<Rightarrow> int \<Rightarrow> string \<Rightarrow> disk_state \<Rightarrow>
   (storage_error + string) \<times> disk_state" where
  "move_partition_to_log_dir io partial rs topic part log_dir s =
     (case move_begin io rs topic part log_dir s of
        (Inl e, s1) \<Rightarrow> (Inl e, s1)
      | (Inr (src, dst), s1) \<Rightarrow>
          if src = dst then (Inr src, s1) else move_finish io partial topic part src dst s1)"

section \<open>The retention cleaner\<close>

record retention_policy =
  rp_retention_bytes :: "nat option"
  rp_retention_ms :: "nat option"

definition is_unlimited :: "retention_policy \<Rightarrow> bool" where
  "is_unlimited pol \<longleftrightarrow> rp_retention_bytes pol = None \<and> rp_retention_ms pol = None"

text \<open>\<open>TopicConfigPolicySource\<close>: the policy and the partition settings of a topic, from its
  \<open>.config.json\<close>.\<close>

definition policy_read :: "io_env \<Rightarrow> resolvers \<Rightarrow> disk_state \<Rightarrow> string \<Rightarrow> int \<Rightarrow> topic_config_file option" where
  "policy_read io rs s topic part =
     (case read_topic_config io (vo_configs (snd s) (log_dir_root rs (fst s) topic part) topic) of
        Inr c \<Rightarrow> c | Inl _ \<Rightarrow> None)"

definition topic_partition_config ::
  "io_env \<Rightarrow> resolvers \<Rightarrow> disk_state \<Rightarrow> string \<Rightarrow> int \<Rightarrow> partition_config \<Rightarrow> partition_config" where
  "topic_partition_config io rs s topic part base =
     (case policy_read io rs s topic part of
        Some cfg \<Rightarrow> apply_to_partition_config cfg base | None \<Rightarrow> base)"

definition policy_for ::
  "io_env \<Rightarrow> resolvers \<Rightarrow> retention_policy \<Rightarrow> disk_state \<Rightarrow> string \<Rightarrow> int \<Rightarrow> retention_policy" where
  "policy_for io rs defaults s topic part =
     (case policy_read io rs s topic part of
        None \<Rightarrow> defaults
      | Some cfg \<Rightarrow>
          \<lparr>rp_retention_bytes = (case tc_retention_bytes cfg of
             None \<Rightarrow> rp_retention_bytes defaults | Some x \<Rightarrow> sentinel_to_option x),
           rp_retention_ms = (case tc_retention_ms cfg of
             None \<Rightarrow> rp_retention_ms defaults | Some x \<Rightarrow> sentinel_to_option x)\<rparr>)"

fun opt_max :: "int option \<Rightarrow> int option \<Rightarrow> int option" where
  "opt_max None y = y"
| "opt_max x None = x"
| "opt_max (Some a) (Some b) = Some (max a b)"

text \<open>The target of one partition: the higher of the size and the time target, when it is past the
  log start.\<close>

definition clean_target :: "io_env \<Rightarrow> int \<Rightarrow> retention_policy \<Rightarrow> partition \<Rightarrow> int option" where
  "clean_target io now pol p =
     (let by_size = Option.bind (rp_retention_bytes pol) (cleanup_target_for_size_bytes p);
          by_time = Option.bind (rp_retention_ms pol)
            (\<lambda>ms. cleanup_target_for_time io p (max (- (2 ^ 63)) (now - min (int ms) i64_MAX)))
      in case opt_max by_size by_time of
           None \<Rightarrow> None
         | Some target \<Rightarrow> if target \<le> rs_log_start (p_snapshot p) then None else Some target)"

definition clean_partition ::
  "io_env \<Rightarrow> int \<Rightarrow> (partition_config \<Rightarrow> partition_config) option \<Rightarrow> retention_policy \<Rightarrow>
   part_dir \<Rightarrow> partition \<Rightarrow> (storage_error + nat) \<times> part_dir \<times> partition" where
  "clean_partition io now resolve pol d p =
     (let p1 = (case resolve of None \<Rightarrow> p | Some f \<Rightarrow> p\<lparr>p_cfg := f (p_cfg p)\<rparr>) in
      if is_unlimited pol then (Inr 0, d, p1)
      else case clean_target io now pol p1 of
        None \<Rightarrow> (Inr 0, d, p1)
      | Some target \<Rightarrow>
          (case delete_records io d p1 target of
             (Inl e, d2, p2) \<Rightarrow> (Inl e, d2, p2) | (Inr _, d2, p2) \<Rightarrow> (Inr 1, d2, p2)))"

text \<open>One pass over the keys that were open when it began.\<close>

fun clean_keys ::
  "io_env \<Rightarrow> int \<Rightarrow> (string \<Rightarrow> int \<Rightarrow> bool) \<Rightarrow> (string \<Rightarrow> int \<Rightarrow> partition_config \<Rightarrow> partition_config) option \<Rightarrow>
   (string \<Rightarrow> int \<Rightarrow> retention_policy) \<Rightarrow> (string \<times> int) list \<Rightarrow> nat \<Rightarrow> disk_state \<Rightarrow>
   (storage_error + nat) \<times> disk_state" where
  "clean_keys io now owns_partition resolve policy [] cleaned s = (Inr cleaned, s)"
| "clean_keys io now owns_partition resolve policy ((topic, part) # keys) cleaned s =
     (if \<not> owns_partition topic part then clean_keys io now owns_partition resolve policy keys cleaned s
      else case hm_get (en_partitions (fst s)) (topic, part) of
        None \<Rightarrow> clean_keys io now owns_partition resolve policy keys cleaned s
      | Some q \<Rightarrow>
          (case on_open (clean_partition io now (map_option (\<lambda>f. f topic part) resolve) (policy topic part))
                  topic part q s of
             (Inl e, s1) \<Rightarrow> (Inl e, s1)
           | (Inr n, s1) \<Rightarrow> clean_keys io now owns_partition resolve policy keys (cleaned + n) s1))"

definition run_once ::
  "io_env \<Rightarrow> int \<Rightarrow> (string \<Rightarrow> int \<Rightarrow> bool) \<Rightarrow> (string \<Rightarrow> int \<Rightarrow> partition_config \<Rightarrow> partition_config) option \<Rightarrow>
   (string \<Rightarrow> int \<Rightarrow> retention_policy) \<Rightarrow> disk_state \<Rightarrow> (storage_error + nat) \<times> disk_state" where
  "run_once io now owns_partition resolve policy s =
     clean_keys io now owns_partition resolve policy (open_partition_keys (fst s)) 0 s"

section \<open>Operations touch one partition only\<close>

lemma put_dir_get [simp]:
  "vo_parts (put_dir r t p d v) r' t' p' = (if r' = r \<and> t' = t \<and> p' = p then d else vo_parts v r' t' p')"
  "vo_configs (put_dir r t p d v) = vo_configs v" "vo_ids (put_dir r t p d v) = vo_ids v"
  by (auto simp: put_dir_def)

text \<open>What the engine and the volume hold for a partition.\<close>

definition part_view :: "disk_state \<Rightarrow> string \<times> int \<Rightarrow> open_part option \<times> (string \<Rightarrow> part_dir)" where
  "part_view s k = (hm_get (en_partitions (fst s)) k, \<lambda>r. vo_parts (snd s) r (fst k) (snd k))"

lemma part_view_simps [simp]:
  "fst (part_view s k) = hm_get (en_partitions (fst s)) k"
  "snd (part_view s k) r = vo_parts (snd s) r (fst k) (snd k)"
  by (simp_all add: part_view_def)

lemma part_view_eq_iff:
  "part_view s k = part_view s' k \<longleftrightarrow>
     hm_get (en_partitions (fst s)) k = hm_get (en_partitions (fst s')) k \<and>
     (\<forall>r. vo_parts (snd s) r (fst k) (snd k) = vo_parts (snd s') r (fst k) (snd k))"
  by (auto simp: part_view_def fun_eq_iff)

lemma on_open_other:
  assumes "k \<noteq> (t, p)"
  shows "part_view (snd (on_open f t p q s)) k = part_view s k"
    "en_migrating (fst (snd (on_open f t p q s))) = en_migrating (fst s)"
  using assms
  by (cases s; cases k; auto simp: part_view_eq_iff on_open_def update_conv' split: prod.splits)+

lemma on_open_here:
  assumes "f (vo_parts (snd s) (op_root q) t p) (op_part q) = (r, d, p')"
  shows "fst (on_open f t p q s) = r"
    "hm_get (en_partitions (fst (snd (on_open f t p q s)))) (t, p) = Some (q\<lparr>op_part := p'\<rparr>)"
    "vo_parts (snd (snd (on_open f t p q s))) r' t p = (if r' = op_root q then d else vo_parts (snd s) r' t p)"
    "en_migrating (fst (snd (on_open f t p q s))) = en_migrating (fst s)"
    "map fst (en_partitions (fst (snd (on_open f t p q s)))) =
       (if (t, p) \<in> set (map fst (en_partitions (fst s))) then map fst (en_partitions (fst s))
        else map fst (en_partitions (fst s)) @ [(t, p)])"
  using assms by (cases s; auto simp: on_open_def update_conv' update_keys image_iff)+

lemma ensure_open_other:
  assumes "k \<noteq> (t, p)"
  shows "part_view (snd (ensure_open io crc cra rs t p s)) k = part_view s k"
    "en_migrating (fst (snd (ensure_open io crc cra rs t p s))) = en_migrating (fst s)"
  using assms
  by (cases s; cases k; auto simp: part_view_eq_iff ensure_open_def Let_def update_conv'
      split: prod.splits option.splits sum.splits)+

lemma close_open_other:
  assumes "k \<noteq> (t, p)"
  shows "part_view (close_open io t p s) k = part_view s k"
    "en_migrating (fst (close_open io t p s)) = en_migrating (fst s)"
  using assms
  by (cases s; cases k; auto simp: part_view_eq_iff close_open_def Let_def delete_conv'
      split: prod.splits option.splits sum.splits)+

section \<open>Retention\<close>

lemma clean_keys_other:
  "k \<notin> set keys \<or> \<not> owns_partition (fst k) (snd k) \<Longrightarrow>
   part_view (snd (clean_keys io now owns_partition resolve policy keys n s)) k = part_view s k"
proof (induction keys arbitrary: n s)
  case (Cons key keys)
  obtain topic part where key: "key = (topic, part)" by fastforce
  have k: "k \<notin> set keys \<or> \<not> owns_partition (fst k) (snd k)" using Cons.prems by auto
  show ?case
  proof (cases "hm_get (en_partitions (fst s)) (topic, part) = None \<or> \<not> owns_partition topic part")
    case True
    then show ?thesis using Cons.IH [OF k, of n s] by (cases "owns_partition topic part") (simp_all add: key)
  next
    case False
    then obtain q where Some: "hm_get (en_partitions (fst s)) (topic, part) = Some q" "owns_partition topic part"
      by auto
    then have "k \<noteq> (topic, part)" using Cons.prems key by auto
    obtain r s1 where o: "on_open (clean_partition io now (map_option (\<lambda>f. f topic part) resolve)
        (policy topic part)) topic part q s = (r, s1)" by (metis surj_pair)
    have "part_view s1 k = part_view s k"
      using on_open_other(1) [OF \<open>k \<noteq> (topic, part)\<close>] o by (metis snd_conv)
    then show ?thesis using Cons.IH k by (cases r) (simp_all add: key Some o)
  qed
qed simp

lemma clean_keys_at:
  assumes "clean_keys io now owns_partition resolve policy keys n s = (Inr m, s')"
    and "distinct keys" "(t, p) \<in> set keys" "hm_get (en_partitions (fst s)) (t, p) = Some q"
    and "owns_partition t p"
  shows "\<exists>j d' p'. clean_partition io now (map_option (\<lambda>f. f t p) resolve) (policy t p)
      (vo_parts (snd s) (op_root q) t p) (op_part q) = (Inr j, d', p') \<and>
    hm_get (en_partitions (fst s')) (t, p) = Some (q\<lparr>op_part := p'\<rparr>) \<and>
    vo_parts (snd s') (op_root q) t p = d'"
  using assms
proof (induction keys arbitrary: n s)
  case (Cons key keys)
  obtain topic part where key: "key = (topic, part)" by fastforce
  show ?case
  proof (cases "(t, p) = key")
    case True
    let ?c = "clean_partition io now (map_option (\<lambda>f. f t p) resolve) (policy t p)"
    have tp: "topic = t" "part = p" using True key by simp_all
    obtain r d' p' where c: "?c (vo_parts (snd s) (op_root q) t p) (op_part q) = (r, d', p')"
      by (metis surj_pair)
    obtain s1 where o: "on_open ?c t p q s = (r, s1)" using on_open_here(1) [where f = ?c, OF c] by (metis prod.collapse)
    note h = on_open_here(2,3) [where f = ?c, OF c, unfolded o snd_conv]
    obtain j where r: "r = Inr j" using Cons.prems(1,4,5) o by (cases r) (simp_all add: key tp)
    have "clean_keys io now owns_partition resolve policy keys (n + j) s1 = (Inr m, s')"
      using Cons.prems(1,4,5) o r by (simp add: key tp)
    then have "part_view s' (t, p) = part_view s1 (t, p)"
      using clean_keys_other [of "(t, p)" keys] Cons.prems(2) True by (metis distinct.simps(2) snd_conv)
    then show ?thesis using h c r by (auto simp: part_view_eq_iff)
  next
    case False
    then have ks: "(t, p) \<in> set keys" "distinct keys" "(t, p) \<noteq> (topic, part)" using Cons.prems(2,3) key by auto
    show ?thesis
    proof (cases "owns_partition topic part \<and> hm_get (en_partitions (fst s)) (topic, part) \<noteq> None")
      case skip: False
      then have "clean_keys io now owns_partition resolve policy keys n s = (Inr m, s')"
        using Cons.prems(1) by (cases "owns_partition topic part") (simp_all add: key)
      then show ?thesis using Cons.IH ks(1,2) Cons.prems(4,5) by blast
    next
      case True
      then obtain q0 where q0: "owns_partition topic part" "hm_get (en_partitions (fst s)) (topic, part) = Some q0" by blast
      obtain r s1 where o: "on_open (clean_partition io now (map_option (\<lambda>f. f topic part) resolve)
          (policy topic part)) topic part q0 s = (r, s1)" by (metis surj_pair)
      have v: "part_view s1 (t, p) = part_view s (t, p)" using on_open_other(1) [OF ks(3)] o by (metis snd_conv)
      obtain j where r: "r = Inr j" using Cons.prems(1) q0 o by (cases r) (simp_all add: key)
      have "clean_keys io now owns_partition resolve policy keys (n + j) s1 = (Inr m, s')"
        using Cons.prems(1) q0 o r by (simp add: key)
      from Cons.IH [OF this ks(2,1)] show ?thesis using v Cons.prems(4,5) by (simp add: part_view_eq_iff)
    qed
  qed
qed simp

lemma clean_target_cfg [simp]: "clean_target io now pol (p\<lparr>p_cfg := c\<rparr>) = clean_target io now pol p"
  by (simp add: clean_target_def cleanup_target_for_size_bytes_def [abs_def] cleanup_target_for_time_def
      cong: option.case_cong)

lemma clean_partition_reads:
  assumes ok: "log_ok (pd_files d) (p_inner p) bss bs" and sn: "p_snapshot p = snapshot_of (p_inner p)"
    and c: "clean_partition io now resolve pol d p = (Inr j, d', p')"
    and io: "\<not> io_fails io' Open_read"
    and start: "rs_log_start (p_snapshot p') \<le> start" and ls: "0 \<le> rs_log_start (p_snapshot p)"
    and near: "sm_base_offset (as_meta (pi_active (p_inner p))) - start \<le> 2 ^ 31"
  shows "rs_high_water (p_snapshot p') = rs_high_water (p_snapshot p) \<and>
    rs_log_start (p_snapshot p') =
       (case (if is_unlimited pol then None else clean_target io now pol p) of
          None \<Rightarrow> rs_log_start (p_snapshot p) | Some x \<Rightarrow> x) \<and>
    rs_log_start (p_snapshot p) \<le> rs_log_start (p_snapshot p') \<and>
    partition_read io' d' p' start max_bytes = partition_read io' d p start max_bytes"
proof -
  define p1 where "p1 = (case resolve of None \<Rightarrow> p | Some f \<Rightarrow> p\<lparr>p_cfg := f (p_cfg p)\<rparr>)"
  have p1: "p_inner p1 = p_inner p" "p_snapshot p1 = p_snapshot p"
    "clean_target io now pol p1 = clean_target io now pol p"
    by (simp_all add: p1_def split: option.split)
  show ?thesis
  proof (cases "if is_unlimited pol then None else clean_target io now pol p")
    case None
    then have "d' = d" "p' = p1" using c p1(3) by (auto simp: clean_partition_def p1_def [symmetric] split: if_splits)
    then show ?thesis using None p1 by (simp add: partition_read_def)
  next
    case (Some target)
    then have un: "\<not> is_unlimited pol" and ct: "clean_target io now pol p1 = Some target"
      using p1(3) by (simp_all split: if_splits)
    then obtain ns where dr: "delete_records io d p1 target = (Inr ns, d', p')"
      using c by (auto simp: clean_partition_def p1_def [symmetric] split: sum.splits prod.splits)
    have past: "rs_log_start (p_snapshot p) < target"
      using ct p1(2) by (auto simp: clean_target_def Let_def split: option.splits if_splits)
    have ns: "ns = target"
      using dr past p1 sn ls by (auto simp: delete_records_def Let_def snapshot_of_def split: if_splits prod.splits)
    have "rs_log_start (p_snapshot p') = target"
      using dr past p1 sn ls
      by (auto simp: delete_records_def Let_def snapshot_of_def publish_def split: if_splits prod.splits)
    with delete_records_later_reads [OF _ _ dr io, of bss bs start max_bytes]
    have "rs_high_water (p_snapshot p') = pi_high_water (p_inner p)"
      "partition_read io' d' p' start max_bytes = partition_read io' d p1 start max_bytes"
      using ok sn p1 start near by (simp_all add: ns)
    then show ?thesis
      using Some past sn p1 \<open>rs_log_start (p_snapshot p') = target\<close>
      by (simp add: partition_read_def snapshot_of_def)
  qed
qed


section \<open>Fencing\<close>

text \<open>A fence reaches every partition that is open: a batch of an older epoch of that producer is
  refused there and changes nothing.\<close>

lemma hm_get_map_snd: "hm_get (map (\<lambda>(k, x). (k, f x)) m) k = map_option f (hm_get m k)"
  by (induction m) auto

lemma fence_reaches_open:
  assumes "hm_get (en_partitions en) (t, p) = Some q" "(t, p) \<notin> set (en_migrating en)"
    and "parse_batch_producer_info batch = Inr info" "57 \<le> length batch"
    and "0 \<le> bp_producer_id info" "0 \<le> bp_first_seq info" "bp_epoch info < e"
  defines "en' \<equiv> fence_producer_epoch (bp_producer_id info) e en"
  shows "fst (engine_append io crc cra rs t p epoch batch (en', v)) \<in>
      {Inl Stalled, Inl EpochMismatch, Inl InvalidProducerEpoch}"
proof -
  let ?q = "q\<lparr>op_part := fence_producer (op_part q) (bp_producer_id info) e\<rparr>"
  have "hm_get (en_partitions en') (t, p) = Some ?q" "en_migrating en' = en_migrating en"
    using assms(1) by (simp_all add: en'_def fence_producer_epoch_def hm_get_map_snd)
  then have eo: "ensure_open io crc cra rs t p (en', v) = (Inr ?q, (en', v))"
    using assms(2) by (simp add: ensure_open_def)
  have "classify (pi_producer_states (p_inner (op_part ?q))) info = InvalidEpoch"
    using fenced_at_classify [OF fenced_at_fence] assms(5-7) by (simp add: fence_producer_def)
  then have "append io d (op_part ?q) epoch batch = (r, d', p') \<Longrightarrow>
      r \<in> {Inl Stalled, Inl EpochMismatch, Inl InvalidProducerEpoch}" for d r d' p'
    using assms(3,4) by (auto simp: append_def Let_def split: if_splits)
  then show ?thesis by (simp add: engine_append_def eo on_open_def split: prod.splits)
qed

section \<open>Moving a partition\<close>

lemma close_manifest: "pd_manifest d \<noteq> Absent \<Longrightarrow> pd_manifest (fst (snd (close io d p))) \<noteq> Absent"
  by (auto simp: close_def persist_state_locked_def write_unless_superseded_def write_unchecked_def
      checkpoint_write_def Let_def split: prod.splits sum.splits if_splits read_result.splits)

lemma close_files: "pd_files (fst (snd (close io d p))) = pd_files d"
  by (auto simp: close_def persist_state_locked_def write_unless_superseded_def write_unchecked_def
      checkpoint_write_def Let_def split: prod.splits sum.splits if_splits read_result.splits)

datatype engine_op =
    Op_append string int int bytes | Op_take_over string int int | Op_delete_records string int int
  | Op_create string int | Op_relinquish string int | Op_fence int int

text \<open>The calls that may run while a partition is being copied.\<close>

fun engine_apply ::
  "io_env \<Rightarrow> (bytes \<Rightarrow> int) \<Rightarrow> (int \<Rightarrow> bytes \<Rightarrow> int) \<Rightarrow> resolvers \<Rightarrow> disk_state \<Rightarrow> engine_op \<Rightarrow> disk_state" where
  "engine_apply io crc cra rs s (Op_append t p epoch batch) = snd (engine_append io crc cra rs t p epoch batch s)"
| "engine_apply io crc cra rs s (Op_take_over t p epoch) = snd (engine_take_over io crc cra rs t p epoch s)"
| "engine_apply io crc cra rs s (Op_delete_records t p off) = snd (engine_delete_records io crc cra rs t p off s)"
| "engine_apply io crc cra rs s (Op_create t p) = snd (create_partition io crc cra rs t p s)"
| "engine_apply io crc cra rs s (Op_relinquish t p) = engine_relinquish io t p s"
| "engine_apply io crc cra rs s (Op_fence pid e) = (fence_producer_epoch pid e (fst s), snd s)"

text \<open>A partition that is being copied: refused and closed, its directories as they were.\<close>

definition quiesced :: "string \<times> int \<Rightarrow> (string \<Rightarrow> part_dir) \<Rightarrow> disk_state \<Rightarrow> bool" where
  "quiesced k dirs s \<longleftrightarrow> k \<in> set (en_migrating (fst s)) \<and> part_view s k = (None, dirs)"

lemma ensure_open_migrating:
  "(t, p) \<in> set (en_migrating (fst s)) \<Longrightarrow> ensure_open io crc cra rs t p s = (Inl Migrating, s)"
  by (cases s) (simp add: ensure_open_def)

lemma quiesced_ensure:
  assumes "quiesced k dirs s"
  shows "quiesced k dirs (snd (ensure_open io crc cra rs t p s))"
  using assms ensure_open_other [of k t p io crc cra rs s] ensure_open_migrating [of t p s]
  by (cases "k = (t, p)") (auto simp: quiesced_def)

lemma quiesced_then:
  assumes "quiesced k dirs s"
  shows "quiesced k dirs (snd (case ensure_open io crc cra rs t p s of
      (Inl e, s1) \<Rightarrow> (Inl e, s1) | (Inr q, s1) \<Rightarrow> on_open f t p q s1))"
proof -
  obtain r s1 where e: "ensure_open io crc cra rs t p s = (r, s1)" by (metis surj_pair)
  have q1: "quiesced k dirs s1" using quiesced_ensure [OF assms] e by (metis snd_conv)
  show ?thesis
  proof (cases r)
    case (Inl x)
    then show ?thesis using q1 by (simp add: e)
  next
    case (Inr q)
    then have "k \<noteq> (t, p)" using ensure_open_migrating [of t p s io crc cra rs] assms e by (auto simp: quiesced_def)
    then show ?thesis using q1 on_open_other [of k t p f q s1] Inr by (simp add: e quiesced_def)
  qed
qed

lemma quiesced_apply: "quiesced k dirs s \<Longrightarrow> quiesced k dirs (engine_apply io crc cra rs s x)"
proof (induction io crc cra rs s x rule: engine_apply.induct)
  case (4 io crc cra rs s t p)
  then show ?case using quiesced_ensure [of k dirs s io crc cra rs t p]
    by (auto simp: create_partition_def split: prod.splits sum.splits)
next
  case (5 io crc cra rs s t p)
  then show ?case using close_open_other [of k t p io s]
    by (cases "k = (t, p)") (auto simp: quiesced_def engine_relinquish_def close_open_def part_view_def split: prod.splits)
next
  case (6 io crc cra rs s pid e)
  then show ?case by (auto simp: quiesced_def part_view_def fence_producer_epoch_def hm_get_map_snd)
qed (simp_all add: engine_append_def engine_take_over_def engine_delete_records_def quiesced_then)

lemma quiesced_run: "quiesced k dirs s \<Longrightarrow> quiesced k dirs (foldl (engine_apply io crc cra rs) s xs)"
  by (induction xs arbitrary: s) (simp_all add: quiesced_apply)

lemma close_open_here:
  assumes "hm_get (en_partitions (fst s)) (t, p) = Some q"
  shows "part_view (close_open io t p s) (t, p) =
      (None, (snd (part_view s (t, p)))
        (op_root q := fst (snd (close io (vo_parts (snd s) (op_root q) t p) (op_part q)))))"
    "en_migrating (fst (close_open io t p s)) = en_migrating (fst s)"
  using assms
  by (cases s; auto simp: close_open_def part_view_def fun_eq_iff delete_conv' split: prod.splits)+


section \<open>Limits of the code\<close>

text \<open>The cleaner re-resolves a partition's settings on top of the settings it already has, not on top
  of the engine's defaults: an override that is removed from the topic's config stays in force until
  the partition is reopened.\<close>

lemma removed_override_sticks:
  assumes "policy_read io rs s t p = None"
  shows "topic_partition_config io rs s t p (apply_to_partition_config c (en_cfg (fst s))) =
      apply_to_partition_config c (en_cfg (fst s))"
    "partition_config_for io rs s t p = en_cfg (fst s)"
  using assms
  by (auto simp: topic_partition_config_def policy_read_def partition_config_for_def
      split: prod.splits sum.splits option.splits)

section \<open>Examples\<close>

definition no_resolvers :: resolvers where
  "no_resolvers = \<lparr>rs_log_dir_of = (\<lambda>_ _. None), rs_incarnation_of = (\<lambda>_. Unknown)\<rparr>"

definition on_fast :: resolvers where
  "on_fast = \<lparr>rs_log_dir_of = (\<lambda>_ _. Some ''fast''), rs_incarnation_of = (\<lambda>_. Unknown)\<rparr>"

definition demo_engine :: engine where
  "demo_engine = with_extra_log_dirs
     [\<lparr>ld_name = ''fast'', ld_path = ''/vols/fast'', ld_default_eligible = True, ld_cordoned = False, ld_labels = []\<rparr>]
     ((new_engine ''/data'' demo_cfg)\<lparr>en_partitions :=
        [((''t'', 0), \<lparr>op_root = ''/data'', op_part = demo_part\<rparr>)]\<rparr>)"

definition demo_volume :: volume where
  "demo_volume =
     \<lparr>vo_parts = (\<lambda>r t p. if r = ''/data'' \<and> t = ''t'' \<and> p = 0
        then demo_part_dir\<lparr>pd_manifest := Json \<lparr>mf_epoch = 0, mf_high_watermark = 0, mf_log_start_offset = 0\<rparr>\<rparr>
        else empty_dir),
      vo_configs = (\<lambda>_ _. Absent), vo_ids = (\<lambda>_ _. Absent)\<rparr>"

definition demo_disk :: disk_state where
  "demo_disk = (demo_engine, demo_volume)"

definition rolled_disk :: disk_state where
  "rolled_disk = (demo_engine\<lparr>en_partitions := [((''t'', 0), \<lparr>op_root = ''/data'', op_part = rolled_part\<rparr>)]\<rparr>,
     put_dir ''/data'' ''t'' 0 (demo_part_dir\<lparr>pd_files := rolled_files\<rparr>) demo_volume)"

definition demo_during :: "disk_state \<Rightarrow> disk_state" where
  "demo_during s = foldl (engine_apply healthy_io (\<lambda>_. 0) (\<lambda>_ _. 0) no_resolvers) s
     [Op_append ''t'' 0 0 (demo_batch 0 0), Op_relinquish ''t'' 0]"

definition demo_moved :: disk_state where
  "demo_moved = snd (move_finish healthy_io empty_dir ''t'' 0 ''/data'' ''/vols/fast''
     (demo_during (snd (move_begin healthy_io no_resolvers ''t'' 0 ''fast'' demo_disk))))"



end
