(* ===== verification/LogDirMove.thy ===== *)
theory LogDirMove
  imports DiskEngine Assignment
begin

text \<open>
  The topic registry (\<open>crates/kaas-broker/src/topic_registry.rs\<close>), which is the placement and the
  identity source of the storage engine, and the move of a partition to another log dir
  (\<open>migrate_partition\<close> of \<open>handlers/alter_replica_log_dirs.rs\<close>): engine move, flip of the durable
  placement record with rollback, update of the registry, reclaim of the source.
\<close>

section \<open>The topic registry\<close>

record topic_meta =
  tm_name :: string
  tm_partition_count :: int
  tm_topic_id :: bytes

record topic_registry =
  tr_inner :: "(string, topic_meta) hash_map"
  tr_volume_assignments :: "(string, (string, string) hash_map) hash_map"
  tr_topic_ids :: "(string, string) hash_map"
  tr_synced :: bool

definition new_registry :: topic_registry where
  "new_registry = \<lparr>tr_inner = [], tr_volume_assignments = [], tr_topic_ids = [], tr_synced = False\<rparr>"

text \<open>The seed entries are the parsed \<open>KAAS_TOPICS\<close> list; the error names the offending topic.\<close>

fun seed_topics :: "(string \<times> int) list \<Rightarrow> (string, topic_meta) hash_map \<Rightarrow> string + (string, topic_meta) hash_map" where
  "seed_topics [] m = Inr m"
| "seed_topics ((name, partitions) # es) m =
     (if partitions \<le> 0 then Inl name
      else seed_topics es (hm_insert name
        \<lparr>tm_name = name, tm_partition_count = partitions, tm_topic_id = replicate 16 0\<rparr> m))"

definition registry_from_seed :: "(string \<times> int) list \<Rightarrow> string + topic_registry" where
  "registry_from_seed es =
     (case seed_topics es [] of Inl name \<Rightarrow> Inl name | Inr m \<Rightarrow> Inr (new_registry\<lparr>tr_inner := m\<rparr>))"

definition registry_get :: "topic_registry \<Rightarrow> string \<Rightarrow> topic_meta option" where
  "registry_get r name = hm_get (tr_inner r) name"

definition registry_insert :: "topic_meta \<Rightarrow> topic_registry \<Rightarrow> topic_registry" where
  "registry_insert m r = r\<lparr>tr_inner := hm_insert (tm_name m) m (tr_inner r)\<rparr>"

definition registry_remove :: "string \<Rightarrow> topic_registry \<Rightarrow> topic_registry" where
  "registry_remove name r =
     r\<lparr>tr_inner := hm_remove name (tr_inner r),
       tr_volume_assignments := hm_remove name (tr_volume_assignments r),
       tr_topic_ids := hm_remove name (tr_topic_ids r)\<rparr>"

definition set_volume_assignments :: "string \<Rightarrow> (string, string) hash_map \<Rightarrow> topic_registry \<Rightarrow> topic_registry" where
  "set_volume_assignments topic m r =
     r\<lparr>tr_volume_assignments :=
       if m = [] then hm_remove topic (tr_volume_assignments r)
       else hm_insert topic m (tr_volume_assignments r)\<rparr>"

definition set_volume_assignment :: "string \<Rightarrow> int \<Rightarrow> string \<Rightarrow> topic_registry \<Rightarrow> topic_registry" where
  "set_volume_assignment topic part log_dir r =
     (let m = (case hm_get (tr_volume_assignments r) topic of Some m \<Rightarrow> m | None \<Rightarrow> [])
      in r\<lparr>tr_volume_assignments :=
             hm_insert topic (hm_insert (fmt_int part) log_dir m) (tr_volume_assignments r)\<rparr>)"

definition volume_assignment :: "topic_registry \<Rightarrow> string \<Rightarrow> int \<Rightarrow> string option" where
  "volume_assignment r topic part =
     Option.bind (hm_get (tr_volume_assignments r) topic) (\<lambda>m. hm_get m (fmt_int part))"

definition set_topic_id :: "string \<Rightarrow> string option \<Rightarrow> topic_registry \<Rightarrow> topic_registry" where
  "set_topic_id topic i r =
     r\<lparr>tr_topic_ids := hm_insert topic (case i of Some x \<Rightarrow> x | None \<Rightarrow> []) (tr_topic_ids r)\<rparr>"

definition mark_synced :: "topic_registry \<Rightarrow> topic_registry" where
  "mark_synced r = r\<lparr>tr_synced := True\<rparr>"

definition incarnation :: "topic_registry \<Rightarrow> string \<Rightarrow> topic_incarnation" where
  "incarnation r topic =
     (case hm_get (tr_topic_ids r) topic of
        None \<Rightarrow> if tr_synced r then Pending else Unknown
      | Some i \<Rightarrow> if i = [] then Pending else Known i)"

definition registry_resolvers :: "topic_registry \<Rightarrow> resolvers" where
  "registry_resolvers r = \<lparr>rs_log_dir_of = volume_assignment r, rs_incarnation_of = incarnation r\<rparr>"

section \<open>Migrating a partition\<close>

definition remove_partition_dir :: "io_env \<Rightarrow> string \<Rightarrow> string \<Rightarrow> int \<Rightarrow> disk_state \<Rightarrow> disk_state" where
  "remove_partition_dir io root topic part s =
     (if io_fails io Remove_dir then s else (fst s, put_dir root topic part empty_dir (snd s)))"

text \<open>\<open>owns_part\<close> is the coordinator's answer (true without a coordinator); \<open>flip\<close> is the outcome of the
  placement-record write, \<open>None\<close> when there is no record writer.\<close>

definition migrate_partition ::
  "io_env \<Rightarrow> part_dir \<Rightarrow> bool \<Rightarrow> bool option \<Rightarrow> string \<Rightarrow> int \<Rightarrow> string \<Rightarrow> topic_registry \<times> disk_state \<Rightarrow>
   int \<times> topic_registry \<times> disk_state" where
  "migrate_partition io partial owns_part flip topic part log_dir rs =
     (let (r, s) = rs in
      if registry_get r topic = None then (3, r, s)
      else if \<not> owns_part then (9, r, s)
      else case move_partition_to_log_dir io partial (registry_resolvers r) topic part log_dir s of
        (Inl UnknownTopicOrPartition, s1) \<Rightarrow> (3, r, s1)
      | (Inl Unsupported, s1) \<Rightarrow> (57, r, s1)
      | (Inl _, s1) \<Rightarrow> (56, r, s1)
      | (Inr src, s1) \<Rightarrow>
          if flip = Some False then
            (56, r, (case find (\<lambda>d. ld_name d = log_dir) (log_dirs (fst s1)) of
                       Some d \<Rightarrow> remove_partition_dir io (ld_path d) topic part s1 | None \<Rightarrow> s1))
          else (0, set_volume_assignment topic part log_dir r, remove_partition_dir io src topic part s1))"

section \<open>Data and placement record agree\<close>

lemma volume_assignment_set:
  "volume_assignment (set_volume_assignment t p d r) t' p' =
     (if t' = t \<and> p' = p then Some d else volume_assignment r t' p')"
  by (auto simp: volume_assignment_def set_volume_assignment_def Let_def update_conv' split: option.split)

lemma incarnation_set_volume [simp]: "incarnation (set_volume_assignment t p d r) = incarnation r"
  by (rule ext) (simp add: incarnation_def set_volume_assignment_def Let_def)

text \<open>The registry answers \<open>Unknown\<close>, on which the engine adopts what is on disk, only before the
  first full list of topics.\<close>

lemma synced_never_unknown: "incarnation (mark_synced r) t \<noteq> Unknown"
  by (simp add: incarnation_def mark_synced_def split: option.split)

lemma find_hit: "find P xs = Some x \<Longrightarrow> x \<in> set xs \<and> P x"
  by (induction xs) (auto split: if_splits)

lemma find_mono: "find P xs = Some x \<Longrightarrow> (\<And>y. Q y \<Longrightarrow> P y) \<Longrightarrow> Q x \<Longrightarrow> find Q xs = Some x"
  by (induction xs) (auto split: if_splits)

lemma partition_root_kept:
  assumes "partition_root io rs (en, v) t p = root" "has_manifest io v' t p root"
    and "\<And>r. has_manifest io v' t p r \<Longrightarrow> has_manifest io v t p r"
    and "en_data_dir en' = en_data_dir en" "en_extra_log_dirs en' = en_extra_log_dirs en"
  shows "partition_root io rs (en', v') t p = root"
proof -
  have lr: "log_dir_root rs en' t p = log_dir_root rs en t p" using assms(4,5) by (simp add: log_dir_root_def cong: option.case_cong)
  show ?thesis
  proof (cases "has_manifest io v t p (log_dir_root rs en t p)")
    case True
    then show ?thesis using assms(1,2) lr by (simp add: partition_root_def)
  next
    case False
    let ?a = "log_dir_root rs en t p"
    define xs where "xs = filter (\<lambda>r. r \<noteq> ?a) (en_data_dir en # map ld_path (en_extra_log_dirs en))"
    have old: "root = (case find (has_manifest io v t p) xs of Some x \<Rightarrow> x | None \<Rightarrow> ?a)"
      using assms(1) False unfolding partition_root_def Let_def prod.case xs_def by simp
    have "find (has_manifest io v t p) xs = Some root"
      using old False assms(3) [OF assms(2)] by (cases "find (has_manifest io v t p) xs") auto
    then have "find (has_manifest io v' t p) xs = Some root" 
      by (rule find_mono [where P = "has_manifest io v t p"]) (use assms(2,3) in auto)
    then show ?thesis
      using False assms(3) unfolding partition_root_def Let_def prod.case lr assms(4,5) xs_def by auto
  qed
qed

lemma move_whole:
  assumes "\<forall>c. \<not> io_fails io c" "hm_get (en_partitions (fst s)) (t, p) = Some q"
    and "op_root q = partition_root io rs s t p" "move_target (fst s) log_dir = Some dst" "dst \<noteq> op_root q"
    and "(t, p) \<notin> set (en_migrating (fst s))"
  defines "d \<equiv> fst (snd (close io (vo_parts (snd s) (op_root q) t p) (op_part q)))"
  shows "\<exists>en'. move_partition_to_log_dir io partial rs t p log_dir s =
      (Inr (op_root q), (en', put_dir dst t p d (put_dir (op_root q) t p d (snd s)))) \<and>
    en_data_dir en' = en_data_dir (fst s) \<and> en_extra_log_dirs en' = en_extra_log_dirs (fst s)"
proof -
  obtain r1 d1 p1 where c: "close io (vo_parts (snd s) (op_root q) t p) (op_part q) = (r1, d1, p1)"
    by (metis surj_pair)
  then have "d = d1" by (simp add: d_def)
  then show ?thesis
    using assms c
    by (simp add: move_partition_to_log_dir_def move_begin_def Let_def close_open_def move_finish_def
        copy_dir_fresh_def split_beta)
qed


text \<open>A partition asked to move to the log dir it already lives in is deleted: the engine answers its
  own directory as the source, and the source is reclaimed.\<close>

definition demo_registry :: topic_registry where
  "demo_registry = registry_insert \<lparr>tm_name = ''t'', tm_partition_count = 1, tm_topic_id = replicate 16 0\<rparr> new_registry"

lemma migrate_to_own_dir_deletes:
  "fst (migrate_partition healthy_io empty_dir True None ''t'' 0 ''default'' (demo_registry, demo_disk)) = 0"
  "pd_files (vo_parts (snd demo_disk) ''/data'' ''t'' 0) \<noteq> []"
  "pd_files (vo_parts (snd (snd (snd (migrate_partition healthy_io empty_dir True None ''t'' 0 ''default''
     (demo_registry, demo_disk))))) ''/data'' ''t'' 0) = []"
  by code_simp+


end
