(* ===== verification/MemoryEngine.thy ===== *)
theory MemoryEngine
  imports DiskEngine
begin

text \<open>
  The in-memory storage engine (\<open>crates/kaas-storage/src/memory.rs\<close>) and its equivalence with the
  disk engine: driven with the same calls, both give the same answers. The memory engine keeps a
  partition as a plain list of batches, which makes it the reference the disk engine's segments,
  indexes, rolls and deletions are measured against.
\<close>

section \<open>State\<close>

record memory_batch =
  mb_base_offset :: int
  mb_last_offset_delta :: int
  mb_raw :: bytes

record memory_partition =
  mp_batches :: "memory_batch list"
  mp_high_water :: int
  mp_log_start :: int

type_synonym memory_storage = "(string \<times> int, memory_partition) hash_map"

definition empty_partition :: memory_partition where
  "empty_partition = \<lparr>mp_batches = [], mp_high_water = 0, mp_log_start = 0\<rparr>"

section \<open>Operations\<close>

definition memory_ensure :: "string \<Rightarrow> int \<Rightarrow> memory_storage \<Rightarrow> memory_partition" where
  "memory_ensure topic part s =
     (case hm_get s (topic, part) of Some m \<Rightarrow> m | None \<Rightarrow> empty_partition)"

definition memory_high_watermark :: "string \<Rightarrow> int \<Rightarrow> memory_storage \<Rightarrow> int" where
  "memory_high_watermark topic part s =
     (case hm_get s (topic, part) of Some m \<Rightarrow> mp_high_water m | None \<Rightarrow> 0)"

definition memory_log_start_offset :: "string \<Rightarrow> int \<Rightarrow> memory_storage \<Rightarrow> int" where
  "memory_log_start_offset topic part s =
     (case hm_get s (topic, part) of Some m \<Rightarrow> mp_log_start m | None \<Rightarrow> 0)"

definition memory_append ::
  "string \<Rightarrow> int \<Rightarrow> bytes \<Rightarrow> memory_storage \<Rightarrow> (storage_error + int) \<times> memory_storage" where
  "memory_append topic part batch s =
     (if batch = [] then (Inr (memory_high_watermark topic part s), s)
      else if length batch < 27 then (Inl (StorageIo Invalid_data), s)
      else
        let m = memory_ensure topic part s; assigned = mp_high_water m;
            owned = rebase assigned batch;
            last_offset_delta = be_i32 (slice 23 27 owned)
        in (Inr assigned,
            hm_insert (topic, part)
              \<lparr>mp_batches = mp_batches m @
                 [\<lparr>mb_base_offset = assigned, mb_last_offset_delta = last_offset_delta, mb_raw = owned\<rparr>],
               mp_high_water = assigned + last_offset_delta + 1, mp_log_start = mp_log_start m\<rparr> s))"

fun memory_read_loop :: "int \<Rightarrow> int \<Rightarrow> nat \<Rightarrow> memory_batch list \<Rightarrow> bytes \<Rightarrow> bytes" where
  "memory_read_loop start_offset log_start max_bytes [] out = out"
| "memory_read_loop start_offset log_start max_bytes (b # bs) out =
     (if mb_base_offset b + mb_last_offset_delta b < start_offset
      then memory_read_loop start_offset log_start max_bytes bs out
      else if mb_base_offset b + mb_last_offset_delta b < log_start
      then memory_read_loop start_offset log_start max_bytes bs out
      else if max_bytes \<le> length (out @ mb_raw b) then out @ mb_raw b
      else memory_read_loop start_offset log_start max_bytes bs (out @ mb_raw b))"

definition memory_read :: "string \<Rightarrow> int \<Rightarrow> int \<Rightarrow> nat \<Rightarrow> memory_storage \<Rightarrow> bytes" where
  "memory_read topic part start_offset max_bytes s =
     (case hm_get s (topic, part) of
        None \<Rightarrow> []
      | Some m \<Rightarrow> memory_read_loop start_offset (mp_log_start m) max_bytes (mp_batches m) [])"

definition memory_delete_records ::
  "string \<Rightarrow> int \<Rightarrow> int \<Rightarrow> memory_storage \<Rightarrow> (storage_error + int) \<times> memory_storage" where
  "memory_delete_records topic part target_offset s =
     (let m = memory_ensure topic part s in
      if 0 \<le> target_offset \<and> mp_high_water m < target_offset
      then (Inl OffsetOutOfRange, hm_insert (topic, part) m s)
      else
        let new_start = (if target_offset < 0 then mp_high_water m else target_offset);
            m' = (if mp_log_start m < new_start then m\<lparr>mp_log_start := new_start\<rparr> else m)
        in (Inr (mp_log_start m'), hm_insert (topic, part) m' s))"

definition memory_create_partition :: "string \<Rightarrow> int \<Rightarrow> memory_storage \<Rightarrow> memory_storage" where
  "memory_create_partition topic part s = hm_insert (topic, part) (memory_ensure topic part s) s"

definition memory_delete_partition :: "string \<Rightarrow> int \<Rightarrow> memory_storage \<Rightarrow> memory_storage" where
  "memory_delete_partition topic part s = hm_remove (topic, part) s"

definition memory_abandon_topic :: "string \<Rightarrow> memory_storage \<Rightarrow> nat \<times> memory_storage" where
  "memory_abandon_topic topic s =
     (length (filter (\<lambda>k. fst k = topic) (map fst s)), filter (\<lambda>(k, m). fst k \<noteq> topic) s)"

definition memory_take_over :: "string \<Rightarrow> int \<Rightarrow> memory_storage \<Rightarrow> int \<times> memory_storage" where
  "memory_take_over topic part s =
     (let s' = memory_create_partition topic part s in (memory_high_watermark topic part s', s'))"

section \<open>Running two systems in lockstep\<close>

fun run_calls :: "('c \<Rightarrow> 's \<Rightarrow> 'r \<times> 's) \<Rightarrow> 'c list \<Rightarrow> 's \<Rightarrow> 'r list \<times> 's" where
  "run_calls f [] s = ([], s)"
| "run_calls f (c # cs) s = (case f c s of (r, s1) \<Rightarrow> (case run_calls f cs s1 of (rs, s2) \<Rightarrow> (r # rs, s2)))"

text \<open>Two systems that answer each call alike and stay related. The relation is given the calls still
  to come, so that it can carry a budget.\<close>

locale lockstep =
  fixes call1 :: "'c \<Rightarrow> 's \<Rightarrow> 'r \<times> 's" and call2 :: "'c \<Rightarrow> 't \<Rightarrow> 'r \<times> 't"
    and related :: "'c list \<Rightarrow> 's \<Rightarrow> 't \<Rightarrow> bool"
  assumes call_alike: "related (c # cs) s t \<Longrightarrow>
    fst (call1 c s) = fst (call2 c t) \<and> related cs (snd (call1 c s)) (snd (call2 c t))"
begin

lemma run_alike: "related cs s t \<Longrightarrow> fst (run_calls call1 cs s) = fst (run_calls call2 cs t)"
proof (induction cs arbitrary: s t)
  case (Cons c cs)
  then show ?case using call_alike [OF Cons.prems] by (auto split: prod.splits) (metis fst_conv)
qed simp

end

section \<open>The same calls on both engines\<close>

datatype storage_call =
    Call_append string int int bytes
  | Call_delete_records string int int
  | Call_take_over string int int
  | Call_create string int
  | Call_delete_partition string int
  | Call_read string int int nat
  | Call_high_watermark string int
  | Call_log_start string int

datatype storage_reply = Reply_offset "storage_error + int" | Reply_bytes "storage_error + bytes" | Reply_done

text \<open>Each call comes with the environment it runs in (its clock); the memory engine has no use for it.\<close>

fun disk_call ::
  "(bytes \<Rightarrow> int) \<Rightarrow> (int \<Rightarrow> bytes \<Rightarrow> int) \<Rightarrow> resolvers \<Rightarrow> io_env \<times> storage_call \<Rightarrow> disk_state \<Rightarrow>
   storage_reply \<times> disk_state" where
  "disk_call crc cra rs (io, Call_append t p epoch batch) s =
     (case engine_append io crc cra rs t p epoch batch s of
        (r, s') \<Rightarrow> (Reply_offset (map_sum id fst r), s'))"
| "disk_call crc cra rs (io, Call_delete_records t p off) s =
     (case engine_delete_records io crc cra rs t p off s of (r, s') \<Rightarrow> (Reply_offset r, s'))"
| "disk_call crc cra rs (io, Call_take_over t p epoch) s =
     (case engine_take_over io crc cra rs t p epoch s of (r, s') \<Rightarrow> (Reply_offset r, s'))"
| "disk_call crc cra rs (io, Call_create t p) s =
     (case create_partition io crc cra rs t p s of (r, s') \<Rightarrow> (Reply_offset (map_sum id (\<lambda>_. 0) r), s'))"
| "disk_call crc cra rs (io, Call_delete_partition t p) s = (Reply_done, delete_partition io rs t p s)"
| "disk_call crc cra rs (io, Call_read t p start mx) s = (Reply_bytes (engine_read io t p start mx s), s)"
| "disk_call crc cra rs (io, Call_high_watermark t p) s = (Reply_offset (Inr (engine_high_watermark t p s)), s)"
| "disk_call crc cra rs (io, Call_log_start t p) s = (Reply_offset (Inr (engine_log_start_offset t p s)), s)"

text \<open>The memory engine answers a read in whole batches and may run past \<open>max_bytes\<close>; the disk engine
  cuts there, and so does this comparison.\<close>

fun memory_call :: "io_env \<times> storage_call \<Rightarrow> memory_storage \<Rightarrow> storage_reply \<times> memory_storage" where
  "memory_call (io, Call_append t p epoch batch) s =
     (case memory_append t p batch s of (r, s') \<Rightarrow> (Reply_offset r, s'))"
| "memory_call (io, Call_delete_records t p off) s =
     (case memory_delete_records t p off s of (r, s') \<Rightarrow> (Reply_offset r, s'))"
| "memory_call (io, Call_take_over t p epoch) s =
     (case memory_take_over t p s of (r, s') \<Rightarrow> (Reply_offset (Inr r), s'))"
| "memory_call (io, Call_create t p) s = (Reply_offset (Inr 0), memory_create_partition t p s)"
| "memory_call (io, Call_delete_partition t p) s = (Reply_done, memory_delete_partition t p s)"
| "memory_call (io, Call_read t p start mx) s = (Reply_bytes (Inr (take mx (memory_read t p start mx s))), s)"
| "memory_call (io, Call_high_watermark t p) s = (Reply_offset (Inr (memory_high_watermark t p s)), s)"
| "memory_call (io, Call_log_start t p) s = (Reply_offset (Inr (memory_log_start_offset t p s)), s)"

text \<open>A batch without idempotence (the memory engine keeps no producer state): a framed v2 batch of
  at least one record from producer -1.\<close>

definition plain_batch :: "bytes \<Rightarrow> bool" where
  "plain_batch b \<longleftrightarrow> framed b \<and> 57 \<le> length b \<and> 0 \<le> batch_delta b \<and> be_i64 (slice 43 51 b) < 0"

text \<open>The memory engine has no epochs either: appends come from the latest leader, \<open>e\<close> or newer.\<close>

fun call_ok :: "int \<Rightarrow> io_env \<times> storage_call \<Rightarrow> bool" where
  "call_ok e (io, Call_append t p epoch b) \<longleftrightarrow> (\<forall>c. \<not> io_fails io c) \<and> e \<le> epoch \<and> plain_batch b"
| "call_ok e (io, Call_take_over t p epoch) \<longleftrightarrow> (\<forall>c. \<not> io_fails io c) \<and> epoch \<le> e"
| "call_ok e (io, _) \<longleftrightarrow> (\<forall>c. \<not> io_fails io c)"

fun call_records :: "io_env \<times> storage_call \<Rightarrow> int" where
  "call_records (io, Call_append t p epoch b) = batch_delta b + 1"
| "call_records _ = 0"

fun call_bytes :: "io_env \<times> storage_call \<Rightarrow> int" where
  "call_bytes (io, Call_append t p epoch b) = int (length b)"
| "call_bytes _ = 0"

definition records_of :: "(io_env \<times> storage_call) list \<Rightarrow> int" where
  "records_of cs = sum_list (map call_records cs)"

definition bytes_of :: "(io_env \<times> storage_call) list \<Rightarrow> int" where
  "bytes_of cs = sum_list (map call_bytes cs)"

section \<open>Reading a list of batches\<close>

lemma memory_read_loop_filter:
  assumes "\<forall>b \<in> set bs. batch_last (mb_raw b) = mb_base_offset b + mb_last_offset_delta b"
    and "length out < mx \<or> out = []"
  shows "take mx (memory_read_loop start log_start mx bs out) =
    take mx (out @ concat (filter (\<lambda>b. max start log_start \<le> batch_last b) (map mb_raw bs)))"
  using assms
proof (induction bs arbitrary: out)
  case (Cons b bs)
  have last: "batch_last (mb_raw b) = mb_base_offset b + mb_last_offset_delta b" using Cons.prems(1) by simp
  show ?case
  proof (cases "max start log_start \<le> batch_last (mb_raw b)")
    case True
    then have ge: "\<not> mb_base_offset b + mb_last_offset_delta b < start"
      "\<not> mb_base_offset b + mb_last_offset_delta b < log_start" using last by simp_all
    show ?thesis
    proof (cases "mx \<le> length (out @ mb_raw b)")
      case full: True
      then have "take mx (out @ mb_raw b @ zs) = take mx (out @ mb_raw b)" for zs
        by (subst append_assoc [symmetric]) (simp only: take_append, simp)
      then show ?thesis using True ge full by simp
    next
      case False
      then have "take mx (memory_read_loop start log_start mx bs (out @ mb_raw b)) =
          take mx ((out @ mb_raw b) @ concat (filter (\<lambda>b. max start log_start \<le> batch_last b) (map mb_raw bs)))"
        using Cons.IH [of "out @ mb_raw b"] Cons.prems(1) by simp
      then show ?thesis using True ge False by simp
    qed
  next
    case False
    then have "mb_base_offset b + mb_last_offset_delta b < start \<or>
        mb_base_offset b + mb_last_offset_delta b < log_start" using last by auto
    then have "memory_read_loop start log_start mx (b # bs) out = memory_read_loop start log_start mx bs out"
      by auto
    then have "take mx (memory_read_loop start log_start mx (b # bs) out) =
        take mx (out @ concat (filter (\<lambda>b. max start log_start \<le> batch_last b) (map mb_raw bs)))"
      using Cons.IH [of out] Cons.prems by simp
    then show ?thesis using False by (simp only: list.map filter.simps if_False)
  qed
qed simp

section \<open>Every call succeeds on a working disk\<close>

lemma append_batch_total:
  assumes "\<forall>c. \<not> io_fails io c" "active_holds fs seg bs" "43 \<le> length raw"
    and "in_i32 (batch_base raw - sm_base_offset (as_meta seg))" "int (as_log_size seg) \<le> u32_MAX"
  shows "\<exists>seg' fs'. append_batch io fs seg raw n = (Inr seg', fs') \<and>
    as_log_size seg' \<le> as_log_size seg + length raw"
  using assms
  by (auto simp: append_batch_def parse_batch_offsets_def batch_base_def Let_def active_holds_def sat_u64_def
      split: option.splits)

lemma append_roll_total:
  assumes "\<forall>c. \<not> io_fails io c"
  shows "\<exists>dir' g'. append_roll io dir cfg g n = (Inr (), dir', g') \<and> pi_epoch g' = pi_epoch g \<and>
    pi_flush_err g' = pi_flush_err g \<and> pi_log_start g' = pi_log_start g"
proof -
  obtain due a where d: "roll_due io cfg (pi_active g) n = (due, a)" by (metis surj_pair)
  show ?thesis
    by (cases due) (use assms in \<open>simp_all add: append_roll_def d roll_fast_def create_segment_def Let_def\<close>)
qed

text \<open>A partition of the disk engine and one of the memory engine that hold the same log, with \<open>r\<close>
  records and \<open>n\<close> bytes still to come.\<close>

definition same_part ::
  "int \<Rightarrow> int \<Rightarrow> int \<Rightarrow> partition \<Rightarrow> part_dir \<Rightarrow> memory_partition \<Rightarrow> bool" where
  "same_part e r n p d m \<longleftrightarrow>
     (\<exists>bss bs. log_ok (pd_files d) (p_inner p) bss bs \<and>
        filter (\<lambda>b. mp_log_start m \<le> batch_last b) (concat bss @ bs) =
        filter (\<lambda>b. mp_log_start m \<le> batch_last b) (map mb_raw (mp_batches m))) \<and>
     (\<forall>b \<in> set (mp_batches m). batch_last (mb_raw b) = mb_base_offset b + mb_last_offset_delta b) \<and>
     p_snapshot p = snapshot_of (p_inner p) \<and> pi_flush_err (p_inner p) = None \<and>
     0 \<le> pi_epoch (p_inner p) \<and> pi_epoch (p_inner p) \<le> e \<and> e \<le> u32_MAX \<and>
     pi_high_water (p_inner p) = mp_high_water m \<and> pi_log_start (p_inner p) = mp_log_start m \<and>
     0 \<le> mp_log_start m \<and> mp_high_water m + r < 2 ^ 31 \<and>
     int (as_log_size (pi_active (p_inner p))) + n \<le> u32_MAX \<and> 0 \<le> r \<and> 0 \<le> n"

lemma append_write_total:
  assumes io: "\<forall>c. \<not> io_fails io c" and ok: "log_ok (pd_files dir) (p_inner p) bss bs"
    and ep: "0 \<le> pi_epoch (p_inner p)" "pi_epoch (p_inner p) \<le> u32_MAX"
    and b: "framed batch" "57 \<le> length batch"
    and small: "pi_high_water (p_inner p) < 2 ^ 31" "int (as_log_size (pi_active (p_inner p))) \<le> u32_MAX"
  shows "\<exists>assigned rest dir' p'. append_write io dir p batch i = (Inr (assigned, rest), dir', p') \<and>
    pi_epoch (p_inner p') = pi_epoch (p_inner p) \<and> pi_flush_err (p_inner p') = pi_flush_err (p_inner p) \<and>
    pi_log_start (p_inner p') = pi_log_start (p_inner p) \<and>
    as_log_size (pi_active (p_inner p')) \<le> as_log_size (pi_active (p_inner p)) + length batch"
proof -
  from append_roll_total [OF io, of dir "p_cfg p" "p_inner p" "length batch"] obtain dir1 g1
    where roll: "append_roll io dir (p_cfg p) (p_inner p) (length batch) = (Inr (), dir1, g1)"
      and g1: "pi_epoch g1 = pi_epoch (p_inner p)" "pi_flush_err g1 = pi_flush_err (p_inner p)"
        "pi_log_start g1 = pi_log_start (p_inner p)" by blast
  note rolled = append_roll_log_ok [OF ok ep roll]
  obtain bss1 bs1 where ok1: "log_ok (pd_files dir1) g1 bss1 bs1" using rolled(1) by blast
  let ?owned = "rebase (pi_high_water g1) batch"
  note base = log_ok_active_base [OF ok1]
  have f: "batch_base ?owned = pi_high_water g1" "length ?owned = length batch"
    using rebase_fields [of batch "pi_high_water g1"] base b(2) by (simp_all add: rebase_def)
  have rel: "in_i32 (batch_base ?owned - sm_base_offset (as_meta (pi_active g1)))"
    using f(1) base small(1) rolled(2) by (simp add: in_i32_def int_bounds)
  have "active_holds (pd_files dir1) (pi_active g1) bs1" using ok1 by (simp add: log_ok_def)
  from append_batch_total [OF io this _ rel, of "pc_index_interval_bytes (p_cfg p)"] obtain a2 fs2
    where ap: "append_batch io (pd_files dir1) (pi_active g1) ?owned (pc_index_interval_bytes (p_cfg p)) = (Inr a2, fs2)"
      and sz: "as_log_size a2 \<le> as_log_size (pi_active g1) + length batch"
    using f(2) b(2) small(2) rolled(3) by auto
  obtain g2 r2 where c: "append_commit (p_cfg p) (g1\<lparr>pi_active := a2\<rparr>) ?owned (pi_high_water g1) i = (g2, r2)"
    by (metis surj_pair)
  have "pi_flush_err g2 = pi_flush_err g1" using c by (auto simp: append_commit_def Let_def)
  then show ?thesis
    using append_commit_frame [OF c] g1 sz rolled(3) f(2) b(2)
    by (simp add: append_write_def Let_def roll ap c publish_def)
qed

lemma same_part_append:
  assumes io: "\<forall>c. \<not> io_fails io c" and b: "plain_batch batch" and ep: "e \<le> epoch"
    and m: "same_part e (batch_delta batch + 1 + r) (int (length batch) + n) p d m" "0 \<le> r" "0 \<le> n"
  shows "\<exists>rest d' p'. append io d p epoch batch = (Inr (mp_high_water m, rest), d', p') \<and>
    same_part e r n p' d' \<lparr>mp_batches = mp_batches m @ [\<lparr>mb_base_offset = mp_high_water m,
        mb_last_offset_delta = batch_delta batch, mb_raw = rebase (mp_high_water m) batch\<rparr>],
      mp_high_water = mp_high_water m + batch_delta batch + 1, mp_log_start = mp_log_start m\<rparr>"
proof -
  obtain bss bs where ok: "log_ok (pd_files d) (p_inner p) bss bs"
    and keep: "filter (\<lambda>b. mp_log_start m \<le> batch_last b) (concat bss @ bs) =
        filter (\<lambda>b. mp_log_start m \<le> batch_last b) (map mb_raw (mp_batches m))"
    using m(1) by (auto simp: same_part_def)
  note mm = m(1) [unfolded same_part_def]
  have bb: "framed batch" "57 \<le> length batch" "0 \<le> batch_delta batch" "be_i64 (slice 43 51 batch) < 0"
    using b by (simp_all add: plain_batch_def)
  have ep2: "0 \<le> pi_epoch (p_inner p)" "pi_epoch (p_inner p) \<le> u32_MAX" using mm by simp_all
  have sm: "pi_high_water (p_inner p) < 2 ^ 31" "int (as_log_size (pi_active (p_inner p))) \<le> u32_MAX"
    using mm bb(3) m(2,3) by simp_all
  have ap: "append io d p epoch batch = append_write io d p batch None"
    using mm ep bb by (simp add: append_def parse_batch_producer_info_def classify_def Let_def)
  from append_write_total [OF io ok ep2 bb(1,2) sm, of None] obtain assigned rest d' p'
    where w: "append_write io d p batch None = (Inr (assigned, rest), d', p')"
      and fr: "pi_epoch (p_inner p') = pi_epoch (p_inner p)" "pi_flush_err (p_inner p') = pi_flush_err (p_inner p)"
        "pi_log_start (p_inner p') = pi_log_start (p_inner p)"
        "as_log_size (pi_active (p_inner p')) \<le> as_log_size (pi_active (p_inner p)) + length batch" by blast
  have "pi_high_water (p_inner p) + batch_delta batch < i64_MAX"
    "int (as_log_size (pi_active (p_inner p)) + length batch) \<le> u64_MAX"
    using mm m(2,3) by (simp_all add: int_bounds u64_MAX_def)
  from append_write_log_ok [OF ok ep2 bb(1,3) this w] obtain bss' bs'
    where as: "assigned = mp_high_water m" and sn: "p_snapshot p' = snapshot_of (p_inner p')"
      and hw: "pi_high_water (p_inner p') = assigned + batch_delta batch + 1"
      and ok': "log_ok (pd_files d') (p_inner p') bss' bs'"
      and eq: "concat bss' @ bs' = (concat bss @ bs) @ [rebase assigned batch]" using mm by auto
  have last: "batch_last (rebase (mp_high_water m) batch) = mp_high_water m + batch_delta batch"
    using rebase_fields [of batch "mp_high_water m"] log_ok_active_base [OF ok] bb(2) mm by (simp add: batch_last_def)
  let ?m = "\<lparr>mp_batches = mp_batches m @ [\<lparr>mb_base_offset = mp_high_water m,
        mb_last_offset_delta = batch_delta batch, mb_raw = rebase (mp_high_water m) batch\<rparr>],
      mp_high_water = mp_high_water m + batch_delta batch + 1, mp_log_start = mp_log_start m\<rparr>"
  have "filter (\<lambda>b. mp_log_start m \<le> batch_last b) (concat bss' @ bs') =
      filter (\<lambda>b. mp_log_start m \<le> batch_last b) (map mb_raw (mp_batches ?m))"
    unfolding eq as filter_append [of _ "concat bss @ bs"] keep by simp
  with ok' have "\<exists>bss bs. log_ok (pd_files d') (p_inner p') bss bs \<and>
      filter (\<lambda>b. mp_log_start ?m \<le> batch_last b) (concat bss @ bs) =
      filter (\<lambda>b. mp_log_start ?m \<le> batch_last b) (map mb_raw (mp_batches ?m))"
    by (simp only: memory_partition.select_convs) blast
  then have "same_part e r n p' d' ?m"
    unfolding same_part_def using mm fr as sn hw last m(2,3) by simp
  with ap w as show ?thesis by auto
qed

text \<open>The result and the new log start of a delete-records on either engine.\<close>

definition deleted :: "int \<Rightarrow> memory_partition \<Rightarrow> (storage_error + int) \<times> memory_partition" where
  "deleted off m =
     (if 0 \<le> off \<and> mp_high_water m < off then (Inl OffsetOutOfRange, m)
      else let start = max (mp_log_start m) (if off < 0 then mp_high_water m else off)
           in (Inr start, m\<lparr>mp_log_start := start\<rparr>))"

lemma memory_delete_records_deleted:
  "memory_delete_records t p off s =
     (fst (deleted off (memory_ensure t p s)), hm_insert (t, p) (snd (deleted off (memory_ensure t p s))) s)"
  by (simp add: memory_delete_records_def deleted_def Let_def max_def)

lemma filter_later:
  assumes "filter (\<lambda>b. a \<le> batch_last b) xs = filter (\<lambda>b. a \<le> batch_last b) ys" "a \<le> c"
  shows "filter (\<lambda>b. c \<le> batch_last b) xs = filter (\<lambda>b. c \<le> batch_last b) ys"
proof -
  have "filter (\<lambda>b. c \<le> batch_last b) zs = filter (\<lambda>b. c \<le> batch_last b) (filter (\<lambda>b. a \<le> batch_last b) zs)" for zs
    using assms(2) by (auto intro!: filter_cong)
  then show ?thesis using assms(1) by metis
qed

lemma delete_records_result:
  "fst (delete_records io d p off) =
     (if 0 \<le> off \<and> pi_high_water (p_inner p) < off then Inl OffsetOutOfRange
      else Inr (max (pi_log_start (p_inner p)) (if off < 0 then pi_high_water (p_inner p) else off)))"
  by (simp add: delete_records_def Let_def max_def split: prod.splits)

lemma delete_records_frame:
  assumes "delete_records io d p off = (r, d', p')"
  shows "pi_epoch (p_inner p') = pi_epoch (p_inner p)" "pi_flush_err (p_inner p') = pi_flush_err (p_inner p)"
    "p_snapshot p = snapshot_of (p_inner p) \<Longrightarrow> p_snapshot p' = snapshot_of (p_inner p')"
    "r = Inl x \<Longrightarrow> d' = d \<and> p' = p"
  using assms by (auto simp: delete_records_def Let_def publish_def split: if_splits prod.splits)

lemma same_part_delete:
  assumes m: "same_part e r n p d m"
  shows "\<exists>d' p'. delete_records io d p off = (fst (deleted off m), d', p') \<and>
    same_part e r n p' d' (snd (deleted off m))"
proof -
  obtain d' p' where dr: "delete_records io d p off = (fst (delete_records io d p off), d', p')"
    by (metis prod.collapse)
  note mm = m [unfolded same_part_def]
  have res: "fst (delete_records io d p off) = fst (deleted off m)"
    using mm by (simp add: delete_records_result deleted_def Let_def)
  show ?thesis
  proof (cases "0 \<le> off \<and> mp_high_water m < off")
    case True
    then show ?thesis using dr res m delete_records_frame(4) [OF dr] by (auto simp: deleted_def)
  next
    case False
    define st where "st = max (mp_log_start m) (if off < 0 then mp_high_water m else off)"
    have st: "mp_log_start m \<le> st" by (simp add: st_def)
    have del: "deleted off m = (Inr st, m\<lparr>mp_log_start := st\<rparr>)" using False by (auto simp: deleted_def st_def Let_def)
    obtain bss bs where ok: "log_ok (pd_files d) (p_inner p) bss bs"
      and keep: "filter (\<lambda>b. mp_log_start m \<le> batch_last b) (concat bss @ bs) =
        filter (\<lambda>b. mp_log_start m \<le> batch_last b) (map mb_raw (mp_batches m))" using mm by blast
    have dr2: "delete_records io d p off = (Inr st, d', p')" using dr res del by simp
    from delete_records_log_ok [OF ok dr2] obtain bss'
      where fr: "pi_log_start (p_inner p') = st" "pi_high_water (p_inner p') = pi_high_water (p_inner p)"
          "pi_active (p_inner p') = pi_active (p_inner p)"
        and ok': "log_ok (pd_files d') (p_inner p') bss' bs"
        and kept: "filter (\<lambda>b. st \<le> batch_last b) (concat bss') = filter (\<lambda>b. st \<le> batch_last b) (concat bss)"
      by blast
    have "filter (\<lambda>b. st \<le> batch_last b) (concat bss' @ bs) =
        filter (\<lambda>b. st \<le> batch_last b) (map mb_raw (mp_batches m))"
      using filter_later [OF keep st] kept by (simp only: filter_append)
    with ok' have "\<exists>bss bs. log_ok (pd_files d') (p_inner p') bss bs \<and>
        filter (\<lambda>b. st \<le> batch_last b) (concat bss @ bs) =
        filter (\<lambda>b. st \<le> batch_last b) (map mb_raw (mp_batches m))" by blast
    then have "same_part e r n p' d' (m\<lparr>mp_log_start := st\<rparr>)"
      unfolding same_part_def using mm fr st delete_records_frame [OF dr2] by simp
    then show ?thesis using dr2 del by simp
  qed
qed

lemma roll_for_epoch_total:
  assumes "\<forall>c. \<not> io_fails io c" "log_ok (pd_files dir) g bss bs"
  shows "\<exists>dir' g'. roll_for_epoch_locked io dir g e = (Inr (), dir', g') \<and>
    as_log_size (pi_active g') \<le> as_log_size (pi_active g) \<and> pi_epoch g' = pi_epoch g"
proof -
  have "as_log (pi_active g)" using assms(2) by (simp add: log_ok_def active_holds_def)
  then show ?thesis
    using assms(1) by (simp add: roll_for_epoch_locked_def Let_def create_segment_def sync_log_def)
qed

lemma persist_total:
  assumes "\<forall>c. \<not> io_fails io c"
  shows "\<exists>b d'. persist_state_locked io d g e = (Inr b, d')"
  using assms
  by (auto simp: persist_state_locked_def write_unless_superseded_def write_unchecked_def Let_def
      split: sum.splits read_result.splits)

lemma same_part_take_over:
  assumes m: "same_part e r n p d m" and io: "\<forall>c. \<not> io_fails io c" and ne: "ne \<le> e"
  shows "\<exists>d' p'. take_over io d p ne = (Inr (mp_high_water m), d', p') \<and> same_part e r n p' d' m"
proof (cases "ne \<le> pi_epoch (p_inner p)")
  case True
  then show ?thesis using m by (auto simp: take_over_def same_part_def snapshot_of_def)
next
  case False
  note mm = m [unfolded same_part_def]
  obtain bss bs where ok: "log_ok (pd_files d) (p_inner p) bss bs"
    and keep: "filter (\<lambda>b. mp_log_start m \<le> batch_last b) (concat bss @ bs) =
      filter (\<lambda>b. mp_log_start m \<le> batch_last b) (map mb_raw (mp_batches m))" using mm by blast
  obtain d1 g1 where roll: "roll_for_epoch_locked io d (p_inner p) ne = (Inr (), d1, g1)"
    and sz: "as_log_size (pi_active g1) \<le> as_log_size (pi_active (p_inner p))"
    using roll_for_epoch_total [OF io ok] by blast
  obtain b d2 where per: "persist_state_locked io d1 g1 ne = (Inr b, d2)" using persist_total [OF io] by blast
  have "0 \<le> ne" "ne \<le> u32_MAX" using False ne mm by simp_all
  note rolled = roll_for_epoch_log_ok [OF ok this roll]
  let ?g = "g1\<lparr>pi_epoch := ne\<rparr>"
  have to: "take_over io d p ne = (Inr (mp_high_water m), d2, publish p ?g)"
    using False roll per rolled mm by (simp add: take_over_def Let_def)
  obtain bss' bs' where "log_ok (pd_files d1) g1 bss' bs'" and eq: "concat bss' @ bs' = concat bss @ bs"
    using rolled by blast
  then have ok': "log_ok (pd_files d2) ?g bss' bs'"
    using persist_frame [OF per] log_ok_frame [of ?g g1] by simp
  have "\<exists>bss bs. log_ok (pd_files d2) ?g bss bs \<and>
      filter (\<lambda>b. mp_log_start m \<le> batch_last b) (concat bss @ bs) =
      filter (\<lambda>b. mp_log_start m \<le> batch_last b) (map mb_raw (mp_batches m))"
    using ok' keep eq by (intro exI [of _ bss'] exI [of _ bs']) (simp only: simp_thms)
  then have "same_part e r n (publish p ?g) d2 m"
    unfolding same_part_def publish_def using mm rolled sz ne \<open>0 \<le> ne\<close> by simp
  with to show ?thesis by blast
qed

lemma same_part_budget:
  "same_part e r n p d m \<Longrightarrow> 0 \<le> r' \<Longrightarrow> r' \<le> r \<Longrightarrow> 0 \<le> n' \<Longrightarrow> n' \<le> n \<Longrightarrow> same_part e r' n' p d m"
  by (auto simp: same_part_def)

lemma same_part_read:
  assumes "same_part e r n p d m" "\<not> io_fails io Open_read"
  shows "partition_read io d p start mx =
    Inr (take mx (memory_read_loop start (mp_log_start m) mx (mp_batches m) []))"
proof -
  note mm = assms(1) [unfolded same_part_def]
  obtain bss bs where ok: "log_ok (pd_files d) (p_inner p) bss bs"
    and keep: "filter (\<lambda>b. mp_log_start m \<le> batch_last b) (concat bss @ bs) =
      filter (\<lambda>b. mp_log_start m \<le> batch_last b) (map mb_raw (mp_batches m))" using mm by blast
  have ls: "pi_log_start (p_inner p) = mp_log_start m" using mm by simp
  have near: "sm_base_offset (as_meta (pi_active (p_inner p))) - max start (pi_log_start (p_inner p)) \<le> 2 ^ 31"
    using log_ok_active_base(2) [OF ok] mm by (simp add: max_def)
  have "filter (\<lambda>b. max start (mp_log_start m) \<le> batch_last b) (concat bss @ bs) =
      filter (\<lambda>b. max start (mp_log_start m) \<le> batch_last b) (map mb_raw (mp_batches m))"
    using filter_later [OF keep, of "max start (mp_log_start m)"] by (simp only: max.cobounded2 simp_thms)
  then have "partition_read io d p start mx = Inr (take mx (concat (filter
      (\<lambda>b. max start (mp_log_start m) \<le> batch_last b) (map mb_raw (mp_batches m)))))"
    using read_snapshot_batches [OF ok assms(2) near, of mx] mm unfolding partition_read_def ls by metis
  also have "\<dots> = Inr (take mx (memory_read_loop start (mp_log_start m) mx (mp_batches m) []))"
    using memory_read_loop_filter [of "mp_batches m" "[]" mx start "mp_log_start m"] mm
    unfolding append_Nil by metis
  finally show ?thesis .
qed

section \<open>Opening a fresh partition\<close>

lemma open_fresh:
  assumes io: "\<forall>c. \<not> io_fails io c"
  shows "\<exists>g d. open_blocking io crc cra empty_dir = (Inr g, d) \<and> log_ok (pd_files d) g [] [] \<and>
    pi_epoch g = 0 \<and> pi_high_water g = 0 \<and> pi_log_start g = 0 \<and> pi_flush_err g = None \<and>
    as_log_size (pi_active g) = 0"
proof -
  obtain a fs where cr: "create_segment io [] 0 0 = (Inr a, fs)"
    using io by (simp add: create_segment_def Let_def)
  note h = create_segment_holds [OF cr]
  have nm: "meta_named (as_meta a)" by (rule created_named [of 0 0]) (use h in \<open>simp_all add: int_bounds\<close>)
  have sz: "as_log_size a = 0" "fs_contents fs (sm_log_path (as_meta a)) = []"
    using h by (auto simp: active_holds_def seg_holds_def fs_contents_def)
  have oa: "open_active io [] 0 0 = (Inr ([], a), fs)"
    by (simp add: open_active_def cr list_segments_def fs_readdir_def)
  have ra: "recover_active io crc cra fs None a = (Inr (0, a), fs)"
    using io sz h
    by (simp add: recover_active_def scan_from_def scan_high_watermark_from_def scan_loop.simps [of _ _ "[]"] read_exact_def)
  have "log_ok fs (opened_inner 0 0 0 [] a [] ([], [])) [] []"
    using h nm by (simp add: log_ok_def opened_inner_def segments_of_def end_offset_of_def int_bounds)
  then show ?thesis
    using io oa ra sz
    by (simp add: open_blocking_def manifest_read_def empty_dir_def read_legacy_epoch_def checkpoint_read_def
        load_producer_states_def load_txn_indexes_def write_unless_superseded_def write_unchecked_def Let_def
        opened_inner_def)
qed

lemma same_part_fresh:
  assumes "\<forall>c. \<not> io_fails io c" "0 \<le> e" "e \<le> u32_MAX" "0 \<le> r" "r < 2 ^ 31" "0 \<le> n" "n \<le> u32_MAX"
  shows "\<exists>g d. open_blocking io crc cra empty_dir = (Inr g, d) \<and>
    same_part e r n (open_partition cfg g) d empty_partition"
proof -
  obtain g d where "open_blocking io crc cra empty_dir = (Inr g, d)" "log_ok (pd_files d) g [] []"
    "pi_epoch g = 0" "pi_high_water g = 0" "pi_log_start g = 0" "pi_flush_err g = None" "as_log_size (pi_active g) = 0"
    using open_fresh [OF assms(1)] by blast
  then show ?thesis
    using assms(2-) by (auto simp: same_part_def empty_partition_def open_partition_def
        intro!: exI [of _ "[]"] exI [of _ "[] :: bytes list"])
qed

section \<open>The simulation\<close>

text \<open>What the two engines hold for one key: nothing, with empty directories on every root, or the same
  log, on the root the placement names.\<close>

definition key_match ::
  "int \<Rightarrow> string \<Rightarrow> int \<Rightarrow> int \<Rightarrow> open_part option \<times> (string \<Rightarrow> part_dir) \<Rightarrow> memory_partition option \<Rightarrow> bool" where
  "key_match e root r n view mo \<longleftrightarrow>
     (case fst view of
        None \<Rightarrow> mo = None \<and> (\<forall>x. snd view x = empty_dir)
      | Some q \<Rightarrow> op_root q = root \<and> (\<forall>x. x \<noteq> root \<longrightarrow> snd view x = empty_dir) \<and>
          (\<exists>m. mo = Some m \<and> same_part e r n (op_part q) (snd view root) m))"

lemma key_match_budget:
  "key_match e root r n v mo \<Longrightarrow> 0 \<le> r' \<Longrightarrow> r' \<le> r \<Longrightarrow> 0 \<le> n' \<Longrightarrow> n' \<le> n \<Longrightarrow> key_match e root r' n' v mo"
  using same_part_budget by (auto simp: key_match_def split: option.splits)

definition engines_match ::
  "int \<Rightarrow> resolvers \<Rightarrow> (io_env \<times> storage_call) list \<Rightarrow> disk_state \<Rightarrow> memory_storage \<Rightarrow> bool" where
  "engines_match e rs cs s ms \<longleftrightarrow>
     0 \<le> e \<and> e \<le> u32_MAX \<and> list_all (call_ok e) cs \<and> records_of cs < 2 ^ 31 \<and> bytes_of cs \<le> u32_MAX \<and>
     en_migrating (fst s) = [] \<and> (\<forall>r t. vo_ids (snd s) r t = Absent) \<and>
     (\<forall>k. key_match e (log_dir_root rs (fst s) (fst k) (snd k)) (records_of cs) (bytes_of cs)
            (part_view s k) (hm_get ms k))"

lemma call_costs: "call_ok e c \<Longrightarrow> 0 \<le> call_records c \<and> 0 \<le> call_bytes c"
  by (cases c rule: call_records.cases) (auto simp: plain_batch_def)

lemma costs_nonneg: "list_all (call_ok e) cs \<Longrightarrow> 0 \<le> records_of cs \<and> 0 \<le> bytes_of cs"
  using call_costs by (induction cs) (force simp: records_of_def bytes_of_def)+

lemma costs_Cons [simp]:
  "records_of (c # cs) = call_records c + records_of cs" "bytes_of (c # cs) = call_bytes c + bytes_of cs"
  by (simp_all add: records_of_def bytes_of_def)

text \<open>A step that touches one key keeps the match of all the others.\<close>

lemma engines_match_step:
  assumes m: "engines_match e rs (c # cs) s ms"
    and other: "\<And>k. k \<noteq> key \<Longrightarrow> part_view s' k = part_view s k" "\<And>k. k \<noteq> key \<Longrightarrow> hm_get ms' k = hm_get ms k"
    and static: "en_data_dir (fst s') = en_data_dir (fst s)" "en_extra_log_dirs (fst s') = en_extra_log_dirs (fst s)"
      "en_migrating (fst s') = []" "vo_ids (snd s') = vo_ids (snd s)"
    and here: "key_match e (log_dir_root rs (fst s) (fst key) (snd key)) (records_of cs) (bytes_of cs)
      (part_view s' key) (hm_get ms' key)"
  shows "engines_match e rs cs s' ms'"
proof -
  note mm = m [unfolded engines_match_def]
  have ok: "call_ok e c" "list_all (call_ok e) cs" using mm by simp_all
  note nn = call_costs [OF ok(1)] costs_nonneg [OF ok(2)]
  have root: "log_dir_root rs (fst s') = log_dir_root rs (fst s)"
    by (intro ext) (simp add: log_dir_root_def static cong: option.case_cong)
  have "key_match e (log_dir_root rs (fst s) (fst k) (snd k)) (records_of cs) (bytes_of cs)
      (part_view s' k) (hm_get ms' k)" for k
  proof (cases "k = key")
    case False
    have "key_match e (log_dir_root rs (fst s) (fst k) (snd k)) (records_of (c # cs)) (bytes_of (c # cs))
        (part_view s k) (hm_get ms k)" using mm by blast
    then show ?thesis using other [OF False] nn by (auto intro: key_match_budget)
  qed (use here in simp)
  then show ?thesis using mm nn static root by (simp add: engines_match_def)
qed

lemma partition_root_assigned:
  assumes "\<And>x. x \<noteq> log_dir_root rs (fst s) t p \<Longrightarrow> vo_parts (snd s) x t p = empty_dir"
  shows "partition_root io rs s t p = log_dir_root rs (fst s) t p"
proof -
  obtain en v where s: "s = (en, v)" by (metis surj_pair)
  have "\<not> has_manifest io v t p x" if "x \<noteq> log_dir_root rs en t p" for x
    using assms that by (simp add: has_manifest_def empty_dir_def s)
  then have "find (has_manifest io v t p) (filter (\<lambda>r. r \<noteq> log_dir_root rs en t p) xs) = None" for xs
    by (auto simp: find_None_iff)
  then show ?thesis by (simp only: partition_root_def s Let_def prod.case fst_conv option.case if_cancel)
qed

lemma ensure_open_match:
  assumes io: "\<forall>c. \<not> io_fails io c" and e: "0 \<le> e" "e \<le> u32_MAX"
    and rn: "0 \<le> r" "r < 2 ^ 31" "0 \<le> n" "n \<le> u32_MAX"
    and st: "en_migrating (fst s) = []" "\<forall>r t. vo_ids (snd s) r t = Absent"
    and k: "key_match e (log_dir_root rs (fst s) t p) r n (part_view s (t, p)) mo"
  shows "\<exists>q s1. ensure_open io crc cra rs t p s = (Inr q, s1) \<and>
    hm_get (en_partitions (fst s1)) (t, p) = Some q \<and> op_root q = log_dir_root rs (fst s) t p \<and>
    key_match e (log_dir_root rs (fst s) t p) r n (part_view s1 (t, p))
      (Some (case mo of Some m \<Rightarrow> m | None \<Rightarrow> empty_partition)) \<and>
    en_data_dir (fst s1) = en_data_dir (fst s) \<and> en_extra_log_dirs (fst s1) = en_extra_log_dirs (fst s) \<and>
    en_migrating (fst s1) = [] \<and> vo_ids (snd s1) = vo_ids (snd s)"
proof (cases "hm_get (en_partitions (fst s)) (t, p)")
  case (Some q)
  then show ?thesis using k st by (cases s) (auto simp: ensure_open_def key_match_def)
next
  case None
  obtain en v where s: "s = (en, v)" by (metis surj_pair)
  let ?root = "log_dir_root rs en t p"
  have empty: "vo_parts v x t p = empty_dir" for x using k None by (simp add: key_match_def s)
  have mo: "mo = None" using k None by (simp add: key_match_def s)
  have root: "partition_root io rs s t p = ?root"
    using partition_root_assigned [of rs s t p io] empty by (simp add: s)
  obtain g d where ob: "open_blocking io crc cra empty_dir = (Inr g, d)"
    and sp: "same_part e r n (open_partition (partition_config_for io rs s t p) g) d empty_partition"
    using same_part_fresh [OF io e rn] by blast
  have "identity_permits_open io rs v t ?root = Inr ()"
    using st(2) by (auto simp: identity_permits_open_def read_topic_identity_def s split: topic_incarnation.splits)
  then show ?thesis
    using None st root ob sp empty mo
    by (simp add: ensure_open_def s Let_def key_match_def part_view_def update_conv')
qed

lemma on_open_match:
  assumes "key_match e root r n (part_view s (t, p)) (Some m)" "hm_get (en_partitions (fst s)) (t, p) = Some q"
    and "f (vo_parts (snd s) (op_root q) t p) (op_part q) = (x, d, p')" "same_part e r' n' p' d m'"
  shows "key_match e root r' n' (part_view (snd (on_open f t p q s)) (t, p)) (Some m')"
  using assms on_open_here(2,3) [where f = f, OF assms(3)] by (auto simp: key_match_def)

lemma ensured:
  assumes m: "engines_match e rs (c # cs) s ms" and io: "\<forall>c. \<not> io_fails io c"
  shows "\<exists>q s1. ensure_open io crc cra rs t p s = (Inr q, s1) \<and>
    hm_get (en_partitions (fst s1)) (t, p) = Some q \<and> op_root q = log_dir_root rs (fst s) t p \<and>
    key_match e (log_dir_root rs (fst s) t p) (records_of (c # cs)) (bytes_of (c # cs)) (part_view s1 (t, p))
      (Some (memory_ensure t p ms)) \<and>
    en_data_dir (fst s1) = en_data_dir (fst s) \<and> en_extra_log_dirs (fst s1) = en_extra_log_dirs (fst s) \<and>
    en_migrating (fst s1) = [] \<and> vo_ids (snd s1) = vo_ids (snd s)"
proof -
  note mm = m [unfolded engines_match_def]
  have ok: "list_all (call_ok e) (c # cs)" using mm by blast
  have k: "key_match e (log_dir_root rs (fst s) t p) (records_of (c # cs)) (bytes_of (c # cs))
      (part_view s (t, p)) (hm_get ms (t, p))" using mm by (metis fst_conv snd_conv)
  from costs_nonneg [OF ok] mm ensure_open_match [OF io _ _ _ _ _ _ _ _ k]
  show ?thesis unfolding memory_ensure_def by blast
qed

lemma write_call_match:
  assumes m: "engines_match e rs (c # cs) s ms" and io: "\<forall>c. \<not> io_fails io c"
    and step: "\<And>q d m. same_part e (records_of (c # cs)) (bytes_of (c # cs)) q d m \<Longrightarrow>
      \<exists>x d' q'. f d q = (x, d', q') \<and> good x m \<and> same_part e (records_of cs) (bytes_of cs) q' d' (upd m)"
  shows "\<exists>x s'. (case ensure_open io crc cra rs t p s of
      (Inl err, s1) \<Rightarrow> (Inl err, s1) | (Inr q, s1) \<Rightarrow> on_open f t p q s1) = (x, s') \<and>
    good x (memory_ensure t p ms) \<and> engines_match e rs cs s' (hm_insert (t, p) (upd (memory_ensure t p ms)) ms)"
proof -
  let ?m = "memory_ensure t p ms" and ?root = "log_dir_root rs (fst s) t p"
  obtain q s1 where eo: "ensure_open io crc cra rs t p s = (Inr q, s1)"
    and q: "hm_get (en_partitions (fst s1)) (t, p) = Some q" "op_root q = ?root"
    and k1: "key_match e ?root (records_of (c # cs)) (bytes_of (c # cs)) (part_view s1 (t, p)) (Some ?m)"
    and st: "en_data_dir (fst s1) = en_data_dir (fst s)" "en_extra_log_dirs (fst s1) = en_extra_log_dirs (fst s)"
      "en_migrating (fst s1) = []" "vo_ids (snd s1) = vo_ids (snd s)"
    using ensured [OF m io] by blast
  have "same_part e (records_of (c # cs)) (bytes_of (c # cs)) (op_part q) (vo_parts (snd s1) (op_root q) t p) ?m"
    using k1 q by (simp add: key_match_def)
  from step [OF this] obtain x d' q'
    where f: "f (vo_parts (snd s1) (op_root q) t p) (op_part q) = (x, d', q')"
      and g: "good x ?m" and sp: "same_part e (records_of cs) (bytes_of cs) q' d' (upd ?m)" by blast
  obtain s' where oo: "on_open f t p q s1 = (x, s')" using on_open_here(1) [where f = f, OF f] by (metis prod.collapse)
  have st': "en_data_dir (fst s') = en_data_dir (fst s1)" "en_extra_log_dirs (fst s') = en_extra_log_dirs (fst s1)"
    "en_migrating (fst s') = en_migrating (fst s1)" "vo_ids (snd s') = vo_ids (snd s1)"
    using oo f by (auto simp: on_open_def split: prod.splits)
  have "engines_match e rs cs s' (hm_insert (t, p) (upd ?m) ms)"
  proof (rule engines_match_step [where key = "(t, p)", OF m])
    fix k assume "k \<noteq> (t, p)"
    then show "part_view s' k = part_view s k"
      using on_open_other(1) [of k t p f q s1] ensure_open_other(1) [of k t p io crc cra rs s] oo eo by simp
    show "hm_get (hm_insert (t, p) (upd ?m) ms) k = hm_get ms k" using \<open>k \<noteq> (t, p)\<close> by (simp add: update_conv')
  next
    show "key_match e (log_dir_root rs (fst s) (fst (t, p)) (snd (t, p))) (records_of cs) (bytes_of cs)
        (part_view s' (t, p)) (hm_get (hm_insert (t, p) (upd ?m) ms) (t, p))"
      using on_open_match [where f = f, OF k1 q(1) f sp] oo by simp
  qed (use st st' in simp_all)
  then show ?thesis using eo oo g by simp
qed

lemma match_here:
  assumes "engines_match e rs cs s ms"
  shows "key_match e (log_dir_root rs (fst s) t p) (records_of cs) (bytes_of cs) (part_view s (t, p)) (hm_get ms (t, p))"
  using assms unfolding engines_match_def by (metis fst_conv snd_conv)

lemma match_next:
  assumes m: "engines_match e rs (c # cs) s ms"
  shows "engines_match e rs cs s ms"
proof (rule engines_match_step [where key = k, OF m])
  note mm = m [unfolded engines_match_def]
  have "call_ok e c" "list_all (call_ok e) cs" using mm by simp_all
  note nn = call_costs [OF this(1)] costs_nonneg [OF this(2)]
  have "key_match e (log_dir_root rs (fst s) (fst k) (snd k)) (records_of (c # cs)) (bytes_of (c # cs))
      (part_view s k) (hm_get ms k)" using mm by blast
  then show "key_match e (log_dir_root rs (fst s) (fst k) (snd k)) (records_of cs) (bytes_of cs)
      (part_view s k) (hm_get ms k)" by (rule key_match_budget) (use nn in simp_all)
  show "en_migrating (fst s) = []" using mm by blast
qed (rule refl)+

lemma append_call:
  assumes m: "engines_match e rs ((io, Call_append t p epoch batch) # cs) s ms"
  shows "fst (disk_call crc cra rs (io, Call_append t p epoch batch) s) =
      fst (memory_call (io, Call_append t p epoch batch) ms) \<and>
    engines_match e rs cs (snd (disk_call crc cra rs (io, Call_append t p epoch batch) s))
      (snd (memory_call (io, Call_append t p epoch batch) ms))"
proof -
  let ?upd = "\<lambda>m. \<lparr>mp_batches = mp_batches m @ [\<lparr>mb_base_offset = mp_high_water m,
        mb_last_offset_delta = batch_delta batch, mb_raw = rebase (mp_high_water m) batch\<rparr>],
      mp_high_water = mp_high_water m + batch_delta batch + 1, mp_log_start = mp_log_start m\<rparr>"
  have ok: "\<forall>c. \<not> io_fails io c" "e \<le> epoch" "plain_batch batch" "list_all (call_ok e) cs"
    using m by (simp_all add: engines_match_def)
  have "\<exists>x s'. engine_append io crc cra rs t p epoch batch s = (x, s') \<and>
      (\<exists>rest. x = Inr (mp_high_water (memory_ensure t p ms), rest)) \<and>
      engines_match e rs cs s' (hm_insert (t, p) (?upd (memory_ensure t p ms)) ms)"
    unfolding engine_append_def
    by (rule write_call_match [OF m ok(1)])
      (use same_part_append [OF ok(1,3,2)] costs_nonneg [OF ok(4)] in \<open>fastforce simp: add.commute\<close>)
  moreover have "be_i32 (slice 23 27 (rebase a batch)) = batch_delta batch" for a
    using ok(3) by (simp add: plain_batch_def rebase_def batch_delta_def slice_def)
  moreover have "batch \<noteq> []" "27 \<le> length batch" using ok(3) by (auto simp: plain_batch_def)
  ultimately show ?thesis by (auto simp: memory_append_def Let_def)
qed

lemma delete_records_call:
  assumes m: "engines_match e rs ((io, Call_delete_records t p off) # cs) s ms"
  shows "fst (disk_call crc cra rs (io, Call_delete_records t p off) s) =
      fst (memory_call (io, Call_delete_records t p off) ms) \<and>
    engines_match e rs cs (snd (disk_call crc cra rs (io, Call_delete_records t p off) s))
      (snd (memory_call (io, Call_delete_records t p off) ms))"
proof -
  have io: "\<forall>c. \<not> io_fails io c" using m by (simp add: engines_match_def)
  have "\<exists>x s'. engine_delete_records io crc cra rs t p off s = (x, s') \<and>
      x = fst (deleted off (memory_ensure t p ms)) \<and>
      engines_match e rs cs s' (hm_insert (t, p) (snd (deleted off (memory_ensure t p ms))) ms)"
    unfolding engine_delete_records_def
    by (rule write_call_match [OF m io]) (use same_part_delete in fastforce)
  then show ?thesis by (auto simp: memory_delete_records_deleted)
qed

lemma take_over_call:
  assumes m: "engines_match e rs ((io, Call_take_over t p epoch) # cs) s ms"
  shows "fst (disk_call crc cra rs (io, Call_take_over t p epoch) s) =
      fst (memory_call (io, Call_take_over t p epoch) ms) \<and>
    engines_match e rs cs (snd (disk_call crc cra rs (io, Call_take_over t p epoch) s))
      (snd (memory_call (io, Call_take_over t p epoch) ms))"
proof -
  have io: "\<forall>c. \<not> io_fails io c" and ep: "epoch \<le> e" using m by (simp_all add: engines_match_def)
  have "\<exists>x s'. engine_take_over io crc cra rs t p epoch s = (x, s') \<and>
      x = Inr (mp_high_water (memory_ensure t p ms)) \<and>
      engines_match e rs cs s' (hm_insert (t, p) (memory_ensure t p ms) ms)"
    unfolding engine_take_over_def
    by (rule write_call_match [OF m io]) (use same_part_take_over [OF _ io ep] in fastforce)
  then show ?thesis
    by (auto simp: memory_take_over_def memory_create_partition_def memory_high_watermark_def update_conv' Let_def)
qed

lemma create_call:
  assumes m: "engines_match e rs ((io, Call_create t p) # cs) s ms"
  shows "fst (disk_call crc cra rs (io, Call_create t p) s) = fst (memory_call (io, Call_create t p) ms) \<and>
    engines_match e rs cs (snd (disk_call crc cra rs (io, Call_create t p) s))
      (snd (memory_call (io, Call_create t p) ms))"
proof -
  have io: "\<forall>c. \<not> io_fails io c" using m by (simp add: engines_match_def)
  from ensured [OF m io] obtain q s1 where eo: "ensure_open io crc cra rs t p s = (Inr q, s1)"
    and k1: "key_match e (log_dir_root rs (fst s) t p) (records_of ((io, Call_create t p) # cs))
      (bytes_of ((io, Call_create t p) # cs)) (part_view s1 (t, p)) (Some (memory_ensure t p ms))"
    and st: "en_data_dir (fst s1) = en_data_dir (fst s)" "en_extra_log_dirs (fst s1) = en_extra_log_dirs (fst s)"
      "en_migrating (fst s1) = []" "vo_ids (snd s1) = vo_ids (snd s)" by blast
  have "engines_match e rs cs s1 (memory_create_partition t p ms)"
  proof (rule engines_match_step [where key = "(t, p)", OF m])
    fix k assume "k \<noteq> (t, p)"
    then show "part_view s1 k = part_view s k" "hm_get (memory_create_partition t p ms) k = hm_get ms k"
      using ensure_open_other(1) [of k t p io crc cra rs s] eo
      by (simp_all add: memory_create_partition_def update_conv')
  qed (use st k1 in \<open>simp_all add: memory_create_partition_def\<close>)
  then show ?thesis using eo by (simp add: create_partition_def)
qed

lemma delete_partition_call:
  assumes m: "engines_match e rs ((io, Call_delete_partition t p) # cs) s ms"
  shows "engines_match e rs cs (delete_partition io rs t p s) (memory_delete_partition t p ms)"
proof -
  let ?root = "log_dir_root rs (fst s) t p" and ?s1 = "close_open io t p s"
  have io: "\<forall>c. \<not> io_fails io c" using m by (simp add: engines_match_def)
  note k = match_here [OF m, of t p]
  have st: "en_data_dir (fst ?s1) = en_data_dir (fst s)" "en_extra_log_dirs (fst ?s1) = en_extra_log_dirs (fst s)"
    "en_migrating (fst ?s1) = en_migrating (fst s)" "vo_ids (snd ?s1) = vo_ids (snd s)"
    by (cases s; auto simp: close_open_def split: option.splits prod.splits)+
  have none: "hm_get (en_partitions (fst ?s1)) (t, p) = None"
    by (cases s; auto simp: close_open_def delete_conv' split: option.splits prod.splits)
  have dirs: "vo_parts (snd ?s1) x t p = empty_dir" if "x \<noteq> ?root" for x
    using k that by (cases s) (auto simp: close_open_def key_match_def split: option.splits prod.splits)
  have root: "log_dir_root rs (fst ?s1) t p = ?root" using st by (simp add: log_dir_root_def cong: option.case_cong)
  have "partition_root io rs ?s1 t p = ?root" using partition_root_assigned [of rs ?s1 t p io] dirs root by simp
  then have d: "delete_partition io rs t p s = (fst ?s1, put_dir ?root t p empty_dir (snd ?s1))"
    using io by (simp add: delete_partition_def Let_def)
  show ?thesis
    unfolding d
  proof (rule engines_match_step [where key = "(t, p)", OF m])
    fix k :: "string \<times> int" assume "k \<noteq> (t, p)"
    then show "part_view (fst ?s1, put_dir ?root t p empty_dir (snd ?s1)) k = part_view s k"
      "hm_get (memory_delete_partition t p ms) k = hm_get ms k"
      using close_open_other(1) [of k t p io s]
      by (cases k; auto simp: part_view_eq_iff memory_delete_partition_def delete_conv')+
  next
    show "key_match e (log_dir_root rs (fst s) (fst (t, p)) (snd (t, p))) (records_of cs) (bytes_of cs)
        (part_view (fst ?s1, put_dir ?root t p empty_dir (snd ?s1)) (t, p))
        (hm_get (memory_delete_partition t p ms) (t, p))"
      using none dirs by (simp add: key_match_def part_view_def memory_delete_partition_def delete_conv')
  qed (use st m in \<open>simp_all add: engines_match_def\<close>)
qed

lemma query_calls:
  assumes m: "engines_match e rs cs s ms" and io: "\<forall>c. \<not> io_fails io c"
  shows "engine_read io t p start mx s = Inr (take mx (memory_read t p start mx ms))"
    "engine_high_watermark t p s = memory_high_watermark t p ms"
    "engine_log_start_offset t p s = memory_log_start_offset t p ms"
proof -
  note k = match_here [OF m, of t p]
  show "engine_read io t p start mx s = Inr (take mx (memory_read t p start mx ms))"
    using k same_part_read [of e _ _ _ _ _ io start mx] io
    by (auto simp: engine_read_def memory_read_def key_match_def split: option.splits)
  show "engine_high_watermark t p s = memory_high_watermark t p ms"
    "engine_log_start_offset t p s = memory_log_start_offset t p ms"
    using k by (auto simp: engine_high_watermark_def memory_high_watermark_def engine_log_start_offset_def
        memory_log_start_offset_def key_match_def same_part_def snapshot_of_def split: option.splits)
qed

interpretation engines: lockstep "disk_call crc cra rs" memory_call "engines_match e rs"
proof
  fix c cs s ms
  assume m: "engines_match e rs (c # cs) s ms"
  obtain io x where c: "c = (io, x)" by (metis surj_pair)
  have io: "\<forall>c. \<not> io_fails io c" using m by (cases x) (simp_all add: engines_match_def c)
  note next_ok = match_next [OF m]
  show "fst (disk_call crc cra rs c s) = fst (memory_call c ms) \<and>
      engines_match e rs cs (snd (disk_call crc cra rs c s)) (snd (memory_call c ms))"
  proof (cases x)
    case (Call_append t p epoch batch)
    then show ?thesis using append_call m c by blast
  next
    case (Call_delete_records t p off)
    then show ?thesis using delete_records_call m c by blast
  next
    case (Call_take_over t p epoch)
    then show ?thesis using take_over_call m c by blast
  next
    case (Call_create t p)
    then show ?thesis using create_call m c by blast
  next
    case (Call_delete_partition t p)
    then show ?thesis using delete_partition_call [of e rs io t p cs s ms] m by (simp add: c)
  qed (use query_calls [OF m io] next_ok in \<open>simp_all add: c\<close>)
qed


definition demo_plain :: "int \<Rightarrow> bytes" where
  "demo_plain delta = be_bytes 8 0 @ be_bytes 4 49 @ replicate 11 0 @ be_bytes 4 delta @ replicate 16 0 @
     be_bytes 8 (-1) @ replicate 10 0"

definition demo_calls :: "(io_env \<times> storage_call) list" where
  "demo_calls = map (Pair healthy_io)
     [Call_append ''t'' 0 3 (demo_plain 1), Call_append ''t'' 0 3 (demo_plain 0), Call_take_over ''t'' 0 2,
      Call_append ''t'' 0 3 (demo_plain 4), Call_delete_records ''t'' 0 2, Call_read ''t'' 0 0 100]"

definition demo_empty_volume :: volume where
  "demo_empty_volume = \<lparr>vo_parts = (\<lambda>_ _ _. empty_dir), vo_configs = (\<lambda>_ _. Absent), vo_ids = (\<lambda>_ _. Absent)\<rparr>"


end
