(* ===== verification/ProducerIds.thy ===== *)
theory ProducerIds
  imports Manifest
begin

text \<open>
  Producer id allocation (\<open>crates/kaas-broker/src/producer_id.rs\<close>): every broker owns a slice of the
  id space and a block file that says how much of its slice is spent. The block end is written
  before an id of the block is handed out. The cluster is a set of brokers that open their
  allocator, hand out ids and crash, in any order; the files outlive the crashes.
\<close>

section \<open>The allocator\<close>

definition PID_STRIDE :: int where "PID_STRIDE = 2 ^ 40"
definition PID_BLOCK :: int where "PID_BLOCK = 1000"

record pid_allocator =
  pa_base :: int
  pa_next :: int
  pa_block_end :: int

definition sat_i64 :: "int \<Rightarrow> int" where
  "sat_i64 x = max (- (2 ^ 63)) (min i64_MAX x)"

definition read_block_file :: "bool \<Rightarrow> int json_file \<Rightarrow> io_error + int" where
  "read_block_file read_fails f =
     (case f of
        Absent \<Rightarrow> if read_fails then Inl Io_failed else Inr 0
      | Corrupt \<Rightarrow> Inl (if read_fails then Io_failed else Invalid_data)
      | Json next_block \<Rightarrow> if read_fails then Inl Io_failed else Inr (max next_block 0))"

definition reserve :: "bool \<Rightarrow> int json_file \<Rightarrow> pid_allocator \<Rightarrow> pid_allocator \<times> int json_file" where
  "reserve write_fails f a =
     (let new_end = sat_i64 (pa_block_end a + PID_BLOCK)
      in (a\<lparr>pa_block_end := new_end\<rparr>, if write_fails then f else Json new_end))"

definition open_allocator ::
  "bool \<Rightarrow> bool \<Rightarrow> int \<Rightarrow> int json_file \<Rightarrow> (io_error + pid_allocator) \<times> int json_file" where
  "open_allocator read_fails write_fails broker_id f =
     (case read_block_file read_fails f of
        Inl e \<Rightarrow> (Inl e, f)
      | Inr persisted \<Rightarrow>
          (case reserve write_fails f
                  \<lparr>pa_base = sat_i64 (sat_i64 (max broker_id 0 + 1) * PID_STRIDE),
                   pa_next = persisted, pa_block_end = persisted\<rparr> of
             (a, f') \<Rightarrow> (Inr a, f')))"

definition next_pid :: "bool \<Rightarrow> int json_file \<Rightarrow> pid_allocator \<Rightarrow> int \<times> pid_allocator \<times> int json_file" where
  "next_pid write_fails f a =
     (let (a1, f1) = (if pa_block_end a \<le> pa_next a then reserve write_fails f a else (a, f))
      in (sat_i64 (pa_base a1 + pa_next a1), a1\<lparr>pa_next := pa_next a1 + 1\<rparr>, f1))"

section \<open>A cluster of allocators\<close>

record pid_cluster =
  pc_files :: "int \<Rightarrow> int json_file"
  pc_running :: "int \<Rightarrow> pid_allocator option"

datatype pid_event = Pid_start int bool | Pid_next int | Pid_crash int

text \<open>An event and the ids it hands out. Block files are readable or not (\<open>Pid_start b fails\<close>); every
  write reaches the volume.\<close>

fun pid_step :: "pid_cluster \<Rightarrow> pid_event \<Rightarrow> int list \<times> pid_cluster" where
  "pid_step c (Pid_start b read_fails) =
     (case open_allocator read_fails False b (pc_files c b) of
        (r, f) \<Rightarrow> ([], c\<lparr>pc_files := (pc_files c)(b := f),
          pc_running := (pc_running c)(b := (case r of Inr a \<Rightarrow> Some a | Inl _ \<Rightarrow> None))\<rparr>))"
| "pid_step c (Pid_next b) =
     (case pc_running c b of
        None \<Rightarrow> ([], c)
      | Some a \<Rightarrow>
          (case next_pid False (pc_files c b) a of
             (pid, a', f) \<Rightarrow> ([pid], c\<lparr>pc_files := (pc_files c)(b := f),
                                      pc_running := (pc_running c)(b \<mapsto> a')\<rparr>)))"
| "pid_step c (Pid_crash b) = ([], c\<lparr>pc_running := (pc_running c)(b := None)\<rparr>)"

fun pid_run :: "pid_cluster \<Rightarrow> pid_event list \<Rightarrow> int list \<times> pid_cluster" where
  "pid_run c [] = ([], c)"
| "pid_run c (e # es) =
     (case pid_step c e of (xs, c1) \<Rightarrow> (case pid_run c1 es of (ys, c2) \<Rightarrow> (xs @ ys, c2)))"

fun event_broker :: "pid_event \<Rightarrow> int" where
  "event_broker (Pid_start b x) = b"
| "event_broker (Pid_next b) = b"
| "event_broker (Pid_crash b) = b"

section \<open>Uniqueness\<close>

text \<open>How much of its slice a broker has spent according to its file.\<close>

definition spent :: "pid_cluster \<Rightarrow> int \<Rightarrow> int" where
  "spent c b = (case pc_files c b of Json n \<Rightarrow> max n 0 | _ \<Rightarrow> 0)"

definition slice_base :: "int \<Rightarrow> int" where
  "slice_base b = (b + 1) * PID_STRIDE"

text \<open>The ids a broker can still hand out without reading its file again, or after.\<close>

definition frontier :: "pid_cluster \<Rightarrow> int \<Rightarrow> int" where
  "frontier c b = (case pc_running c b of Some a \<Rightarrow> pa_next a | None \<Rightarrow> spent c b)"

text \<open>Every id handed out lies below the frontier of its broker's slice, and \<open>k\<close> more events stay
  inside the slices.\<close>

definition pids_ok :: "nat \<Rightarrow> int list \<Rightarrow> pid_cluster \<Rightarrow> bool" where
  "pids_ok k issued c \<longleftrightarrow>
     distinct issued \<and>
     (\<forall>b. spent c b + int k * PID_BLOCK < PID_STRIDE) \<and>
     (\<forall>b a. pc_running c b = Some a \<longrightarrow> pa_base a = slice_base b \<and> 0 \<le> pa_next a \<and>
        pa_next a \<le> pa_block_end a \<and> pa_block_end a = spent c b \<and> 0 \<le> b) \<and>
     (\<forall>pid \<in> set issued. \<exists>b \<ge> 0. slice_base b \<le> pid \<and> pid < slice_base b + frontier c b)"

lemma spent_nonneg: "0 \<le> spent c b"
  by (simp add: spent_def split: json_file.split)

lemma slices_apart:
  assumes "slice_base b \<le> x" "x < slice_base b + PID_STRIDE" "slice_base b' \<le> x" "x < slice_base b' + PID_STRIDE"
  shows "b = b'"
proof -
  have "x div PID_STRIDE = b + 1" "x div PID_STRIDE = b' + 1"
    using assms by (auto simp: slice_base_def PID_STRIDE_def intro!: int_div_pos_eq)
  then show ?thesis by simp
qed

lemma sat_small: "- (2 ^ 63) \<le> x \<Longrightarrow> x \<le> i64_MAX \<Longrightarrow> sat_i64 x = x"
  by (simp add: sat_i64_def)

lemma open_allocator_ok:
  assumes "open_allocator rf False b f = (r, f')" "0 \<le> b" "b < 2 ^ 22"
    and "(case f of Json n \<Rightarrow> max n 0 | _ \<Rightarrow> 0) + PID_BLOCK < PID_STRIDE"
  shows "case r of
      Inl _ \<Rightarrow> f' = f
    | Inr a \<Rightarrow> pa_base a = slice_base b \<and> pa_next a = (case f of Json n \<Rightarrow> max n 0 | _ \<Rightarrow> 0) \<and>
        pa_block_end a = pa_next a + PID_BLOCK \<and> f' = Json (pa_block_end a)"
proof -
  have "(b + 1) * 2 ^ 40 \<le> (2 ^ 22 :: int) * 2 ^ 40" using assms(3) by (intro mult_right_mono) auto
  then have base: "sat_i64 (sat_i64 (max b 0 + 1) * PID_STRIDE) = slice_base b"
    using assms(2,3) by (simp add: sat_i64_def int_bounds slice_base_def PID_STRIDE_def)
  have "0 \<le> slice_base b" using assms(2) by (simp add: slice_base_def PID_STRIDE_def)
  then have "max (- 9223372036854775808) (slice_base b) = slice_base b" by simp
  then show ?thesis
    using assms(1,4) base
    by (auto simp: open_allocator_def read_block_file_def reserve_def Let_def sat_i64_def int_bounds
        PID_BLOCK_def PID_STRIDE_def split: json_file.splits if_splits)
qed

lemma next_pid_ok:
  assumes "next_pid False f a = (pid, a', f')" "pa_base a = slice_base b" "0 \<le> b" "b < 2 ^ 22"
    and "0 \<le> pa_next a" "pa_next a \<le> pa_block_end a" "pa_block_end a + PID_BLOCK < PID_STRIDE"
    and "(case f of Json n \<Rightarrow> max n 0 | _ \<Rightarrow> 0) = pa_block_end a"
  shows "pid = slice_base b + pa_next a \<and> pa_base a' = slice_base b \<and> pa_next a' = pa_next a + 1 \<and>
    pa_next a' \<le> pa_block_end a' \<and> pa_block_end a \<le> pa_block_end a' \<and>
    pa_block_end a' \<le> pa_block_end a + PID_BLOCK \<and>
    (case f' of Json n \<Rightarrow> max n 0 | _ \<Rightarrow> 0) = pa_block_end a'"
proof -
  have "(b + 1) * 2 ^ 40 \<le> (2 ^ 22 :: int) * 2 ^ 40" using assms(4) by (intro mult_right_mono) auto
  then have "sat_i64 (slice_base b + pa_next a) = slice_base b + pa_next a"
    using assms by (intro sat_small) (auto simp: slice_base_def PID_STRIDE_def PID_BLOCK_def int_bounds)
  then show ?thesis
    using assms
    by (auto simp: next_pid_def reserve_def Let_def sat_i64_def int_bounds PID_BLOCK_def PID_STRIDE_def
        split: if_splits)
qed

text \<open>The frontier of every broker only moves forward, and every id in \<open>xs\<close> is new and below it.\<close>

lemma pids_ok_advance:
  assumes ok: "pids_ok (Suc k) issued c"
    and fr: "\<And>b. frontier c b \<le> frontier c' b"
    and sp: "\<And>b. spent c' b \<le> spent c b + PID_BLOCK"
    and run: "\<And>b a. pc_running c' b = Some a \<Longrightarrow> pa_base a = slice_base b \<and> 0 \<le> pa_next a \<and>
        pa_next a \<le> pa_block_end a \<and> pa_block_end a = spent c' b \<and> 0 \<le> b"
    and xs: "distinct xs" "\<And>x. x \<in> set xs \<Longrightarrow> \<exists>b \<ge> 0. slice_base b + frontier c b \<le> x \<and> x < slice_base b + frontier c' b"
  shows "pids_ok k (issued @ xs) c'"
proof -
  note o = ok [unfolded pids_ok_def]
  have room: "spent c b + PID_BLOCK + int k * PID_BLOCK < PID_STRIDE" for b
    using o by (auto simp: algebra_simps)
  have room': "spent c' b + int k * PID_BLOCK < PID_STRIDE" for b using room [of b] sp [of b] by simp
  have below: "frontier d b \<le> spent d b" if "\<And>b a. pc_running d b = Some a \<Longrightarrow> pa_next a \<le> spent d b" for d b
    using that by (auto simp: frontier_def split: option.split)
  have "frontier c' b \<le> spent c' b" for b by (rule below) (use run in fastforce)
  then have top: "frontier c' b < PID_STRIDE" for b
    using room' [of b] by (simp add: PID_BLOCK_def) (meson le_less_trans order.trans of_nat_0_le_iff le_add_same_cancel1 mult_nonneg_nonneg zero_le_numeral)
  have frn: "0 \<le> frontier c b" for b
    using o spent_nonneg [of c b] by (auto simp: frontier_def split: option.split)
  have old: "\<exists>b \<ge> 0. slice_base b \<le> x \<and> x < slice_base b + frontier c b" if "x \<in> set issued" for x using o that by blast
  have "x \<notin> set issued" if x: "x \<in> set xs" for x
  proof
    assume "x \<in> set issued"
    with old obtain b' where b': "slice_base b' \<le> x" "x < slice_base b' + frontier c b'" by blast
    from xs(2) [OF x] obtain b where b: "slice_base b + frontier c b \<le> x" "x < slice_base b + frontier c' b" by blast
    have "b = b'"
      by (rule slices_apart [of _ x])
        (use b b' frn [of b] top [of b] fr [of b'] top [of b'] in linarith)+
    then show False using b b' by simp
  qed
  moreover have "\<exists>b \<ge> 0. slice_base b \<le> x \<and> x < slice_base b + frontier c' b" if "x \<in> set (issued @ xs)" for x
  proof (cases "x \<in> set issued")
    case True
    then obtain b where "0 \<le> b" "slice_base b \<le> x" "x < slice_base b + frontier c b" using old by blast
    then show ?thesis using fr [of b] by (intro exI [of _ b]) linarith
  next
    case False
    then have "x \<in> set xs" using that by simp
    then obtain b where "0 \<le> b" "slice_base b + frontier c b \<le> x" "x < slice_base b + frontier c' b"
      using xs(2) by blast
    then show ?thesis using frn [of b] by (intro exI [of _ b]) linarith
  qed
  moreover have "distinct issued" using o by blast
  ultimately show ?thesis
    unfolding pids_ok_def using run xs(1) room' by (intro conjI) (auto, metis+)
qed

lemma pids_ok_running:
  assumes "pids_ok k issued c" "pc_running c b = Some a"
  shows "pa_base a = slice_base b" "0 \<le> pa_next a" "pa_next a \<le> pa_block_end a" "pa_block_end a = spent c b" "0 \<le> b"
  using assms unfolding pids_ok_def by blast+

lemma pids_ok_frontier: "pids_ok k issued c \<Longrightarrow> frontier c b \<le> spent c b"
  using pids_ok_running(3,4) [of k issued c b] by (auto simp: frontier_def split: option.split)

lemma pids_ok_room:
  assumes "pids_ok (Suc k) issued c"
  shows "spent c b + PID_BLOCK < PID_STRIDE"
proof -
  have "0 \<le> int k * PID_BLOCK" by (simp add: PID_BLOCK_def)
  moreover have "spent c b + (1 + int k) * PID_BLOCK < PID_STRIDE" using assms by (auto simp: pids_ok_def)
  ultimately show ?thesis by (simp add: algebra_simps)
qed

lemma start_keeps_pids_ok:
  assumes ok: "pids_ok (Suc k) issued c" and b: "0 \<le> b" "b < 2 ^ 22"
    and st: "pid_step c (Pid_start b rf) = (xs, c')"
  shows "pids_ok k (issued @ xs) c'"
proof -
  obtain r f' where op: "open_allocator rf False b (pc_files c b) = (r, f')" by fastforce
  note opened = open_allocator_ok [OF op b, folded spent_def, OF pids_ok_room [OF ok]]
  have c': "xs = []" "c' = c\<lparr>pc_files := (pc_files c)(b := f'),
      pc_running := (pc_running c)(b := (case r of Inr a \<Rightarrow> Some a | Inl _ \<Rightarrow> None))\<rparr>"
    using st op by auto
  have sb: "spent c b \<le> frontier c' b \<and> spent c' b \<le> spent c b + PID_BLOCK"
    using opened spent_nonneg [of c b] by (auto simp: c' frontier_def spent_def PID_BLOCK_def split: sum.splits)
  have other: "frontier c' d = frontier c d \<and> spent c' d = spent c d" if "d \<noteq> b" for d
    using that by (simp add: c' frontier_def spent_def cong: option.case_cong)
  show ?thesis
  proof (rule pids_ok_advance [OF ok])
    show "frontier c d \<le> frontier c' d" for d
      using other [of d] sb pids_ok_frontier [OF ok, of b] by (cases "d = b") auto
    show "spent c' d \<le> spent c d + PID_BLOCK" for d
      using other [of d] sb by (cases "d = b") (auto simp: PID_BLOCK_def)
    show "pa_base a = slice_base d \<and> 0 \<le> pa_next a \<and> pa_next a \<le> pa_block_end a \<and>
      pa_block_end a = spent c' d \<and> 0 \<le> d" if "pc_running c' d = Some a" for d a
    proof (cases "d = b")
      case True
      then show ?thesis
        using that opened b spent_nonneg [of c b] by (auto simp: c' spent_def PID_BLOCK_def split: sum.splits)
    next
      case False
      then have "pc_running c d = Some a" using that by (simp add: c'(2))
      then show ?thesis using pids_ok_running [OF ok, of d a] other [OF False] by simp
    qed
  qed (simp_all add: c'(1))
qed

lemma next_keeps_pids_ok:
  assumes ok: "pids_ok (Suc k) issued c" and b: "0 \<le> b" "b < 2 ^ 22"
    and st: "pid_step c (Pid_next b) = (xs, c')" and up: "pc_running c b = Some a"
  shows "pids_ok k (issued @ xs) c'"
proof -
  obtain pid a' f' where nx: "next_pid False (pc_files c b) a = (pid, a', f')" by (metis surj_pair)
  note a = pids_ok_running [OF ok up]
  have room: "pa_block_end a + PID_BLOCK < PID_STRIDE" using pids_ok_room [OF ok] by (simp add: a(4))
  note drawn = next_pid_ok [OF nx a(1) b a(2,3) room, folded spent_def, OF a(4) [symmetric]]
  have c': "xs = [pid]" "c' = c\<lparr>pc_files := (pc_files c)(b := f'), pc_running := (pc_running c)(b \<mapsto> a')\<rparr>"
    using st up nx by auto
  have sb: "spent c' b = pa_block_end a'" using drawn by (simp add: c' spent_def)
  have fb: "frontier c b = pa_next a" "frontier c' b = pa_next a + 1"
    using drawn up by (auto simp: c' frontier_def)
  have other: "frontier c' d = frontier c d \<and> spent c' d = spent c d" if "d \<noteq> b" for d
    using that by (simp add: c' frontier_def spent_def cong: option.case_cong)
  show ?thesis
  proof (rule pids_ok_advance [OF ok])
    show "frontier c d \<le> frontier c' d" for d using other [of d] fb by (cases "d = b") auto
    show "spent c' d \<le> spent c d + PID_BLOCK" for d
      using other [of d] sb drawn a(4) by (cases "d = b") (auto simp: PID_BLOCK_def)
    show "pa_base z = slice_base d \<and> 0 \<le> pa_next z \<and> pa_next z \<le> pa_block_end z \<and>
      pa_block_end z = spent c' d \<and> 0 \<le> d" if "pc_running c' d = Some z" for d z
    proof (cases "d = b")
      case True
      then show ?thesis using that drawn a(2) sb b by (auto simp: c'(2))
    next
      case False
      then have "pc_running c d = Some z" using that by (simp add: c'(2))
      then show ?thesis using pids_ok_running [OF ok, of d z] other [OF False] by simp
    qed
    show "distinct xs" by (simp add: c')
    show "\<exists>d \<ge> 0. slice_base d + frontier c d \<le> x \<and> x < slice_base d + frontier c' d" if "x \<in> set xs" for x
      using that drawn b fb by (intro exI [of _ b]) (auto simp: c'(1))
  qed
qed

lemma step_keeps_pids_ok:
  assumes ok: "pids_ok (Suc k) issued c" and b: "0 \<le> event_broker e" "event_broker e < 2 ^ 22"
    and st: "pid_step c e = (xs, c')"
  shows "pids_ok k (issued @ xs) c'"
proof (cases e)
  case (Pid_start b rf)
  then show ?thesis using start_keeps_pids_ok [OF ok] b st by simp
next
  case (Pid_next b)
  show ?thesis
  proof (cases "pc_running c b")
    case None
    then have same: "xs = []" "c' = c" using st by (simp_all add: Pid_next)
    then show ?thesis
      using pids_ok_running [OF ok] by (intro pids_ok_advance [OF ok]) (simp_all add: PID_BLOCK_def)
  next
    case (Some a)
    then show ?thesis using next_keeps_pids_ok [OF ok] b st Pid_next by simp
  qed
next
  case (Pid_crash b)
  then have c': "xs = []" "c' = c\<lparr>pc_running := (pc_running c)(b := None)\<rparr>" using st by auto
  have sp: "spent c' = spent c" by (simp add: c'(2) spent_def fun_eq_iff)
  have fr: "frontier c' d = (if d = b then spent c d else frontier c d)" for d
    using sp by (auto simp: frontier_def c'(2) split: option.split)
  show ?thesis
  proof (rule pids_ok_advance [OF ok])
    show "pa_base a = slice_base d \<and> 0 \<le> pa_next a \<and> pa_next a \<le> pa_block_end a \<and>
      pa_block_end a = spent c' d \<and> 0 \<le> d" if "pc_running c' d = Some a" for d a
      using that pids_ok_running [OF ok, of d a] by (auto simp: c'(2) sp [unfolded c'(2)] split: if_splits)
  qed (simp_all add: fr sp c'(1) pids_ok_frontier [OF ok] PID_BLOCK_def)
qed

lemma run_keeps_pids_ok:
  assumes "pids_ok (length es) issued c" "\<forall>e \<in> set es. 0 \<le> event_broker e \<and> event_broker e < 2 ^ 22"
    and "pid_run c es = (xs, c')"
  shows "pids_ok 0 (issued @ xs) c'"
  using assms
proof (induction es arbitrary: c issued xs)
  case Nil
  then show ?case by simp
next
  case (Cons e es)
  obtain ys c1 where st: "pid_step c e = (ys, c1)" by fastforce
  obtain zs c2 where rn: "pid_run c1 es = (zs, c2)" by fastforce
  have c2: "xs = ys @ zs" "c2 = c'" using Cons.prems(3) st rn by auto
  have "pids_ok (length es) (issued @ ys) c1"
    using step_keeps_pids_ok [OF _ _ _ st] Cons.prems by simp
  then have "pids_ok 0 ((issued @ ys) @ zs) c'" using Cons.IH [of "issued @ ys" c1 zs] rn Cons.prems(2) unfolding c2 by simp
  then show ?case by (simp add: c2)
qed

text \<open>C34: The ids of the producer id allocators are never reused. Let no broker run at first and let every block file leave room in
  its slice for the run (each event spends at most one block). However the brokers of a cluster start,
  hand out producer ids, crash and start again, with block files that may be unreadable at a start,
  no allocator id is handed out twice, by one broker across its restarts or by two brokers, and every
  id is positive. Every block write reaches the volume; a broker whose allocator did not open hands
  out no allocator id (its fallback counter is not part of the claim).\<close>

theorem pids_never_reused:
  assumes "\<forall>b. pc_running c b = None"
    and "\<forall>b. spent c b + int (length es) * PID_BLOCK < PID_STRIDE"
    and "\<forall>e \<in> set es. 0 \<le> event_broker e \<and> event_broker e < 2 ^ 22"
    and "pid_run c es = (xs, c')"
  shows "distinct xs \<and> (\<forall>pid \<in> set xs. 0 < pid)"
proof -
  have "pids_ok (length es) [] c" using assms(1,2) by (simp add: pids_ok_def)
  then have "pids_ok 0 ([] @ xs) c'" using run_keeps_pids_ok assms(3,4) by blast
  moreover have "0 < slice_base b" if "0 \<le> b" for b using that by (simp add: slice_base_def PID_STRIDE_def)
  ultimately show ?thesis unfolding pids_ok_def by (fastforce dest: order.strict_trans2)
qed

text \<open>Two brokers, the first restarted once while its file is unreadable and once more.\<close>

theorem pids_never_reused_witness:
  "let es = [Pid_start 0 False, Pid_next 0, Pid_next 0, Pid_start 1 False, Pid_next 1, Pid_crash 0,
             Pid_start 0 True, Pid_next 0, Pid_start 0 False, Pid_next 0];
       xs = fst (pid_run \<lparr>pc_files = (\<lambda>_. Absent), pc_running = (\<lambda>_. None)\<rparr> es)
   in xs = [1099511627776, 1099511627777, 2199023255552, 1099511628776] \<and> distinct xs \<and> (\<forall>pid \<in> set xs. 0 < pid)"
proof -
  define es where "es = [Pid_start 0 False, Pid_next 0, Pid_next 0, Pid_start 1 False, Pid_next 1, Pid_crash 0,
             Pid_start 0 True, Pid_next 0, Pid_start 0 False, Pid_next 0]"
  let ?c = "\<lparr>pc_files = (\<lambda>_. Absent), pc_running = (\<lambda>_. None)\<rparr>"
  have "fst (pid_run ?c es) = [1099511627776, 1099511627777, 2199023255552, 1099511628776]"
    by (simp add: es_def open_allocator_def read_block_file_def reserve_def next_pid_def sat_i64_def
        PID_BLOCK_def PID_STRIDE_def int_bounds)
  moreover have "distinct (fst (pid_run ?c es)) \<and> (\<forall>pid \<in> set (fst (pid_run ?c es)). 0 < pid)"
    by (rule pids_never_reused [where c = ?c and es = es and c' = "snd (pid_run ?c es)"])
      (simp_all add: es_def spent_def PID_BLOCK_def PID_STRIDE_def)
  ultimately show ?thesis unfolding es_def Let_def by blast
qed

end
