(* ===== verification/Spec2Isabelle.thy ===== *)
theory Spec2Isabelle
  imports PartitionRecovery FlushProtocol GroupCoordinator TxnState OffsetStore Codec Controller GroupManager
    LogDirMove MemoryEngine ProducerIds
begin

text \<open>
  Verification of kaas, a broker that speaks the Kafka wire protocol and keeps its logs on a
  shared volume. Paths below are under \<open>src/crates\<close>.

  \<^bold>\<open>The program.\<close> A broker stores partitions as directories of segment files (\<open>kaas-storage\<close>),
  coordinates consumer groups, their offsets and transactions (\<open>kaas-coordinator\<close>), and answers
  framed requests (\<open>kaas-codec\<close>, \<open>kaas-protocol\<close>, \<open>kaas-broker\<close>). There is no replication: a
  partition has one leader, and any broker can become the next one because all see the volume. The
  elected controller (\<open>kaas-controller\<close>) writes one assignment file that names the leader and the
  leader epoch of every partition and the coordinator of every group; each broker reads it. Safety
  rests on epochs: a leader stamps its epoch into the partition manifest and into segment names, a
  group coordinator stamps the assignment version into the offset files, a producer carries an
  epoch, and the holder of an older one is refused.

  \<^bold>\<open>Conventions.\<close> Signed machine integers are \<open>int\<close>, with saturation and wrap-around written out
  where the source has them; bytes are \<open>8 word\<close>; varints and bitwise code use words. A struct is a
  record whose fields carry a prefix, an enum a datatype, a \<open>HashMap\<close> an association list with
  \<open>hm_get\<close>, \<open>hm_insert\<close>, \<open>hm_remove\<close>. A fallible operation returns an error or a value, and the
  new state in both cases, so what a failed call leaves behind is visible. Input and output can
  fail: an operation takes a record that says which of its calls fail, and \<open>healthy_io\<close> and
  \<open>healthy_slots\<close> are the records without failures. A JSON file is absent, corrupt or a value.
  CRC-32C and XXH64 are parameters. A method that runs under a lock is one step; tasks that
  interleave are steps of one system.

  \<^bold>\<open>Theories.\<close>

  \<^item> \<open>Prelude\<close>: integers, big-endian bytes, hash maps; the interfaces \<open>step_invariant\<close> (an
    invariant every operation keeps) and \<open>fenced_store\<close> (a file whose stamp only grows).

  \<^item> \<open>FileStore\<close> (\<open>kaas-storage/src/fs.rs\<close>): a directory as named byte strings, positional reads
    and writes, failures.

  \<^item> \<open>SegmentNames\<close>, \<open>LogFormat\<close>, \<open>Segment\<close> (\<open>segment.rs\<close>): segment file names and their order,
    batch headers, the recovery scan, the sparse index and its search, the read loop, the active
    segment. The names round-trip and the listing picks the newest leader's file of an offset; the
    scan returns exactly the whole batches; the binary search is the floor search.

  \<^item> \<open>Idempotence\<close> (\<open>idempotence.rs\<close>, \<open>producer_snapshot.rs\<close>): the dedupe window of a producer.
    Accepted batches are gap-free, retries get their first offset, fenced epochs stay refused.

  \<^item> \<open>TxnIndex\<close> (\<open>txn_index.rs\<close>, \<open>txn_index_snapshot.rs\<close>): open and aborted transactions of a
    partition against an abstract history of batches and markers.

  \<^item> \<open>Manifest\<close> (\<open>manifest.rs\<close>, \<open>atomic_write.rs\<close>, \<open>recovery_checkpoint.rs\<close>): the metadata files; the
    manifest is a \<open>fenced_store\<close>.

  \<^item> \<open>Partition\<close> (\<open>partition.rs\<close>): the state behind the partition lock and every operation that
    changes it. \<open>PartitionLog\<close>: under the invariant \<open>log_ok\<close> a partition refines one list of batches;
    append extends it, a read filters it, DeleteRecords moves its start. \<open>PartitionRecovery\<close>:
    recovery after a torn write, take-over, retention targets. \<open>FlushProtocol\<close>: appenders,
    committer, watchdog and re-arm as an interleaving; an acknowledged append is on disk, and no
    request for a flush is lost.

  \<^item> \<open>DiskEngine\<close> (\<open>disk.rs\<close>, \<open>engine.rs\<close>, \<open>topicconfig.rs\<close>, \<open>topic_identity.rs\<close>, \<open>cleaner.rs\<close>): where
    partitions live, opening on demand, all engine calls, moves between log dirs, the retention
    pass. \<open>LogDirMove\<close> (\<open>kaas-broker/src/topic_registry.rs\<close> and \<open>migrate_partition\<close> of
    \<open>alter_replica_log_dirs.rs\<close>): the placement record and the data agree after a migration.
    \<open>MemoryEngine\<close> (\<open>memory.rs\<close>): the in-memory engine, which the disk engine matches call by call
    (interface \<open>lockstep\<close>).

  \<^item> \<open>TxnState\<close> (\<open>kaas-coordinator/src/txn_state.rs\<close>): the slot files and the life cycle of a
    transaction, with the abstract life cycle it refines. \<open>OffsetStore\<close> (\<open>offset_store.rs\<close>): a
    write-through cache over fenced group files, transactional offsets included.
    \<open>GroupCoordinator\<close> (\<open>group.rs\<close>): members, the join and sync rounds, timers and parked replies.
    \<open>GroupManager\<close> (\<open>manager.rs\<close>, \<open>kaas-broker/src/group_takeover.rs\<close>): routing by coordinator
    (interface \<open>assignment_source\<close>), and offsets that follow a group to its next coordinator.

  \<^item> \<open>Assignment\<close> (\<open>kaas-broker/src/assignment.rs\<close>, \<open>coordinator.rs\<close>, \<open>group_hash.rs\<close>,
    \<open>self_fence.rs\<close>, \<open>takeover.rs\<close>): the assignment file and a broker's view of it. \<open>Balancer\<close>
    (\<open>kaas-controller/src/balancer.rs\<close>): placement of partitions and groups, whose levelling loop
    ends level. \<open>Controller\<close> (\<open>assignment_writer.rs\<close>): the recompute; all brokers agree on one live
    leader, whose epoch is never behind a manifest.

  \<^item> \<open>ProducerIds\<close> (\<open>kaas-broker/src/producer_id.rs\<close>): the allocators of a cluster of brokers that
    start and crash never hand out an id twice.

  \<^item> \<open>Codec\<close> (\<open>kaas-codec/src\<close>: \<open>primitives.rs\<close>, \<open>tagged.rs\<close>, \<open>headers.rs\<close>, \<open>frame.rs\<close>, \<open>crc.rs\<close>):
    readers and writers under the interface \<open>wire_codec\<close> (round trip, self-delimiting).

  The theories with a section on findings or limits also prove what the code does where it departs
  from its comments, such as a retried JoinGroup that completes a rebalance early.

  \<^bold>\<open>Bounds.\<close> No definition uses fuel. The scan, the index search, the read loop and the varint loops are
  recursive with a measure (the bytes left, the width of the interval, the digits left). The
  cluster-wide levelling loop has no bound in the source and is a \<open>while_option\<close>; it is proved to
  return, by the sum of the squared loads. Liveness of the flush protocol counts committer steps:
  six answer every parked append. Hypotheses that keep a value inside its machine type are written
  in the statements (offsets below \<open>i64_MAX\<close>, broker ids and blocks inside the id slices).

  \<^bold>\<open>Not modelled.\<close>

  \<^item> Marker dispatch between brokers (\<open>control_batch.rs\<close>, \<open>txn_markers.rs\<close>, \<open>marker_queue.rs\<close>,
    \<open>marker_watcher.rs\<close>, the EndTxn and WriteTxnMarkers handlers) and the producer fence files
    (\<open>fence_log.rs\<close>, \<open>fence_watcher.rs\<close>). What a marker and a fence do to a partition, and the
    transaction that owes them, are.

  \<^item> The request handlers and the per-API messages: decoding, authorisation, throttling and error
    codes around the modelled calls, built from the primitives of \<open>Codec\<close> field by field.

  \<^item> Sockets, TLS, connection tasks and start-up; authentication, which rests on cryptographic
    libraries, with ACLs and quotas, which touch neither log nor coordinators; leases and watches,
    which are the Kubernetes API server's and enter as inputs of \<open>Assignment\<close> and \<open>Controller\<close>; the
    operator, which reconciles custom resources; metrics and traces, which change no data.

  \<^item> Inside modelled parts: the text of JSON files (serde's), the race of two tasks that open the
    same partition, caches of file handles, and logging.
\<close>

end
